(* ===== verification/Prelude.thy ===== *)
theory Prelude
  imports
    "HOL-Library.Finite_Map"
    "HOL-Library.FSet"
    "HOL-Library.Char_ord"
    "HOL-Library.List_Lexorder"
    "HOL-Library.Word"
    "HOL-Library.Multiset"
    "HOL-Library.Sublist"
begin

text \<open>
  Shared vocabulary of the development.  It names the machine integers and the result type
  of the program, the string and ordered-map operations of the standard library that the
  sources use, and the two algebraic interfaces the components are proved against: steps
  that commute (\<open>commuting_steps\<close>) and merges that form a semilattice
  (\<open>merge_semilattice\<close>).

  A Rust \<open>String\<close> is its sequence of UTF-8 bytes, so a \<open>string\<close> with the bytewise
  lexicographic order; a \<open>BTreeMap\<close> is an \<open>fmap\<close>, iterated in key order by
  \<open>sorted_list_of_fmap\<close>; a \<open>BTreeSet\<close> is an \<open>fset\<close>.
\<close>

section \<open>Names of types\<close>

type_synonym u64 = "64 word"
type_synonym i64 = "64 word"
type_synonym u32 = "32 word"
type_synonym u8 = "8 word"
type_synonym usize = nat

named_theorems word_facts \<open>bounds and wrap-around of machine words\<close>
named_theorems fmap_iter \<open>ordered iteration over maps\<close>
named_theorems str_simps \<open>string functions of the standard library\<close>

section \<open>Machine words\<close>

text \<open>\<open>uN::saturating_add\<close>.\<close>
definition sat_add :: "'a::len word \<Rightarrow> 'a word \<Rightarrow> 'a word" where
  "sat_add a b = (if a + b < a then - 1 else a + b)"

lemma unat_sat_add [word_facts]:
  "unat (sat_add a b) = min (unat a + unat b) (2 ^ LENGTH('a) - 1)"
  for a b :: "'a::len word"
proof (cases "a + b < a")
  case True
  then have "2 ^ LENGTH('a) \<le> unat a + unat b"
    using no_olen_add_nat [of a b] by (simp add: not_less [symmetric])
  moreover have "unat (- 1 :: 'a word) = 2 ^ LENGTH('a) - 1"
    by (simp add: unsigned_minus_1_eq_mask mask_eq_exp_minus_1)
  ultimately show ?thesis
    using True diff_le_self [of "2 ^ LENGTH('a)" 1] by (simp add: sat_add_def min_absorb2)
next
  case False
  then have "a \<le> a + b" by simp
  then have "unat a + unat b < 2 ^ LENGTH('a)"
    by (simp add: no_olen_add_nat)
  then show ?thesis
    using False by (auto simp: sat_add_def unat_word_ariths min_def)
qed

lemma sat_add_ge [word_facts]: "a \<le> sat_add a b"
  by (auto simp: sat_add_def not_less)

lemma sat_add_one_gt [word_facts]:
  "a \<noteq> - 1 \<Longrightarrow> a < sat_add a 1" for a :: "'a::len word"
  by (metis (no_types) add.commute add_cancel_right_right linorder_not_less order_le_neq_trans
      sat_add_def sat_add_ge word_order.extremum_uniqueI zero_neq_one)

lemma sat_add_one_le_max [word_facts]:
  "sat_add a 1 = - 1 \<or> unat (sat_add a 1) = unat a + 1" for a :: "'a::len word"
  by (auto simp: sat_add_def not_less unat_word_ariths no_olen_add_nat)

lemma unat_eqD: "unat a = unat b \<Longrightarrow> a = b"
  by (simp add: word_unat_eq_iff)

section \<open>Results and fallible state transformers\<close>

text \<open>
  A fallible function returns \<open>'e + 'a\<close> with \<open>Inl\<close> the error.  A fallible method on
  \<open>&mut self\<close> returns the state as well, on the error branch too: what was mutated before
  the \<open>?\<close> operator returned stays mutated.
\<close>

type_synonym ('e, 'a) result = "'e + 'a"
type_synonym ('s, 'e, 'a) fallible = "'s \<Rightarrow> ('e + 'a) \<times> 's"

definition okS :: "'a \<Rightarrow> ('s, 'e, 'a) fallible" where
  "okS a = (\<lambda>s. (Inr a, s))"

definition errS :: "'e \<Rightarrow> ('s, 'e, 'a) fallible" where
  "errS e = (\<lambda>s. (Inl e, s))"

definition bindS :: "('s, 'e, 'a) fallible \<Rightarrow> ('a \<Rightarrow> ('s, 'e, 'b) fallible) \<Rightarrow> ('s, 'e, 'b) fallible" where
  "bindS m f = (\<lambda>s. case m s of (Inl e, s') \<Rightarrow> (Inl e, s') | (Inr a, s') \<Rightarrow> f a s')"

definition modifyS :: "('s \<Rightarrow> 's) \<Rightarrow> ('s, 'e, unit) fallible" where
  "modifyS f = (\<lambda>s. (Inr (), f s))"

definition is_ok :: "'e + 'a \<Rightarrow> bool" where
  "is_ok r = (case r of Inl _ \<Rightarrow> False | Inr _ \<Rightarrow> True)"

lemma is_ok_simps [simp]: "is_ok (Inl e) = False" "is_ok (Inr a) = True"
  by (simp_all add: is_ok_def)

text \<open>Reading the state, and a state change that yields a value.\<close>
definition readS :: "('s \<Rightarrow> 'a) \<Rightarrow> ('s, 'e, 'a) fallible" where
  "readS f = (\<lambda>s. (Inr (f s), s))"

definition stateS :: "('s \<Rightarrow> 'a \<times> 's) \<Rightarrow> ('s, 'e, 'a) fallible" where
  "stateS f = (\<lambda>s. let (a, s') = f s in (Inr a, s'))"

text \<open>A result computed from the state without changing it, with the error passed on.\<close>
definition checkS :: "('s \<Rightarrow> 'e + 'a) \<Rightarrow> ('s, 'e, 'a) fallible" where
  "checkS f = (\<lambda>s. (f s, s))"

lemma readS_apply [simp, code]: "readS f s = (Inr (f s), s)"
  by (simp add: readS_def)

lemma stateS_apply [simp, code]: "stateS f s = (Inr (fst (f s)), snd (f s))"
  by (simp add: stateS_def split_def Let_def)

lemma checkS_apply [simp, code]: "checkS f s = (f s, s)"
  by (simp add: checkS_def)

lemma okS_apply [simp, code]: "okS a s = (Inr a, s)"
  by (simp add: okS_def)

lemma errS_apply [simp, code]: "errS e s = (Inl e, s)"
  by (simp add: errS_def)

lemma modifyS_apply [simp, code]: "modifyS f s = (Inr (), f s)"
  by (simp add: modifyS_def)

text \<open>Code equations on the applied transformer keep evaluation from going under the binders.\<close>
lemma bindS_apply [code]:
  "bindS m f s = (case m s of (Inl e, s') \<Rightarrow> (Inl e, s') | (Inr a, s') \<Rightarrow> f a s')"
  by (simp add: bindS_def)

lemma bindS_cases:
  "bindS m f s = (r, s') \<longleftrightarrow>
    (\<exists>e. m s = (Inl e, s') \<and> r = Inl e) \<or> (\<exists>a s1. m s = (Inr a, s1) \<and> f a s1 = (r, s'))"
  by (auto simp: bindS_def split: prod.splits sum.splits)

lemma bindS_okS [simp]: "bindS (okS a) f = f a"
  by (simp add: bindS_def okS_def)

lemma bindS_errS [simp]: "bindS (errS e) f = errS e"
  by (simp add: bindS_def errS_def)

lemma bindS_okS_right [simp]: "bindS m okS = m"
  by (auto simp: bindS_def okS_def fun_eq_iff split: prod.splits sum.splits)

lemma bindS_assoc: "bindS (bindS m f) g = bindS m (\<lambda>a. bindS (f a) g)"
  by (auto simp: bindS_def fun_eq_iff split: prod.splits sum.splits)

text \<open>A relation between the states before and after that every run of a method satisfies.\<close>
definition runs_within :: "('s \<Rightarrow> 's \<Rightarrow> bool) \<Rightarrow> ('s, 'e, 'a) fallible \<Rightarrow> bool" where
  "runs_within R m \<longleftrightarrow> (\<forall>s. R s (snd (m s)))"

section \<open>Strings\<close>

text \<open>\<open>str::starts_with\<close>, \<open>str::strip_prefix\<close> and \<open>str::contains\<close> with a string pattern.\<close>
definition starts_with :: "string \<Rightarrow> string \<Rightarrow> bool" where
  "starts_with s p = (take (length p) s = p)"

definition strip_prefix :: "string \<Rightarrow> string \<Rightarrow> string option" where
  "strip_prefix p s = (if starts_with s p then Some (drop (length p) s) else None)"

fun contains_str :: "string \<Rightarrow> string \<Rightarrow> bool" where
  "contains_str [] p = (p = [])"
| "contains_str (c # s) p = (starts_with (c # s) p \<or> contains_str s p)"

text \<open>\<open>str::split\<close> on one character: never empty, one part more than there are separators.\<close>
fun split_on :: "char \<Rightarrow> string \<Rightarrow> string list" where
  "split_on c [] = [[]]"
| "split_on c (x # s) =
    (if x = c then [] # split_on c s
     else case split_on c s of [] \<Rightarrow> [[x]] | p # ps \<Rightarrow> (x # p) # ps)"

text \<open>\<open>[String]::join\<close>.\<close>
fun join :: "string \<Rightarrow> string list \<Rightarrow> string" where
  "join sep [] = []"
| "join sep [p] = p"
| "join sep (p # q # ps) = p @ sep @ join sep (q # ps)"

text \<open>The lower-case hexadecimal rendering \<open>{:x}\<close> and the decimal rendering \<open>{}\<close> of an integer.\<close>
definition hex_digit :: "nat \<Rightarrow> char" where
  "hex_digit n = ''0123456789abcdef'' ! (n mod 16)"

fun digits_rev :: "nat \<Rightarrow> nat \<Rightarrow> nat list" where
  "digits_rev b n = (if n < b \<or> b < 2 then [n] else (n mod b) # digits_rev b (n div b))"

declare digits_rev.simps [simp del]

definition hex :: "nat \<Rightarrow> string" where
  "hex n = map hex_digit (rev (digits_rev 16 n))"

definition decimal :: "nat \<Rightarrow> string" where
  "decimal n = map hex_digit (rev (digits_rev 10 n))"

lemma starts_with_append [simp, str_simps]: "starts_with (p @ s) p"
  by (simp add: starts_with_def)

lemma starts_with_iff_prefix: "starts_with s p \<longleftrightarrow> prefix p s"
  by (metis append_eq_conv_conj append_take_drop_id prefix_def starts_with_def)

lemma strip_prefix_append [simp, str_simps]: "strip_prefix p (p @ s) = Some s"
  by (simp add: strip_prefix_def)

lemma strip_prefix_eq_Some [str_simps]: "strip_prefix p s = Some r \<longleftrightarrow> s = p @ r"
  by (auto simp: strip_prefix_def starts_with_iff_prefix prefix_def)

lemma contains_str_iff: "contains_str s p \<longleftrightarrow> (\<exists>a b. s = a @ p @ b)"
proof (induction s)
  case (Cons c s)
  have "starts_with (c # s) p \<longleftrightarrow> (\<exists>b. c # s = p @ b)"
    by (metis starts_with_iff_prefix prefix_def)
  with Cons show ?case
    by (auto simp: Cons_eq_append_conv)
qed auto

lemma split_on_nonempty [simp]: "split_on c s \<noteq> []"
  by (induction s) (auto split: list.splits)

lemma split_on_no_sep: "c \<notin> set s \<Longrightarrow> split_on c s = [s]"
  by (induction s) auto

lemma split_on_sep: "c \<notin> set p \<Longrightarrow> split_on c (p @ c # s) = p # split_on c s"
  by (induction p) auto

lemma split_on_join:
  "ps \<noteq> [] \<Longrightarrow> \<forall>p \<in> set ps. c \<notin> set p \<Longrightarrow> split_on c (join [c] ps) = ps"
  by (induction "[c]" ps rule: join.induct) (auto simp: split_on_no_sep split_on_sep)

lemma join_split_on: "join [c] (split_on c s) = s"
proof (induction s)
  case (Cons x s)
  obtain p ps where ps: "split_on c s = p # ps"
    by (metis list.exhaust split_on_nonempty)
  with Cons show ?case by (cases ps) auto
qed simp

lemma join_inj:
  assumes "join [c] ps = join [c] qs" "ps \<noteq> []" "qs \<noteq> []"
    and "\<forall>p \<in> set ps. c \<notin> set p" "\<forall>q \<in> set qs. c \<notin> set q"
  shows "ps = qs"
  using assms split_on_join by metis

subsection \<open>Digits\<close>

fun undigits :: "nat \<Rightarrow> nat list \<Rightarrow> nat" where
  "undigits b [] = 0"
| "undigits b (d # ds) = d + b * undigits b ds"

lemma undigits_digits_rev: "undigits b (digits_rev b n) = n"
  by (induction b n rule: digits_rev.induct) (subst digits_rev.simps, auto)

lemma digits_rev_less: "2 \<le> b \<Longrightarrow> d \<in> set (digits_rev b n) \<Longrightarrow> d < b"
  by (induction b n rule: digits_rev.induct) (subst (asm) (2) digits_rev.simps, auto split: if_splits)

lemma hex_digit_inj: "m < 16 \<Longrightarrow> n < 16 \<Longrightarrow> hex_digit m = hex_digit n \<Longrightarrow> m = n"
proof -
  have "distinct ''0123456789abcdef''" by simp
  then show "m < 16 \<Longrightarrow> n < 16 \<Longrightarrow> hex_digit m = hex_digit n \<Longrightarrow> m = n"
    by (simp add: hex_digit_def nth_eq_iff_index_eq)
qed

lemma map_hex_digit_inj:
  assumes "map hex_digit xs = map hex_digit ys" "\<forall>x \<in> set xs. x < 16" "\<forall>y \<in> set ys. y < 16"
  shows "xs = ys"
  using assms by (intro map_inj_on [of hex_digit xs ys]) (auto intro!: inj_onI hex_digit_inj)

lemma hex_inj: "hex m = hex n \<Longrightarrow> m = n"
proof -
  assume "hex m = hex n"
  then have "rev (digits_rev 16 m) = rev (digits_rev 16 n)"
    unfolding hex_def by (rule map_hex_digit_inj) (auto dest: digits_rev_less [rotated])
  then have "digits_rev 16 m = digits_rev 16 n" by simp
  then show ?thesis by (metis undigits_digits_rev)
qed

lemma decimal_inj: "decimal m = decimal n \<Longrightarrow> m = n"
proof -
  assume "decimal m = decimal n"
  then have "rev (digits_rev 10 m) = rev (digits_rev 10 n)"
    unfolding decimal_def
    by (rule map_hex_digit_inj) (force dest: digits_rev_less [rotated])+
  then have "digits_rev 10 m = digits_rev 10 n" by simp
  then show ?thesis by (metis undigits_digits_rev)
qed

lemma hex_chars: "c \<in> set (hex n) \<Longrightarrow> c \<in> set ''0123456789abcdef''"
proof -
  assume "c \<in> set (hex n)"
  then obtain d where "c = ''0123456789abcdef'' ! (d mod 16)"
    by (auto simp: hex_def hex_digit_def)
  then show ?thesis by (simp only:) (rule nth_mem, simp)
qed

section \<open>Ordered iteration over maps and sets\<close>

lemma set_sorted_list_of_fset [simp, fmap_iter]: "set (sorted_list_of_fset A) = fset A"
  by (transfer, simp)

lemma distinct_sorted_list_of_fset [simp, fmap_iter]: "distinct (sorted_list_of_fset A)"
  by (simp add: sorted_list_of_fset.rep_eq)

lemma sorted_sorted_list_of_fset [simp, fmap_iter]: "sorted (sorted_list_of_fset A)"
  by (simp add: sorted_list_of_fset.rep_eq)

lemma length_sorted_list_of_fset [simp, fmap_iter]: "length (sorted_list_of_fset A) = fcard A"
  by (simp add: sorted_list_of_fset.rep_eq fcard.rep_eq)

lemma keys_sorted_list_of_fmap [simp, fmap_iter]:
  "map fst (sorted_list_of_fmap m) = sorted_list_of_fset (fmdom m)"
  by (simp add: sorted_list_of_fmap_def comp_def)

lemma set_sorted_list_of_fmap [fmap_iter]:
  "(k, v) \<in> set (sorted_list_of_fmap m) \<longleftrightarrow> fmlookup m k = Some v"
  by (auto simp: sorted_list_of_fmap_def fmlookup_dom_iff image_iff) 

lemma map_of_sorted_list_of_fmap [simp, fmap_iter]:
  "map_of (sorted_list_of_fmap m) k = fmlookup m k"
proof (cases "fmlookup m k")
  case None
  then show ?thesis
    by (auto simp: map_of_eq_None_iff set_sorted_list_of_fmap)
next
  case (Some v)
  then have "(k, v) \<in> set (sorted_list_of_fmap m)" by (simp add: set_sorted_list_of_fmap)
  moreover have "distinct (map fst (sorted_list_of_fmap m))" by simp
  ultimately show ?thesis using Some by (simp add: map_of_eq_Some_iff)
qed

lemma fmap_of_sorted_list_of_fmap [simp, fmap_iter]: "fmap_of_list (sorted_list_of_fmap m) = m"
  by (intro fmap_ext) (simp add: fmlookup_of_list)

text \<open>The smallest key of a map: \<open>keys().next()\<close>.\<close>
definition first_key :: "('k::linorder, 'v) fmap \<Rightarrow> 'k option" where
  "first_key m = (case sorted_list_of_fset (fmdom m) of [] \<Rightarrow> None | k # _ \<Rightarrow> Some k)"

lemma first_key_Some: "first_key m = Some k \<Longrightarrow> k |\<in>| fmdom m"
  unfolding first_key_def
  by (metis list.case_eq_if list.set_sel(1) option.distinct(1) option.inject set_sorted_list_of_fset)

section \<open>Interfaces\<close>

text \<open>
  Steps that commute on the states of an invariant whenever they are compatible.  Applying a
  batch of pairwise compatible steps in any order gives the same state; if the steps are also
  idempotent, duplicates do not matter either.  This is what makes a replica independent of
  the delivery order of operations.
\<close>

definition all_compat :: "('op \<Rightarrow> 'op \<Rightarrow> bool) \<Rightarrow> 'op list \<Rightarrow> bool" where
  "all_compat R xs \<longleftrightarrow> (\<forall>x \<in> set xs. \<forall>y \<in> set xs. R x y)"

locale commuting_steps =
  fixes step :: "'op \<Rightarrow> 's \<Rightarrow> 's"
    and compat :: "'op \<Rightarrow> 'op \<Rightarrow> bool"
    and inv :: "'s \<Rightarrow> bool"
  assumes step_inv: "compat x x \<Longrightarrow> inv s \<Longrightarrow> inv (step x s)"
    and step_commute: "compat x y \<Longrightarrow> inv s \<Longrightarrow> step x (step y s) = step y (step x s)"
begin

lemma fold_inv: "all_compat compat xs \<Longrightarrow> inv s \<Longrightarrow> inv (fold step xs s)"
  by (induction xs arbitrary: s) (auto simp: step_inv all_compat_def)

lemma fold_step_commute:
  "\<forall>y \<in> set xs. compat x y \<and> compat y y \<Longrightarrow> inv s \<Longrightarrow> fold step xs (step x s) = step x (fold step xs s)"
proof (induction xs arbitrary: s)
  case (Cons y ys)
  then have "step y (step x s) = step x (step y s)" by (intro step_commute [symmetric]) auto
  with Cons show ?case by (simp add: step_inv)
qed simp

lemma fold_remove1:
  assumes "x \<in> set xs" "all_compat compat xs" "inv s"
  shows "fold step xs s = fold step (x # remove1 x xs) s"
  using assms
proof (induction xs arbitrary: s)
  case (Cons y ys)
  show ?case
  proof (cases "x = y")
    case False
    with Cons.prems have "fold step ys (step y s) = fold step (x # remove1 x ys) (step y s)"
      by (intro Cons.IH) (auto simp: step_inv all_compat_def)
    moreover from Cons.prems False have "step x (step y s) = step y (step x s)"
      by (simp add: step_commute all_compat_def)
    ultimately show ?thesis using False by simp
  qed simp
qed simp

theorem permutation_invariant:
  assumes "mset xs = mset ys" "all_compat compat xs" "inv s"
  shows "fold step xs s = fold step ys s"
  using assms
proof (induction xs arbitrary: ys s)
  case (Cons x xs)
  from Cons.prems(1) have sets: "set (x # xs) = set ys" by (metis set_mset_mset)
  then have x: "x \<in> set ys" by auto
  have gys: "all_compat compat ys" using Cons.prems(2) unfolding all_compat_def sets .
  from Cons.prems(1) have "mset xs = mset (remove1 x ys)"
    by (metis add_mset_remove_trivial mset.simps(2) mset_remove1)
  with Cons.prems have "fold step xs (step x s) = fold step (remove1 x ys) (step x s)"
    by (intro Cons.IH) (auto simp: step_inv all_compat_def)
  with x gys Cons.prems show ?case by (simp add: fold_remove1)
qed simp

end

locale idempotent_steps = commuting_steps +
  assumes step_idem: "compat x x \<Longrightarrow> inv s \<Longrightarrow> step x (step x s) = step x s"
begin

lemma fold_duplicate:
  assumes "x \<in> set xs" "all_compat compat xs" "inv s"
  shows "fold step (x # xs) s = fold step xs s"
proof -
  have c: "compat x x" and r: "\<forall>y \<in> set (remove1 x xs). compat x y \<and> compat y y"
    using assms by (auto simp: all_compat_def dest: notin_set_remove1)
  have "fold step xs (step x s) = fold step (remove1 x xs) (step x (step x s))"
    using fold_remove1 [of x xs "step x s"] assms c by (simp add: step_inv)
  then show ?thesis
    using fold_remove1 [of x xs s] assms c by (simp add: step_idem)
qed

lemma fold_remdups: "all_compat compat xs \<Longrightarrow> inv s \<Longrightarrow> fold step (remdups xs) s = fold step xs s"
proof (induction xs arbitrary: s)
  case (Cons x xs)
  then have c: "compat x x" "all_compat compat xs" by (auto simp: all_compat_def)
  with Cons.IH [of "step x s"] Cons.prems have "fold step (remdups xs) (step x s) = fold step xs (step x s)"
    by (simp add: step_inv)
  moreover have "x \<in> set xs \<Longrightarrow> fold step xs s = fold step xs (step x s)"
    using fold_duplicate [of x xs s] c Cons.prems(2) by simp
  ultimately show ?case using Cons.IH [of s] c Cons.prems(2) by simp
qed simp

theorem delivery_invariant:
  assumes "set xs = set ys" "all_compat compat xs" "inv s"
  shows "fold step xs s = fold step ys s"
proof -
  have "mset (remdups xs) = mset (remdups ys)"
    using assms(1) by (simp add: set_eq_iff_mset_remdups_eq)
  moreover have "all_compat compat (remdups xs)" "all_compat compat ys"
    using assms(1,2) by (simp_all add: all_compat_def)
  ultimately show ?thesis
    using permutation_invariant [of "remdups xs" "remdups ys" s] assms fold_remdups by metis
qed

end

text \<open>
  A merge of two replica states that is associative, commutative and idempotent on
  well-formed states: repeated, reordered and duplicated merges agree.
\<close>

locale merge_semilattice =
  fixes merge :: "'s \<Rightarrow> 's \<Rightarrow> 's"
    and wf :: "'s \<Rightarrow> bool"
  assumes merge_wf: "wf a \<Longrightarrow> wf b \<Longrightarrow> wf (merge a b)"
    and merge_commute: "wf a \<Longrightarrow> wf b \<Longrightarrow> merge a b = merge b a"
    and merge_assoc: "wf a \<Longrightarrow> wf b \<Longrightarrow> wf c \<Longrightarrow> merge (merge a b) c = merge a (merge b c)"
    and merge_idem: "wf a \<Longrightarrow> merge a a = a"
begin

lemma merge_absorb: "wf a \<Longrightarrow> wf b \<Longrightarrow> merge (merge a b) b = merge a b"
  by (simp add: merge_assoc merge_idem)

lemma merge_left_commute:
  "wf a \<Longrightarrow> wf b \<Longrightarrow> wf c \<Longrightarrow> merge (merge a b) c = merge (merge a c) b"
  by (metis merge_assoc merge_commute)

end

sublocale merge_semilattice \<subseteq> merging: idempotent_steps "\<lambda>x s. merge s x" "\<lambda>x y. wf x \<and> wf y" wf
  by unfold_locales (simp_all add: merge_wf merge_left_commute merge_absorb)


text \<open>
  An undo log: before every step the log notes what it needs, and restoring the log brings the
  structure back to where the log was started, whatever the steps were.  The transaction
  journal of the database is a record of such logs.
\<close>

locale undo_log =
  fixes start :: "'s \<Rightarrow> 'u"
    and note_step :: "'op \<Rightarrow> 's \<Rightarrow> 'u \<Rightarrow> 'u"
    and step :: "'op \<Rightarrow> 's \<Rightarrow> 's"
    and restore :: "'u \<Rightarrow> 's \<Rightarrow> 's"
    and inv :: "'s \<Rightarrow> bool"
    and undoes :: "'s \<Rightarrow> 'u \<Rightarrow> 's \<Rightarrow> bool"
  assumes undoes_start: "inv s \<Longrightarrow> undoes s (start s) s"
    and undoes_step: "inv s \<Longrightarrow> undoes s u t \<Longrightarrow> undoes s (note_step x t u) (step x t)"
    and undoes_restore: "inv s \<Longrightarrow> undoes s u t \<Longrightarrow> restore u t = s"
begin

lemma logged_steps_undo:
  "inv s \<Longrightarrow> undoes s u t \<Longrightarrow>
    (case fold (\<lambda>x (u, t). (note_step x t u, step x t)) xs (u, t) of (u', t') \<Rightarrow> undoes s u' t')"
  by (induction xs arbitrary: u t) (auto simp: undoes_step)

lemma restore_logged_steps:
  assumes "inv s" "fold (\<lambda>x (u, t). (note_step x t u, step x t)) xs (start s, s) = (u', t')"
  shows "restore u' t' = s"
  using logged_steps_undo [OF assms(1) undoes_start, OF assms(1), of xs] assms
  by (auto intro: undoes_restore)

end

section \<open>Replaying saved entries into a map or a set\<close>

definition put_entry :: "'k \<Rightarrow> 'v option \<Rightarrow> ('k, 'v) fmap \<Rightarrow> ('k, 'v) fmap" where
  "put_entry k v m = (case v of Some x \<Rightarrow> fmupd k x m | None \<Rightarrow> fmdrop k m)"

lemma lookup_put_entry [simp]: "fmlookup (put_entry k v m) l = (if l = k then v else fmlookup m l)"
  by (simp add: put_entry_def split: option.splits)

lemma fold_put_entry:
  "distinct (map fst es) \<Longrightarrow>
    fmlookup (fold (\<lambda>(k, v). put_entry k v) es m) l =
      (case map_of es l of Some v \<Rightarrow> v | None \<Rightarrow> fmlookup m l)"
proof (induction es arbitrary: m)
  case (Cons e es)
  obtain k v where e: "e = (k, v)" by fastforce
  with Cons.prems have "map_of es k = None" by (auto simp: map_of_eq_None_iff)
  with Cons e show ?case by (auto split: option.splits)
qed simp

lemma replay_put_entry:
  "fmlookup (fold (\<lambda>(k, v). put_entry k v) (sorted_list_of_fmap j) m) l =
    (case fmlookup j l of Some v \<Rightarrow> v | None \<Rightarrow> fmlookup m l)"
  by (simp add: fold_put_entry)

lemma fold_fmupd:
  "distinct (map fst es) \<Longrightarrow>
    fmlookup (fold (\<lambda>(k, v). fmupd k v) es m) l =
      (case map_of es l of Some v \<Rightarrow> Some v | None \<Rightarrow> fmlookup m l)"
proof (induction es arbitrary: m)
  case (Cons e es)
  obtain k v where e: "e = (k, v)" by fastforce
  with Cons.prems have "map_of es k = None" by (auto simp: map_of_eq_None_iff)
  with Cons e show ?case by (auto split: option.splits)
qed simp

lemma map_update_at:
  assumes "distinct ks" "i < length ks" "\<And>l. l \<noteq> ks ! i \<Longrightarrow> g l = f l"
  shows "map g ks = (map f ks)[i := g (ks ! i)]"
proof (rule nth_equalityI)
  fix j assume "j < length (map g ks)"
  then show "map g ks ! j = (map f ks)[i := g (ks ! i)] ! j"
    using assms by (cases "i = j") (auto simp: nth_eq_iff_index_eq)
qed simp

text \<open>Later updates win over earlier ones.\<close>
lemma fold_put_entries:
  "fmlookup (fold (\<lambda>(k, v). put_entry k v) es m) l =
    (case map_of (rev es) l of Some v \<Rightarrow> v | None \<Rightarrow> fmlookup m l)"
  by (induction es arbitrary: m) (auto simp: map_add_def split: option.splits)

section \<open>Cutting a list into chunks\<close>

text \<open>\<open>slice::chunks\<close>, which panics for chunks of size 0; no caller passes 0.\<close>
function chunks :: "nat \<Rightarrow> 'a list \<Rightarrow> 'a list list" where
  "chunks n xs = (if xs = [] \<or> n = 0 then [] else take n xs # chunks n (drop n xs))"
  by auto

termination
  by (relation "measure (\<lambda>(n, xs). length xs)") auto

declare chunks.simps [simp del]

lemma concat_chunks [simp]: "0 < n \<Longrightarrow> concat (chunks n xs) = xs"
  by (induction n xs rule: chunks.induct) (subst chunks.simps, auto)

lemma chunks_bounded: "c \<in> set (chunks n xs) \<Longrightarrow> c \<noteq> [] \<and> length c \<le> n"
  by (induction n xs rule: chunks.induct) (subst (asm) (2) chunks.simps, auto split: if_splits)

end
