(* ===== verification/Clock.thy ===== *)
theory Clock
  imports Prelude
begin

text \<open>
  The hybrid logical clock of \<open>src/src/clock.rs\<close>: revisions and version markers with their
  orders, and the clock that issues revisions and identifiers.  The wall clock
  (\<open>now_millis\<close>) is an argument of every operation that reads it.

  The lemmas show that the orders are linear, that a revision issued by a clock is above
  everything the clock has issued or observed before (until the 32-bit counter saturates),
  and that the identifiers one clock issues never collide.
\<close>

section \<open>Revisions and version markers\<close>

(* src: src/src/clock.rs:6-11 Revision *)
datatype revision = Revision (rev_millis: u64) (rev_counter: u32) (rev_actor: string)

(* src: src/src/clock.rs:28-32 VersionMarker *)
datatype version_marker = VersionMarker (vm_revision: revision) (vm_op_id: string)

lemma revision_eq_iff:
  "a = b \<longleftrightarrow> rev_millis a = rev_millis b \<and> rev_counter a = rev_counter b \<and> rev_actor a = rev_actor b"
  by (cases a; cases b) simp

lemma version_marker_eq_iff:
  "a = b \<longleftrightarrow> vm_revision a = vm_revision b \<and> vm_op_id a = vm_op_id b"
  by (cases a; cases b) simp

(* src: src/src/clock.rs:14-19 Revision::cmp *)
definition revision_less :: "revision \<Rightarrow> revision \<Rightarrow> bool" where
  "revision_less a b =
    (rev_millis a < rev_millis b \<or>
     rev_millis a = rev_millis b \<and>
       (rev_counter a < rev_counter b \<or>
        rev_counter a = rev_counter b \<and> rev_actor a < rev_actor b))"

instantiation revision :: linorder
begin

definition less_revision :: "revision \<Rightarrow> revision \<Rightarrow> bool" where
  "less_revision = revision_less"

definition less_eq_revision :: "revision \<Rightarrow> revision \<Rightarrow> bool" where
  "less_eq_revision a b = (a < b \<or> a = b)"

instance
  by intro_classes
    (auto simp: less_revision_def revision_less_def less_eq_revision_def revision_eq_iff
      dest: order.strict_trans)

end

(* src: src/src/clock.rs:35-39 VersionMarker::cmp *)
definition version_marker_less :: "version_marker \<Rightarrow> version_marker \<Rightarrow> bool" where
  "version_marker_less a b =
    (vm_revision a < vm_revision b \<or> vm_revision a = vm_revision b \<and> vm_op_id a < vm_op_id b)"

instantiation version_marker :: linorder
begin

definition less_version_marker :: "version_marker \<Rightarrow> version_marker \<Rightarrow> bool" where
  "less_version_marker = version_marker_less"

definition less_eq_version_marker :: "version_marker \<Rightarrow> version_marker \<Rightarrow> bool" where
  "less_eq_version_marker a b = (a < b \<or> a = b)"

instance
  by intro_classes
    (auto simp: less_version_marker_def version_marker_less_def less_eq_version_marker_def
      version_marker_eq_iff dest: order.strict_trans)

end

lemmas revision_order = less_revision_def revision_less_def less_eq_revision_def
lemmas marker_order = less_version_marker_def version_marker_less_def less_eq_version_marker_def

section \<open>The clock\<close>

(* src: src/src/clock.rs:48-54 HybridClock *)
record hybrid_clock =
  clk_actor :: string
  clk_last_millis :: u64
  clk_counter :: u32
  clk_sequence :: u64

(* src: src/src/clock.rs:57-64 HybridClock::with_actor *)
definition with_actor :: "u64 \<Rightarrow> string \<Rightarrow> hybrid_clock" where
  "with_actor now actor =
    \<lparr> clk_actor = actor, clk_last_millis = now, clk_counter = 0, clk_sequence = 0 \<rparr>"

(* src: src/src/clock.rs:70-84 HybridClock::next_revision *)
definition next_revision :: "u64 \<Rightarrow> hybrid_clock \<Rightarrow> revision \<times> hybrid_clock" where
  "next_revision now c =
    (let c' = (if now > clk_last_millis c
               then c\<lparr> clk_last_millis := now, clk_counter := 0 \<rparr>
               else c\<lparr> clk_counter := sat_add (clk_counter c) 1 \<rparr>)
     in (Revision (clk_last_millis c') (clk_counter c') (clk_actor c'), c'))"

(* src: src/src/clock.rs:86-93 HybridClock::observe *)
definition observe :: "revision \<Rightarrow> hybrid_clock \<Rightarrow> hybrid_clock" where
  "observe r c =
    (if rev_millis r > clk_last_millis c
     then c\<lparr> clk_last_millis := rev_millis r, clk_counter := rev_counter r \<rparr>
     else if rev_millis r = clk_last_millis c \<and> rev_counter r > clk_counter c
     then c\<lparr> clk_counter := rev_counter r \<rparr>
     else c)"

text \<open>
  \<open>sanitize_component\<close> maps characters, not bytes: of a multi-byte character only the leading
  byte is replaced, its continuation bytes (those of the form \<open>10xxxxxx\<close>) are not
  characters of their own.
\<close>

definition ascii_alphanumeric :: "char \<Rightarrow> bool" where
  "ascii_alphanumeric c =
    (CHR ''0'' \<le> c \<and> c \<le> CHR ''9'' \<or> CHR ''A'' \<le> c \<and> c \<le> CHR ''Z'' \<or>
     CHR ''a'' \<le> c \<and> c \<le> CHR ''z'')"

definition utf8_continuation :: "char \<Rightarrow> bool" where
  "utf8_continuation c = (128 \<le> (of_char c :: nat) \<and> (of_char c :: nat) < 192)"

(* src: src/src/clock.rs:152-169 sanitize_component *)
definition sanitize_component :: "string \<Rightarrow> string" where
  "sanitize_component input =
    (let sanitized = map (\<lambda>ch. if ascii_alphanumeric ch \<or> ch = CHR ''-'' \<or> ch = CHR ''_'' \<or> ch = CHR ''.''
                               then ch else CHR ''-'')
                         (filter (\<lambda>ch. \<not> utf8_continuation ch) input)
     in if sanitized = [] then ''node'' else sanitized)"

(* src: src/src/clock.rs:95-105 HybridClock::next_op_id *)
definition next_op_id :: "string \<Rightarrow> hybrid_clock \<Rightarrow> string \<times> hybrid_clock" where
  "next_op_id ns c =
    (let c' = c\<lparr> clk_sequence := sat_add (clk_sequence c) 1 \<rparr>
     in (sanitize_component (clk_actor c') @ ''/'' @ sanitize_component ns @ ''/'' @
         hex (unat (clk_last_millis c')) @ ''-'' @ hex (unat (clk_counter c')) @ ''-'' @
         hex (unat (clk_sequence c')), c'))"

(* src: src/src/clock.rs:107-115 HybridClock::next_node_id *)
definition next_node_id :: "string \<Rightarrow> hybrid_clock \<Rightarrow> string \<times> hybrid_clock" where
  "next_node_id hint c =
    (let c' = c\<lparr> clk_sequence := sat_add (clk_sequence c) 1 \<rparr>
     in (sanitize_component (clk_actor c') @ ''/'' @ sanitize_component hint @ ''/'' @
         hex (unat (clk_sequence c')), c'))"

(* src: src/src/clock.rs:117-119 HybridClock::default_actor *)
definition default_actor :: "u64 \<Rightarrow> string" where
  "default_actor now = ''replica-'' @ hex (unat now)"

(* src: src/src/clock.rs:121-128 HybridClock::rebased_with_actor *)
definition rebased_with_actor :: "string \<Rightarrow> hybrid_clock \<Rightarrow> hybrid_clock" where
  "rebased_with_actor actor c =
    \<lparr> clk_actor = actor, clk_last_millis = clk_last_millis c, clk_counter = clk_counter c,
      clk_sequence = clk_sequence c \<rparr>"

section \<open>Runs of a clock\<close>

text \<open>
  What happens to the clock of a replica: it stamps a local operation (a revision and then an
  identifier, as the writers of \<open>db.rs\<close> do), names a fresh node, or observes the revision
  of a remote operation.
\<close>

datatype clock_event = Stamp u64 | FreshNode string | Observed revision

fun clock_step :: "clock_event \<Rightarrow> hybrid_clock \<Rightarrow> version_marker list \<times> string list \<times> hybrid_clock" where
  "clock_step (Stamp now) c =
    (let (r, c1) = next_revision now c; (i, c2) = next_op_id ''op'' c1
     in ([VersionMarker r i], [], c2))"
| "clock_step (FreshNode hint) c = (let (i, c1) = next_node_id hint c in ([], [i], c1))"
| "clock_step (Observed r) c = ([], [], observe r c)"

fun clock_run :: "clock_event list \<Rightarrow> hybrid_clock \<Rightarrow> version_marker list \<times> string list \<times> hybrid_clock" where
  "clock_run [] c = ([], [], c)"
| "clock_run (e # es) c =
    (let (ms, ns, c1) = clock_step e c; (ms', ns', c2) = clock_run es c1
     in (ms @ ms', ns @ ns', c2))"

text \<open>The clock is at or above a point of logical time: the components \<open>observe\<close> compares.\<close>
definition clock_covers :: "hybrid_clock \<Rightarrow> u64 \<Rightarrow> u32 \<Rightarrow> bool" where
  "clock_covers c m k = (m < clk_last_millis c \<or> m = clk_last_millis c \<and> k \<le> clk_counter c)"

lemma clock_covers_self [simp]: "clock_covers c (clk_last_millis c) (clk_counter c)"
  by (simp add: clock_covers_def)

lemma clock_covers_trans:
  "clock_covers c m k \<Longrightarrow> clock_covers d (clk_last_millis c) (clk_counter c) \<Longrightarrow> clock_covers d m k"
  by (auto simp: clock_covers_def)

lemma observe_covers: "clock_covers (observe r c) (rev_millis r) (rev_counter r)"
  by (auto simp: clock_covers_def observe_def)

lemma observe_keeps:
  "clock_covers (observe r c) (clk_last_millis c) (clk_counter c)"
  "clk_actor (observe r c) = clk_actor c" "clk_sequence (observe r c) = clk_sequence c"
  by (auto simp: clock_covers_def observe_def)

lemma next_revision_keeps:
  assumes "next_revision now c = (r, c')"
  shows "clock_covers c' (clk_last_millis c) (clk_counter c)" "clk_actor c' = clk_actor c"
    "clk_sequence c' = clk_sequence c"
    "r = Revision (clk_last_millis c') (clk_counter c') (clk_actor c')"
  using assms sat_add_ge [of "clk_counter c" 1]
  by (auto simp: next_revision_def Let_def clock_covers_def split: if_splits)

lemma next_op_id_keeps:
  assumes "next_op_id ns c = (i, c')"
  shows "clk_last_millis c' = clk_last_millis c" "clk_counter c' = clk_counter c"
    "clk_actor c' = clk_actor c" "clk_sequence c' = sat_add (clk_sequence c) 1"
  using assms by (auto simp: next_op_id_def Let_def)

lemma next_node_id_keeps:
  assumes "next_node_id ns c = (i, c')"
  shows "clk_last_millis c' = clk_last_millis c" "clk_counter c' = clk_counter c"
    "clk_actor c' = clk_actor c" "clk_sequence c' = sat_add (clk_sequence c) 1"
  using assms by (auto simp: next_node_id_def Let_def)

lemmas clock_keeps = observe_keeps next_revision_keeps next_op_id_keeps next_node_id_keeps

lemma next_revision_above:
  assumes "clock_covers c m k" "next_revision now c = (r, c')" "rev_counter r \<noteq> - 1"
  shows "m < rev_millis r \<or> m = rev_millis r \<and> k < rev_counter r"
proof -
  have "sat_add (clk_counter c) 1 \<noteq> - 1 \<Longrightarrow> clk_counter c < sat_add (clk_counter c) 1"
    using sat_add_one_gt [of "clk_counter c"] sat_add_ge [of "clk_counter c" 1]
    by (metis word_order.extremum_uniqueI)
  with assms show ?thesis
    by (auto simp: next_revision_def Let_def clock_covers_def split: if_splits)
qed

lemma clock_step_keeps:
  assumes "clock_step e c = (ms, ns, c')"
  shows "clock_covers c' (clk_last_millis c) (clk_counter c) \<and> clk_actor c' = clk_actor c \<and>
    clk_sequence c \<le> clk_sequence c'"
proof (cases e)
  case (Stamp now)
  obtain r c1 where 1: "next_revision now c = (r, c1)" by fastforce
  obtain i c2 where 2: "next_op_id ''op'' c1 = (i, c2)" by fastforce
  from Stamp 1 2 assms have "c' = c2" by simp
  with next_revision_keeps [OF 1] next_op_id_keeps [OF 2] show ?thesis
    by (simp add: clock_covers_def sat_add_ge)
next
  case (FreshNode hint)
  obtain i c2 where 2: "next_node_id hint c = (i, c2)" by fastforce
  from FreshNode 2 assms have "c' = c2" by simp
  with next_node_id_keeps [OF 2] show ?thesis
    by (simp add: clock_covers_def sat_add_ge)
next
  case (Observed r)
  with assms show ?thesis by (auto simp: observe_keeps)
qed

lemma clock_run_keeps:
  "clock_run es c = (ms, ns, c') \<Longrightarrow>
    clock_covers c' (clk_last_millis c) (clk_counter c) \<and> clk_actor c' = clk_actor c \<and>
    clk_sequence c \<le> clk_sequence c'"
proof (induction es arbitrary: c ms ns)
  case (Cons e es)
  obtain ms1 ns1 c1 where 1: "clock_step e c = (ms1, ns1, c1)" by (metis prod_cases3)
  obtain ms2 ns2 where 2: "clock_run es c1 = (ms2, ns2, c')"
    using Cons.prems 1 by (auto split: prod.splits)
  from clock_step_keeps [OF 1] Cons.IH [OF 2] show ?case
    by (auto intro: clock_covers_trans)
qed simp

text \<open>Every marker a run issues lies strictly above the point of logical time the run starts at.\<close>
lemma clock_run_issued_above:
  assumes "clock_run es c = (ms, ns, c')" "clock_covers c m k" "x \<in> set ms"
    and "rev_counter (vm_revision x) \<noteq> - 1"
  shows "m < rev_millis (vm_revision x) \<or>
    m = rev_millis (vm_revision x) \<and> k < rev_counter (vm_revision x)"
  using assms
proof (induction es arbitrary: c ms ns)
  case (Cons e es)
  obtain ms1 ns1 c1 where 1: "clock_step e c = (ms1, ns1, c1)" by (metis prod_cases3)
  obtain ms2 ns2 where 2: "clock_run es c1 = (ms2, ns2, c')" and ms: "ms = ms1 @ ms2"
    using Cons.prems(1) 1 by (auto split: prod.splits)
  show ?case
  proof (cases "x \<in> set ms1")
    case True
    with 1 obtain now i r c3 where "e = Stamp now" "next_revision now c = (r, c3)" "vm_revision x = r"
      by (cases e) (auto simp: Let_def split: prod.splits)
    with next_revision_above [of c m k now r c3] Cons.prems show ?thesis by simp
  next
    case False
    with ms Cons.prems have "x \<in> set ms2" by simp
    moreover from clock_step_keeps [OF 1] Cons.prems(2) have "clock_covers c1 m k"
      by (auto intro: clock_covers_trans)
    ultimately show ?thesis using Cons.IH [OF 2] Cons.prems(4) by simp
  qed
qed simp

lemma clock_run_append:
  "clock_run (es @ fs) c =
    (let (ms, ns, c1) = clock_run es c; (ms', ns', c2) = clock_run fs c1 in (ms @ ms', ns @ ns', c2))"
  by (induction es arbitrary: c) (auto simp: Let_def split: prod.splits)

lemma clock_run_sorted:
  assumes "clock_run es c = (ms, ns, c')" "\<forall>x \<in> set ms. rev_counter (vm_revision x) \<noteq> - 1"
  shows "sorted_wrt (\<lambda>x y. vm_revision x < vm_revision y) ms"
  using assms
proof (induction es arbitrary: c ms ns)
  case (Cons e es)
  obtain ms1 ns1 c1 where 1: "clock_step e c = (ms1, ns1, c1)" by (metis prod_cases3)
  obtain ms2 ns2 where 2: "clock_run es c1 = (ms2, ns2, c')" and ms: "ms = ms1 @ ms2"
    using Cons.prems(1) 1 by (auto split: prod.splits)
  show ?case
  proof (cases e)
    case (Stamp now)
    obtain r c2 where r: "next_revision now c = (r, c2)" by fastforce
    obtain i c3 where i: "next_op_id ''op'' c2 = (i, c3)" by fastforce
    from Stamp r i 1 have *: "ms1 = [VersionMarker r i]" "c1 = c3" by auto
    have "clock_covers c1 (rev_millis r) (rev_counter r)"
      using * next_revision_keeps [OF r] next_op_id_keeps [OF i] by (simp add: clock_covers_def)
    then have "\<forall>y \<in> set ms2. r < vm_revision y"
      using clock_run_issued_above [OF 2] Cons.prems(2) ms by (fastforce simp: revision_order)
    with * ms Cons.IH [OF 2] Cons.prems(2) show ?thesis by simp
  qed (use 1 ms Cons.IH [OF 2] Cons.prems in \<open>auto simp: Let_def split: prod.splits\<close>)
qed simp

section \<open>Identifiers\<close>

lemma sanitize_component_clean: "CHR ''/'' \<notin> set (sanitize_component s)"
  by (auto simp: sanitize_component_def Let_def ascii_alphanumeric_def less_eq_char_def
      split: if_splits)

lemma hex_clean: "CHR ''/'' \<notin> set (hex n)" "CHR ''-'' \<notin> set (hex n)"
  using hex_chars by fastforce+

lemma op_id_parts:
  "split_on CHR ''/'' (sanitize_component a @ ''/'' @ sanitize_component b @ ''/'' @
      hex x @ ''-'' @ hex y @ ''-'' @ hex z) =
   [sanitize_component a, sanitize_component b, hex x @ ''-'' @ hex y @ ''-'' @ hex z]"
  by (simp add: split_on_sep split_on_no_sep sanitize_component_clean hex_clean)

lemma hex_triple_parts:
  "split_on CHR ''-'' (hex x @ ''-'' @ hex y @ ''-'' @ hex z) = [hex x, hex y, hex z]"
  by (simp add: split_on_sep split_on_no_sep hex_clean)

lemma node_id_parts:
  "split_on CHR ''/'' (sanitize_component a @ ''/'' @ sanitize_component b @ ''/'' @ hex z) =
   [sanitize_component a, sanitize_component b, hex z]"
  by (simp add: split_on_sep split_on_no_sep sanitize_component_clean hex_clean)

text \<open>An operation identifier determines who issued it, when, and the issuing sequence number.\<close>
lemma next_op_id_inj:
  assumes "next_op_id ns c = (i, c')" "next_op_id ms d = (i, d')"
  shows "sanitize_component (clk_actor c) = sanitize_component (clk_actor d)"
    "clk_last_millis c = clk_last_millis d" "clk_counter c = clk_counter d"
    "clk_sequence c' = clk_sequence d'"
proof -
  from assms have eq: "[sanitize_component (clk_actor c), sanitize_component ns,
      hex (unat (clk_last_millis c)) @ ''-'' @ hex (unat (clk_counter c)) @ ''-'' @ hex (unat (clk_sequence c'))] =
    [sanitize_component (clk_actor d), sanitize_component ms,
      hex (unat (clk_last_millis d)) @ ''-'' @ hex (unat (clk_counter d)) @ ''-'' @ hex (unat (clk_sequence d'))]"
    unfolding op_id_parts [symmetric] by (auto simp: next_op_id_def Let_def)
  then show "sanitize_component (clk_actor c) = sanitize_component (clk_actor d)" by simp
  from eq have "[hex (unat (clk_last_millis c)), hex (unat (clk_counter c)), hex (unat (clk_sequence c'))] =
    [hex (unat (clk_last_millis d)), hex (unat (clk_counter d)), hex (unat (clk_sequence d'))]"
    unfolding hex_triple_parts [symmetric] by simp
  then show "clk_last_millis c = clk_last_millis d" "clk_counter c = clk_counter d"
    "clk_sequence c' = clk_sequence d'"
    by (auto dest!: hex_inj unat_eqD)
qed

lemma next_node_id_inj:
  assumes "next_node_id ns c = (i, c')" "next_node_id ms d = (i, d')"
  shows "clk_sequence c' = clk_sequence d'"
proof -
  from assms have "[sanitize_component (clk_actor c), sanitize_component ns, hex (unat (clk_sequence c'))] =
    [sanitize_component (clk_actor d), sanitize_component ms, hex (unat (clk_sequence d'))]"
    unfolding node_id_parts [symmetric] by (auto simp: next_node_id_def Let_def)
  then show ?thesis by (auto dest!: hex_inj unat_eqD)
qed

text \<open>
  As long as the sequence number does not saturate, a run uses each value at most once: every
  identifier is issued with a sequence number above the one the run starts at.
\<close>

definition op_id_after :: "u64 \<Rightarrow> string \<Rightarrow> hybrid_clock \<Rightarrow> bool" where
  "op_id_after n i d \<longleftrightarrow> (\<exists>c. next_op_id ''op'' c = (i, d)) \<and> n < clk_sequence d"

definition node_id_after :: "u64 \<Rightarrow> string \<Rightarrow> hybrid_clock \<Rightarrow> bool" where
  "node_id_after n i d \<longleftrightarrow> (\<exists>h c. next_node_id h c = (i, d)) \<and> n < clk_sequence d"

lemma id_after_mono:
  "op_id_after n i d \<Longrightarrow> m \<le> n \<Longrightarrow> op_id_after m i d"
  "node_id_after n i d \<Longrightarrow> m \<le> n \<Longrightarrow> node_id_after m i d"
  by (auto simp: op_id_after_def node_id_after_def)

lemma id_after_fresh:
  "op_id_after n i d \<Longrightarrow> op_id_after (clk_sequence d) j e \<Longrightarrow> i \<noteq> j"
  "node_id_after n i d \<Longrightarrow> node_id_after (clk_sequence d) j e \<Longrightarrow> i \<noteq> j"
  unfolding op_id_after_def node_id_after_def
  by (metis next_op_id_inj(4) less_irrefl) (metis next_node_id_inj less_irrefl)

lemma clock_step_sequence:
  assumes "clock_step e c = (ms, ns, c')" "unat (clk_sequence c) + 1 < 2 ^ 64"
  shows "unat (clk_sequence c') \<le> unat (clk_sequence c) + 1 \<and> clk_sequence c \<le> clk_sequence c' \<and>
    (\<forall>x \<in> set ms. op_id_after (clk_sequence c) (vm_op_id x) c') \<and>
    (\<forall>n \<in> set ns. node_id_after (clk_sequence c) n c') \<and> length ms \<le> 1 \<and> length ns \<le> 1"
proof -
  have ne: "clk_sequence c \<noteq> - 1"
    using assms(2) by (auto simp: unsigned_minus_1_eq_mask mask_eq_exp_minus_1)
  note seq = sat_add_one_gt [OF ne] unat_sat_add [of "clk_sequence c" 1]
  show ?thesis
  proof (cases e)
    case (Stamp now)
    obtain r c1 where 1: "next_revision now c = (r, c1)" by fastforce
    obtain i c2 where 2: "next_op_id ''op'' c1 = (i, c2)" by fastforce
    have "clk_sequence c2 = sat_add (clk_sequence c) 1"
      using next_revision_keeps(3) [OF 1] next_op_id_keeps(4) [OF 2] by simp
    with Stamp 1 2 assms(1) seq show ?thesis by (auto simp: op_id_after_def)
  next
    case (FreshNode hint)
    obtain i c2 where 2: "next_node_id hint c = (i, c2)" by fastforce
    then have "node_id_after (clk_sequence c) i c2"
      using seq next_node_id_keeps(4) [OF 2] unfolding node_id_after_def by auto
    with FreshNode 2 assms(1) seq next_node_id_keeps(4) [OF 2] show ?thesis by auto
  qed (use assms(1) in \<open>auto simp: observe_keeps\<close>)
qed

lemma clock_run_sequence:
  assumes "clock_run es c = (ms, ns, c')" "unat (clk_sequence c) + length es < 2 ^ 64"
  shows "(\<forall>x \<in> set ms. \<exists>d. op_id_after (clk_sequence c) (vm_op_id x) d) \<and>
    (\<forall>n \<in> set ns. \<exists>d. node_id_after (clk_sequence c) n d) \<and>
    distinct (map vm_op_id ms) \<and> distinct ns"
  using assms
proof (induction es arbitrary: c ms ns)
  case (Cons e es)
  obtain ms1 ns1 c1 where 1: "clock_step e c = (ms1, ns1, c1)" by (metis prod_cases3)
  obtain ms2 ns2 where 2: "clock_run es c1 = (ms2, ns2, c')" and ms: "ms = ms1 @ ms2" "ns = ns1 @ ns2"
    using Cons.prems(1) 1 by (auto split: prod.splits)
  have "unat (clk_sequence c) + 1 < 2 ^ 64" using Cons.prems(2) by simp
  note st = clock_step_sequence [OF 1 this]
  then have "unat (clk_sequence c1) + length es < 2 ^ 64" using Cons.prems(2) by simp
  note IH = Cons.IH [OF 2 this]
  have "distinct (map vm_op_id ms1)" "distinct ns1"
    using st by (auto simp: le_Suc_eq length_Suc_conv)
  moreover have "vm_op_id x \<noteq> vm_op_id y" if "x \<in> set ms1" "y \<in> set ms2" for x y
    using st IH that id_after_fresh(1) by blast
  moreover have "m \<noteq> n" if "m \<in> set ns1" "n \<in> set ns2" for m n
    using st IH that id_after_fresh(2) by blast
  moreover have "\<forall>x \<in> set ms. \<exists>d. op_id_after (clk_sequence c) (vm_op_id x) d"
    using st IH ms id_after_mono(1) by (metis Un_iff set_append)
  moreover have "\<forall>n \<in> set ns. \<exists>d. node_id_after (clk_sequence c) n d"
    using st IH ms id_after_mono(2) by (metis Un_iff set_append)
  ultimately show ?case
    using IH ms by (auto simp: disjoint_iff)
qed simp

section \<open>Properties\<close>

lemma clock_run_covers_past:
  "clock_run es c = (ms, ns, c') \<Longrightarrow>
    (\<forall>x \<in> set ms. clock_covers c' (rev_millis (vm_revision x)) (rev_counter (vm_revision x))) \<and>
    (\<forall>r. Observed r \<in> set es \<longrightarrow> clock_covers c' (rev_millis r) (rev_counter r))"
proof (induction es arbitrary: c ms ns)
  case (Cons e es)
  obtain ms1 ns1 c1 where 1: "clock_step e c = (ms1, ns1, c1)" by (metis prod_cases3)
  obtain ms2 ns2 where 2: "clock_run es c1 = (ms2, ns2, c')" and ms: "ms = ms1 @ ms2"
    using Cons.prems 1 by (auto split: prod.splits)
  have up: "clock_covers c' m k" if "clock_covers c1 m k" for m k
    using clock_run_keeps [OF 2] that by (auto intro: clock_covers_trans)
  have "clock_covers c1 (rev_millis (vm_revision x)) (rev_counter (vm_revision x))" if "x \<in> set ms1" for x
    using 1 that
  proof (cases e)
    case (Stamp now)
    obtain r c2 where r: "next_revision now c = (r, c2)" by fastforce
    obtain i c3 where i: "next_op_id ''op'' c2 = (i, c3)" by fastforce
    from Stamp r i 1 that next_revision_keeps(4) [OF r] next_op_id_keeps(1,2) [OF i]
    show ?thesis by (auto simp: clock_covers_def)
  qed (auto split: prod.splits)
  moreover have "clock_covers c1 (rev_millis r) (rev_counter r)" if "e = Observed r" for r
    using 1 that by (auto simp: observe_covers)
  ultimately show ?case
    using Cons.IH [OF 2] up ms by auto
qed simp

text \<open>
  C11: A replica's clock dominates its history.  Split any run of the clock in two at any
  point: every revision stamped in the second part is strictly above every revision stamped in
  the first part and above every remote revision observed there, and the stamps of the second
  part are strictly increasing.  The only exception is the saturation of the 32-bit counter,
  so the statement is about stamps whose counter is not the maximal one.
\<close>
theorem stamps_dominate_history:
  assumes "clock_run es c = (ms, ns, c1)" "clock_run fs c1 = (ms', ns', c2)"
    and "\<forall>x \<in> set ms'. rev_counter (vm_revision x) \<noteq> - 1"
  shows "sorted_wrt (\<lambda>x y. vm_revision x < vm_revision y) ms' \<and>
    (\<forall>x \<in> set ms'. (\<forall>y \<in> set ms. vm_revision y < vm_revision x) \<and>
                    (\<forall>r. Observed r \<in> set es \<longrightarrow> r < vm_revision x))"
  using clock_run_sorted [OF assms(2,3)] clock_run_covers_past [OF assms(1)]
    clock_run_issued_above [OF assms(2)] assms(3)
  unfolding less_revision_def revision_less_def by blast

theorem stamps_dominate_history_witness:
  "list_all (\<lambda>x. Revision 20 7 ''peer'' < vm_revision x)
      (fst (clock_run [Stamp 10, Stamp 4] (observe (Revision 20 7 ''peer'') (with_actor 5 ''me'')))) \<and>
    map vm_revision (fst (clock_run [Stamp 10, Stamp 4] (observe (Revision 20 7 ''peer'') (with_actor 5 ''me'')))) =
      [Revision 20 8 ''me'', Revision 20 9 ''me'']"
  using stamps_dominate_history
    [of "[Observed (Revision 20 7 ''peer'')]" "with_actor 5 ''me''" "[]" "[]" _ "[Stamp 10, Stamp 4]"]
  by (simp add: with_actor_def observe_def next_revision_def next_op_id_def Let_def sat_add_def
      revision_order)



end
