(* ===== verification/Json.thy ===== *)
theory Json
  imports Prelude
begin

text \<open>
  JSON values as \<open>serde_json::Value\<close> holds them (the default build: an object is a
  \<open>BTreeMap\<close>, so a key-sorted association list without duplicates), and the IEEE-754 double
  as its 64 bits, with the comparison, the conversion from integers and the addition the
  sources use.  Doubles are read exactly as integer multiples of \<open>2 ^ -1074\<close>; results round
  to nearest, ties to even.
\<close>

section \<open>Doubles\<close>

datatype f64 = F64 (f64_bits: u64)

definition f64_negative :: "f64 \<Rightarrow> bool" where
  "f64_negative x = (2 ^ 63 \<le> unat (f64_bits x))"

definition f64_magnitude :: "f64 \<Rightarrow> nat" where
  "f64_magnitude x = unat (f64_bits x) mod 2 ^ 63"

definition f64_nan :: "f64 \<Rightarrow> bool" where
  "f64_nan x = (2047 * 2 ^ 52 < f64_magnitude x)"

definition f64_infinite :: "f64 \<Rightarrow> bool" where
  "f64_infinite x = (f64_magnitude x = 2047 * 2 ^ 52)"

definition f64_finite :: "f64 \<Rightarrow> bool" where
  "f64_finite x = (f64_magnitude x < 2047 * 2 ^ 52)"

text \<open>The magnitude as a multiple of \<open>2 ^ -1074\<close>; an infinity reads as a value above all finite ones.\<close>
definition magnitude_scaled :: "nat \<Rightarrow> nat" where
  "magnitude_scaled m =
    (if m div 2 ^ 52 = 0 then m else (m mod 2 ^ 52 + 2 ^ 52) * 2 ^ (m div 2 ^ 52 - 1))"

definition f64_scaled :: "f64 \<Rightarrow> int" where
  "f64_scaled x =
    (if f64_negative x then - int (magnitude_scaled (f64_magnitude x))
     else int (magnitude_scaled (f64_magnitude x)))"

datatype ordering = Less | Equal | Greater

definition cmp :: "'a::linorder \<Rightarrow> 'a \<Rightarrow> ordering" where
  "cmp a b = (if a < b then Less else if a = b then Equal else Greater)"

fun ordering_then :: "ordering \<Rightarrow> ordering \<Rightarrow> ordering" where
  "ordering_then Equal o2 = o2"
| "ordering_then o1 o2 = o1"

fun ordering_reverse :: "ordering \<Rightarrow> ordering" where
  "ordering_reverse Less = Greater"
| "ordering_reverse Equal = Equal"
| "ordering_reverse Greater = Less"

text \<open>\<open>f64::partial_cmp\<close> and \<open>f64::eq\<close>.\<close>
definition f64_partial_cmp :: "f64 \<Rightarrow> f64 \<Rightarrow> ordering option" where
  "f64_partial_cmp a b =
    (if f64_nan a \<or> f64_nan b then None else Some (cmp (f64_scaled a) (f64_scaled b)))"

definition f64_eq :: "f64 \<Rightarrow> f64 \<Rightarrow> bool" where
  "f64_eq a b = (f64_partial_cmp a b = Some Equal)"

fun bitlen :: "nat \<Rightarrow> nat" where
  "bitlen n = (if n = 0 then 0 else Suc (bitlen (n div 2)))"

declare bitlen.simps [simp del]

text \<open>The double nearest to \<open>n * 2 ^ s * 2 ^ -1074\<close>, as a magnitude (ties to even).\<close>
definition round_magnitude :: "nat \<Rightarrow> nat \<Rightarrow> nat" where
  "round_magnitude n s =
    (let l = bitlen n in
     if l + s \<le> 52 then n * 2 ^ s
     else let e = l + s - 52;
              r = l - 53;
              q = n div 2 ^ r;
              rest = n mod 2 ^ r;
              q' = (if l \<le> 53 then n * 2 ^ (53 - l)
                    else if 2 ^ r < 2 * rest \<or> 2 ^ r = 2 * rest \<and> odd q then q + 1 else q)
          in min (2047 * 2 ^ 52) (e * 2 ^ 52 + q' - 2 ^ 52))"

definition f64_make :: "bool \<Rightarrow> nat \<Rightarrow> f64" where
  "f64_make neg m = F64 (of_nat ((if neg then 2 ^ 63 else 0) + m))"

text \<open>The integer conversions \<open>u64 as f64\<close> and \<open>i64 as f64\<close>.\<close>
definition f64_of_u64 :: "u64 \<Rightarrow> f64" where
  "f64_of_u64 n = f64_make False (round_magnitude (unat n) 1074)"

definition f64_of_i64 :: "i64 \<Rightarrow> f64" where
  "f64_of_i64 n = f64_make (sint n < 0) (round_magnitude (nat \<bar>sint n\<bar>) 1074)"

text \<open>\<open>f64 + f64\<close>; the quiet NaN stands for every NaN result.\<close>
definition f64_quiet_nan :: f64 where
  "f64_quiet_nan = f64_make False (2047 * 2 ^ 52 + 2 ^ 51)"

definition f64_add :: "f64 \<Rightarrow> f64 \<Rightarrow> f64" where
  "f64_add a b =
    (if f64_nan a \<or> f64_nan b then f64_quiet_nan
     else if f64_infinite a \<and> f64_infinite b then (if f64_negative a = f64_negative b then a else f64_quiet_nan)
     else if f64_infinite a then a
     else if f64_infinite b then b
     else let s = f64_scaled a + f64_scaled b
          in if s = 0 then f64_make (f64_negative a \<and> f64_negative b) 0
             else f64_make (s < 0) (round_magnitude (nat \<bar>s\<bar>) 0))"

section \<open>Values\<close>

datatype number = PosInt u64 | NegInt i64 | Float f64

datatype json =
    JNull
  | JBool bool
  | JNumber number
  | JString string
  | JArray "json list"
  | JObject "(string \<times> json) list"

text \<open>\<open>Number::from_f64\<close> and \<open>Number::as_f64\<close>, \<open>Value::as_str\<close>, \<open>Value::is_object\<close>, \<open>Value::is_null\<close>.\<close>
definition number_from_f64 :: "f64 \<Rightarrow> number option" where
  "number_from_f64 x = (if f64_finite x then Some (Float x) else None)"

fun number_as_f64 :: "number \<Rightarrow> f64 option" where
  "number_as_f64 (PosInt n) = Some (f64_of_u64 n)"
| "number_as_f64 (NegInt n) = Some (f64_of_i64 n)"
| "number_as_f64 (Float x) = Some x"

fun as_str :: "json \<Rightarrow> string option" where
  "as_str (JString s) = Some s"
| "as_str _ = None"

fun as_f64 :: "json \<Rightarrow> f64 option" where
  "as_f64 (JNumber n) = number_as_f64 n"
| "as_f64 _ = None"

fun is_object :: "json \<Rightarrow> bool" where
  "is_object (JObject _) = True"
| "is_object _ = False"

text \<open>The derived equality of \<open>serde_json\<close>: numbers of different variants differ, doubles compare by value.\<close>
fun number_eq :: "number \<Rightarrow> number \<Rightarrow> bool" where
  "number_eq (PosInt a) (PosInt b) = (a = b)"
| "number_eq (NegInt a) (NegInt b) = (a = b)"
| "number_eq (Float a) (Float b) = f64_eq a b"
| "number_eq _ _ = False"

primrec json_eq :: "json \<Rightarrow> json \<Rightarrow> bool" where
  "json_eq JNull = (\<lambda>j. case j of JNull \<Rightarrow> True | _ \<Rightarrow> False)"
| "json_eq (JBool a) = (\<lambda>j. case j of JBool b \<Rightarrow> a = b | _ \<Rightarrow> False)"
| "json_eq (JNumber a) = (\<lambda>j. case j of JNumber b \<Rightarrow> number_eq a b | _ \<Rightarrow> False)"
| "json_eq (JString a) = (\<lambda>j. case j of JString b \<Rightarrow> a = b | _ \<Rightarrow> False)"
| "json_eq (JArray xs) =
    (\<lambda>j. case j of JArray ys \<Rightarrow> list_all2 (\<lambda>f y. f y) (map json_eq xs) ys | _ \<Rightarrow> False)"
| "json_eq (JObject m) =
    (\<lambda>j. case j of JObject n \<Rightarrow>
        list_all2 (\<lambda>(k, f) (l, y). k = l \<and> f y) (map (map_prod id json_eq) m) n | _ \<Rightarrow> False)"

text \<open>\<open>Map::get\<close> and \<open>Map::insert\<close> on the sorted association list.\<close>
definition obj_get :: "(string \<times> json) list \<Rightarrow> string \<Rightarrow> json option" where
  "obj_get m k = map_of m k"

fun obj_insert :: "string \<Rightarrow> json \<Rightarrow> (string \<times> json) list \<Rightarrow> (string \<times> json) list" where
  "obj_insert k v [] = [(k, v)]"
| "obj_insert k v ((l, w) # m) =
    (if k < l then (k, v) # (l, w) # m
     else if k = l then (k, v) # m
     else (l, w) # obj_insert k v m)"

(* src: src/src/db.rs:8840-8852 compare_json_values *)
fun compare_json_values :: "json \<Rightarrow> json \<Rightarrow> ordering option" where
  "compare_json_values (JString l) (JString r) = Some (cmp l r)"
| "compare_json_values (JNumber l) (JNumber r) =
    (case (number_as_f64 l, number_as_f64 r) of
       (Some a, Some b) \<Rightarrow> f64_partial_cmp a b
     | _ \<Rightarrow> None)"
| "compare_json_values (JBool l) (JBool r) = Some (cmp l r)"
| "compare_json_values JNull JNull = Some Equal"
| "compare_json_values _ _ = None"

text \<open>Well-formed numbers and values: what \<open>serde_json\<close> can hold.\<close>
fun wf_number :: "number \<Rightarrow> bool" where
  "wf_number (PosInt _) = True"
| "wf_number (NegInt n) = (sint n < 0)"
| "wf_number (Float x) = f64_finite x"

fun wf_json :: "json \<Rightarrow> bool" where
  "wf_json (JNumber n) = wf_number n"
| "wf_json (JArray xs) = (\<forall>x \<in> set xs. wf_json x)"
| "wf_json (JObject m) = (sorted_wrt (<) (map fst m) \<and> (\<forall>(k, x) \<in> set m. wf_json x))"
| "wf_json _ = True"

section \<open>Objects\<close>

lemma obj_get_insert: "obj_get (obj_insert k v m) l = (if l = k then Some v else obj_get m l)"
  by (induction k v m rule: obj_insert.induct) (auto simp: obj_get_def)

lemma keys_obj_insert: "set (map fst (obj_insert k v m)) = insert k (set (map fst m))"
  by (induction k v m rule: obj_insert.induct) auto

lemma sorted_obj_insert:
  "sorted_wrt (<) (map fst m) \<Longrightarrow> sorted_wrt (<) (map fst (obj_insert k v m))"
proof (induction k v m rule: obj_insert.induct)
  case (2 k v l w m)
  then show ?case
    using keys_obj_insert [of k v m] by (auto simp: not_less le_less) 
qed simp

lemma set_obj_insert: "set (obj_insert k v m) \<subseteq> insert (k, v) (set m)"
  by (induction k v m rule: obj_insert.induct) auto

lemma wf_json_obj_insert: "wf_json (JObject m) \<Longrightarrow> wf_json v \<Longrightarrow> wf_json (JObject (obj_insert k v m))"
  using set_obj_insert [of k v m] by (auto simp: sorted_obj_insert)

text \<open>Two sorted objects with the same lookups are the same object.\<close>
lemma sorted_obj_eqI:
  assumes "sorted_wrt (<) (map fst m)" "sorted_wrt (<) (map fst n)" "\<And>k. obj_get m k = obj_get n k"
  shows "m = n"
proof -
  have m: "distinct (map fst m)" "sorted (map fst m)" and n: "distinct (map fst n)" "sorted (map fst n)"
    using assms(1,2) by (auto simp: strict_sorted_iff)
  have "map_of m = map_of n" using assms(3) by (auto simp: obj_get_def fun_eq_iff)
  then have "set m = set n" using m(1) n(1) by (metis map_of_inject_set)
  moreover have "inj_on fst (set m \<union> set n)"
    using \<open>set m = set n\<close> m(1) by (simp add: distinct_map)
  ultimately show ?thesis
    using m n by (auto intro: map_sorted_distinct_set_unique)
qed

section \<open>Order of doubles\<close>

lemma magnitude_scaled_generic:
  obtains P where "0 < P"
    "\<And>m. magnitude_scaled m = (if m div P = 0 then m else (m mod P + P) * 2 ^ (m div P - 1))"
proof
  show "0 < (2::nat) ^ 52" by simp
qed (simp only: magnitude_scaled_def)

lemma magnitude_scaled_less: "m < n \<Longrightarrow> magnitude_scaled m < magnitude_scaled n"
proof -
  assume less: "m < n"
  obtain P where P: "0 < P"
    and eq: "\<And>m. magnitude_scaled m = (if m div P = 0 then m else (m mod P + P) * 2 ^ (m div P - 1))"
    using magnitude_scaled_generic by blast
  show ?thesis
  proof (cases "m div P = n div P")
    case True
    then have "m mod P < n mod P"
      using less by (metis div_mult_mod_eq nat_add_left_cancel_less)
    with True less show ?thesis by (simp add: eq)
  next
    case False
    then have lt: "m div P < n div P" using less by (simp add: div_le_mono le_neq_implies_less)
    have "magnitude_scaled m < P * 2 ^ (m div P)"
    proof (cases "m div P")
      case 0
      then show ?thesis using P by (simp add: eq div_eq_0_iff)
    next
      case (Suc e)
      have "(m mod P + P) * 2 ^ e < (2 * P) * 2 ^ e"
        using P by (intro mult_strict_right_mono) auto
      with Suc show ?thesis by (simp add: eq algebra_simps)
    qed
    also have "P * 2 ^ (m div P) \<le> P * 2 ^ (n div P - 1)"
      using lt by (intro mult_le_mono2 power_increasing) auto
    also have "\<dots> \<le> magnitude_scaled n" using lt by (simp add: eq)
    finally show ?thesis .
  qed
qed

lemma magnitude_scaled_strict_mono: "magnitude_scaled m < magnitude_scaled n \<longleftrightarrow> m < n"
  by (metis linorder_neqE_nat magnitude_scaled_less order_less_asym)

lemma magnitude_scaled_inj: "magnitude_scaled m = magnitude_scaled n \<longleftrightarrow> m = n"
  by (metis less_irrefl linorder_neqE_nat magnitude_scaled_less)

lemma magnitude_scaled_0 [simp]: "magnitude_scaled 0 = 0"
  by (simp add: magnitude_scaled_def)

lemma f64_bits_split:
  "unat (f64_bits x) = (if f64_negative x then 2 ^ 63 else 0) + f64_magnitude x"
proof -
  define K :: nat where "K = 2 ^ 63"
  have "unat (f64_bits x) < 2 * K" using unsigned_less [of "f64_bits x"] by (simp add: K_def)
  then have "unat (f64_bits x) = (if K \<le> unat (f64_bits x) then K else 0) + unat (f64_bits x) mod K"
    by (simp add: le_mod_geq)
  then show ?thesis unfolding f64_negative_def f64_magnitude_def K_def .
qed

lemma f64_eqI: "f64_negative a = f64_negative b \<Longrightarrow> f64_magnitude a = f64_magnitude b \<Longrightarrow> a = b"
  by (metis f64.expand f64_bits_split unat_eqD)

lemma f64_scaled_eq_iff:
  "f64_scaled a = f64_scaled b \<longleftrightarrow> a = b \<or> f64_magnitude a = 0 \<and> f64_magnitude b = 0"
proof (cases "f64_negative a = f64_negative b")
  case True
  then have "f64_scaled a = f64_scaled b \<longleftrightarrow> f64_magnitude a = f64_magnitude b"
    by (simp add: f64_scaled_def magnitude_scaled_inj)
  with f64_eqI [OF True] show ?thesis by auto
next
  case False
  have "magnitude_scaled m = 0 \<longleftrightarrow> m = 0" for m
    by (metis magnitude_scaled_0 magnitude_scaled_inj)
  moreover from False have "f64_scaled a = f64_scaled b \<longleftrightarrow>
      magnitude_scaled (f64_magnitude a) = 0 \<and> magnitude_scaled (f64_magnitude b) = 0"
    by (auto simp: f64_scaled_def)
  ultimately show ?thesis using False by auto
qed

lemma cmp_simps [simp]:
  "cmp a b = Less \<longleftrightarrow> a < b" "cmp a b = Equal \<longleftrightarrow> a = b" "cmp a b = Greater \<longleftrightarrow> b < a"
  by (auto simp: cmp_def)

lemma cmp_swap: "cmp b a = ordering_reverse (cmp a b)"
  by (auto simp: cmp_def)

lemma f64_eq_iff:
  "f64_eq a b \<longleftrightarrow> \<not> f64_nan a \<and> \<not> f64_nan b \<and> (a = b \<or> f64_magnitude a = 0 \<and> f64_magnitude b = 0)"
  by (auto simp: f64_eq_def f64_partial_cmp_def f64_scaled_eq_iff)

section \<open>Equality of values\<close>

lemma f64_finite_not_nan: "f64_finite x \<Longrightarrow> \<not> f64_nan x"
  by (simp add: f64_finite_def f64_nan_def)

lemma number_eq_refl: "wf_number n \<Longrightarrow> number_eq n n"
  by (cases n) (auto simp: f64_eq_iff f64_finite_not_nan)

lemma number_eq_sym: "number_eq a b \<Longrightarrow> number_eq b a"
  by (cases a; cases b) (auto simp: f64_eq_iff)

lemma number_eq_trans: "number_eq a b \<Longrightarrow> number_eq b c \<Longrightarrow> number_eq a c"
  by (cases a; cases b; cases c) (auto simp: f64_eq_iff)

lemma json_eq_array: "json_eq (JArray xs) (JArray ys) = list_all2 json_eq xs ys"
  by (simp add: list_all2_map1)

lemma json_eq_object:
  "json_eq (JObject m) (JObject n) = list_all2 (\<lambda>(k, x) (l, y). k = l \<and> json_eq x y) m n"
  by (simp add: list_all2_map1 split_def map_prod_def)

declare json_eq.simps(5,6) [simp del]

lemma json_eq_refl: "wf_json j \<Longrightarrow> json_eq j j"
proof (induction j)
  case (JObject m)
  then have "\<forall>p \<in> set m. json_eq (snd p) (snd p)" by fastforce
  then show ?case by (auto simp: json_eq_object intro!: list.rel_refl_strong)
qed (auto simp: number_eq_refl json_eq_array intro!: list.rel_refl_strong)

lemma json_eq_sym: "json_eq a b \<Longrightarrow> json_eq b a"
proof (induction a arbitrary: b)
  case (JArray xs)
  from JArray.prems obtain ys where b: "b = JArray ys" and r: "list_all2 json_eq xs ys"
    by (cases b) (auto simp: list_all2_map1 json_eq.simps)
  from r have "list_all2 (\<lambda>y x. json_eq y x) ys xs"
    using JArray.IH by (auto simp: list_all2_conv_all_nth)
  with b show ?case by (simp add: json_eq_array)
next
  case (JObject m)
  from JObject.prems obtain n where b: "b = JObject n"
    and r: "list_all2 (\<lambda>(k, x) (l, y). k = l \<and> json_eq x y) m n"
    by (cases b) (auto simp: list_all2_map1 split_def map_prod_def json_eq.simps)
  have "json_eq y (snd p)" if "p \<in> set m" "json_eq (snd p) y" for p y
    using JObject.IH [OF that(1) _ that(2)] by (cases p) auto
  with r have "list_all2 (\<lambda>(k, x) (l, y). k = l \<and> json_eq x y) n m"
    by (auto simp: list_all2_conv_all_nth split_def)
  with b show ?case by (simp add: json_eq_object)
qed (auto simp: number_eq_sym split: json.splits)

end
