(* ===== verification/Values.thy ===== *)
theory Values
  imports Clock Json
begin

text \<open>
  The data of the database: errors, node and set states, operations, records, queries, scope
  policies, transaction steps, traversals, limits and snapshots, constructor for constructor
  as the source declares them.  \<open>externs\<close> collects the functions of third-party crates the
  program calls on these values.
\<close>

section \<open>Errors\<close>

(* src: src/src/error.rs:3-49 PrimadbError *)
datatype primadb_error =
    ExpectedObject string
  | ExpectedFieldPath string
  | ArrayOfObjectsUnsupported string
  | InvalidSetMember string
  | InvalidMemberReference string
  | TraversalIntoScalar string string
  | TraversalIntoSet string string
  | BrowserWindowUnavailable
  | BrowserStorageUnavailable
  | InvalidBinaryMarker string
  | InvalidBlobMarker string
  | BlobStoreUnavailable
  | BlobNotFound string
  | TooManyRemoteWatches usize
  | TransactionConflict string
  | StrictScopeUnavailable string
  | StrictScopeConflict string
  | Serde string
  | Io string
  | Crypto string
  | Message string

(* src: src/src/error.rs:51-51 Result *)
type_synonym 'a primadb_result = "primadb_error + 'a"

section \<open>Values of the graph\<close>

(* src: src/src/binary.rs:5-19 BinaryBytes (struct) *)
datatype binary_bytes = BinaryBytes (as_slice: "u8 list")

(* src: src/src/blob.rs:16-23 BlobRef *)
record blob_ref =
  blob_id :: string
  blob_bytes :: usize
  blob_media_type :: "string option"

(* src: src/src/value.rs:8-8 NodeId *)
type_synonym node_id = string

(* src: src/src/value.rs:10-15 SetState *)
record set_state =
  baseline :: version_marker
  members :: "(node_id, version_marker) fmap"
  removed :: "(node_id, version_marker) fmap"

(* src: src/src/value.rs:17-25 FieldValue *)
datatype field_value =
    FScalar json
  | FBytes binary_bytes
  | FBlob blob_ref
  | FLink node_id
  | FSet set_state

(* src: src/src/value.rs:27-31 FieldState *)
record field_state =
  fld_value :: field_value
  fld_version :: version_marker

(* src: src/src/value.rs:33-38 NodeState *)
record node_state =
  nst_id :: node_id
  nst_fields :: "(string, field_state) fmap"
  nst_tombstones :: "(string, version_marker) fmap"

(* src: src/src/value.rs:41-47 NodeState::new *)
definition node_state_new :: "node_id \<Rightarrow> node_state" where
  "node_state_new i = \<lparr> nst_id = i, nst_fields = fmempty, nst_tombstones = fmempty \<rparr>"

section \<open>Operations\<close>

(* src: src/src/operation.rs:8-16 OperationValue *)
datatype operation_value =
    OScalar json
  | OBytes binary_bytes
  | OBlob blob_ref
  | OLink node_id
  | OSet "node_id list"

(* src: src/src/operation.rs:26-48 OperationAction *)
datatype operation_action =
    SetField node_id string operation_value
  | AddSetMember node_id string node_id
  | RemoveSetMember node_id string node_id
  | DeleteField node_id string

(* src: src/src/operation.rs:18-24 Operation *)
record operation =
  op_id :: string
  author :: string
  op_revision :: revision
  action :: operation_action

section \<open>Records\<close>

(* src: src/src/record.rs:6-12 RecordValue *)
datatype record_value = RJson json | RBytes binary_bytes | RBlob blob_ref

(* src: src/src/record.rs:14-19 RecordEntry *)
record record_entry =
  re_key :: string
  re_value :: record_value

(* src: src/src/record.rs:21-40 RecordScan *)
record record_scan =
  rs_prefix :: "string option"
  rs_start_at :: "string option"
  rs_start_after :: "string option"
  rs_end_at :: "string option"
  rs_end_before :: "string option"
  rs_reverse :: bool
  rs_limit :: "usize option"
  rs_cursor :: "string option"

(* src: src/src/record.rs:43-79 RecordScan::matches_key *)
definition matches_key :: "record_scan \<Rightarrow> string \<Rightarrow> bool" where
  "matches_key scan key =
    ((case rs_prefix scan of None \<Rightarrow> True | Some p \<Rightarrow> starts_with key p) \<and>
     (case rs_cursor scan of None \<Rightarrow> True
      | Some c \<Rightarrow> (if rs_reverse scan then \<not> key \<ge> c else \<not> key \<le> c)) \<and>
     (case rs_start_at scan of None \<Rightarrow> True | Some s \<Rightarrow> \<not> key < s) \<and>
     (case rs_start_after scan of None \<Rightarrow> True | Some s \<Rightarrow> \<not> key \<le> s) \<and>
     (case rs_end_at scan of None \<Rightarrow> True | Some e \<Rightarrow> \<not> key > e) \<and>
     (case rs_end_before scan of None \<Rightarrow> True | Some e \<Rightarrow> \<not> key \<ge> e))"

(* src: src/src/record.rs:82-88 RecordScanResult *)
record record_scan_result =
  rsr_entries :: "record_entry list"
  rsr_next_cursor :: "string option"

(* src: src/src/record.rs:90-96 RecordMutation *)
datatype record_mutation = RPut string record_value | RDelete string | RDeleteRange record_scan

(* src: src/src/record.rs:98-104 RecordPrecondition *)
datatype record_precondition = RExists string | RAbsent string | RValueIs string record_value

(* src: src/src/record.rs:106-113 RecordBatch *)
record record_batch =
  rb_preconditions :: "record_precondition list"
  rb_mutations :: "record_mutation list"

(* src: src/src/record.rs:115-123 RecordBatchReport *)
record record_batch_report =
  rbr_preconditions :: usize
  rbr_puts :: usize
  rbr_deletes :: usize
  rbr_range_deletes :: usize
  rbr_operation_count :: usize

section \<open>Queries\<close>

(* src: src/src/query.rs:4-10 QueryDirection *)
datatype query_direction = Asc | Desc

(* src: src/src/query.rs:12-17 QueryOrder *)
record query_order =
  qo_path :: string
  qo_direction :: query_direction

(* src: src/src/query.rs:19-31 QueryFilter *)
datatype query_filter =
    QEq string json
  | QNe string json
  | QGt string json
  | QGte string json
  | QLt string json
  | QLte string json
  | QPrefix string string
  | QContains string string
  | QExists string

(* src: src/src/query.rs:33-43 QuerySpec *)
record query_spec =
  qs_filters :: "query_filter list"
  qs_order :: "query_order option"
  qs_limit :: "usize option"
  qs_offset :: usize

(* src: src/src/query.rs:45-50 LexEntry *)
record lex_entry =
  le_path :: string
  le_key :: string
  le_value :: json

(* src: src/src/query.rs:52-72 LexSpec *)
record lex_spec =
  lx_prefix :: "string option"
  lx_start_at :: "string option"
  lx_start_after :: "string option"
  lx_end_at :: "string option"
  lx_end_before :: "string option"
  lx_reverse :: bool
  lx_limit :: "usize option"
  lx_depth :: usize
  lx_follow_links :: bool

(* src: src/src/query.rs:75-87 LexSpec::default *)
definition lex_spec_default :: lex_spec where
  "lex_spec_default =
    \<lparr> lx_prefix = None, lx_start_at = None, lx_start_after = None, lx_end_at = None,
      lx_end_before = None, lx_reverse = False, lx_limit = None, lx_depth = 1,
      lx_follow_links = False \<rparr>"

section \<open>Scope policies and transactions\<close>

(* src: src/src/sync.rs:36-41 RemotePath *)
record remote_path =
  rp_anchor :: string
  rp_segments :: "string list"

(* src: src/src/sync.rs:51-57 RemotePath::path *)
definition remote_path_string :: "remote_path \<Rightarrow> string" where
  "remote_path_string p =
    (if rp_segments p = [] then rp_anchor p else rp_anchor p @ ''/'' @ join ''/'' (rp_segments p))"

(* src: src/src/consistency.rs:6-13 ScopeConsistency *)
datatype scope_consistency = Eventual | LocalTransactional | Coordinated

(* src: src/src/consistency.rs:15-30 ScopeAuthority *)
datatype scope_authority = APeer string | AFullNode string | AQuorum "string list" usize

(* src: src/src/consistency.rs:32-37 ScopeIsolation *)
datatype scope_isolation = Serializable

(* src: src/src/consistency.rs:39-46 ScopeReadMode *)
datatype scope_read_mode = Cached | ReadAuthority | ReadQuorum

(* src: src/src/consistency.rs:48-54 ScopeOfflineWrites *)
datatype scope_offline_writes = Reject | QueueProvisional

(* src: src/src/consistency.rs:56-69 ScopePolicy *)
record scope_policy =
  sp_consistency :: scope_consistency
  sp_authority :: "scope_authority option"
  sp_isolation :: scope_isolation
  sp_read_mode :: scope_read_mode
  sp_offline_writes :: scope_offline_writes

(* src: src/src/consistency.rs:72-80 ScopePolicy::default *)
definition scope_policy_default :: scope_policy where
  "scope_policy_default =
    \<lparr> sp_consistency = Eventual, sp_authority = None, sp_isolation = Serializable,
      sp_read_mode = Cached, sp_offline_writes = Reject \<rparr>"

(* src: src/src/consistency.rs:83-88 TransactionOptions *)
record transaction_options =
  to_offline :: "scope_offline_writes option"

(* src: src/src/consistency.rs:90-126 TransactionStep *)
datatype transaction_step =
    TPut remote_path json
  | TUnset remote_path
  | TSet remote_path json
  | TRemove remote_path json
  | TAssertExists remote_path
  | TAssertAbsent remote_path
  | TAssertValue remote_path json
  | TAssertRevision remote_path "version_marker option"
  | TIncrement remote_path f64

(* src: src/src/consistency.rs:128-133 TransactionStatus *)
datatype transaction_status = Committed | Provisional

(* src: src/src/consistency.rs:135-144 TransactionReport *)
record transaction_report =
  tr_status :: transaction_status
  tr_operation_count :: usize
  tr_member_ids :: "string list"
  tr_proposal_id :: "string option"

(* src: src/src/consistency.rs:146-155 ProvisionalTransaction *)
record provisional_transaction =
  pt_id :: string
  pt_scope :: string
  pt_created_at_millis :: u64
  pt_steps :: "transaction_step list"
  pt_options :: transaction_options

section \<open>Traversals\<close>

(* src: src/src/traversal.rs:6-13 TraversalDirection *)
datatype traversal_direction = Outbound | Inbound | BothDirections

(* src: src/src/traversal.rs:15-21 TraversalStrategy *)
datatype traversal_strategy = Bfs | Dfs

(* src: src/src/traversal.rs:23-28 TraversalEdgeKind *)
datatype traversal_edge_kind = LinkEdge | SetMemberEdge

(* src: src/src/traversal.rs:30-37 TraversalEdge *)
datatype traversal_edge =
  TraversalEdge (te_source: node_id) (te_field: string) (te_target: node_id) (te_kind: traversal_edge_kind)

(* src: src/src/traversal.rs:39-66 TraversalSpec *)
record traversal_spec =
  ts_direction :: traversal_direction
  ts_strategy :: traversal_strategy
  ts_max_depth :: usize
  ts_limit :: "usize option"
  ts_edge_fields :: "string list option"
  ts_follow_links :: bool
  ts_follow_sets :: bool
  ts_include_start :: bool
  ts_include_values :: bool
  ts_filters :: "query_filter list"
  ts_fetch_missing :: bool
  ts_max_fetches :: usize

(* src: src/src/traversal.rs:69-84 TraversalSpec::default *)
definition traversal_spec_default :: traversal_spec where
  "traversal_spec_default =
    \<lparr> ts_direction = Outbound, ts_strategy = Bfs, ts_max_depth = 1, ts_limit = Some 1024,
      ts_edge_fields = None, ts_follow_links = True, ts_follow_sets = True,
      ts_include_start = False, ts_include_values = False, ts_filters = [],
      ts_fetch_missing = True, ts_max_fetches = 64 \<rparr>"

(* src: src/src/traversal.rs:87-97 TraversalEntry *)
record traversal_entry =
  ten_node_id :: node_id
  ten_depth :: usize
  ten_path :: "node_id list"
  ten_via :: "traversal_edge option"
  ten_value :: "json option"

(* src: src/src/traversal.rs:99-110 TraversalResult *)
record traversal_result =
  tres_entries :: "traversal_entry list"
  tres_complete :: bool
  tres_timed_out :: bool
  tres_depth_limit_reached :: bool
  tres_result_limit_reached :: bool
  tres_fetched :: usize
  tres_missing :: "node_id list"
  tres_denied :: "node_id list"

section \<open>Limits and snapshots\<close>

(* src: src/src/hardening.rs:3-15 PrimadbLimits *)
record primadb_limits =
  max_pending_ops :: usize
  max_ops_per_message :: usize
  max_route_payload_bytes :: usize
  max_seen_routes :: usize
  max_batch_items_per_route :: usize
  max_query_entries_per_chunk :: usize
  max_snapshot_nodes_per_chunk :: usize
  max_snapshot_ops_per_chunk :: usize
  max_peer_recommendations :: usize
  max_active_remote_watches :: usize

(* src: src/src/hardening.rs:30-43 PrimadbLimits::default *)
definition primadb_limits_default :: primadb_limits where
  "primadb_limits_default =
    \<lparr> max_pending_ops = 32768, max_ops_per_message = 1024, max_route_payload_bytes = 512 * 1024,
      max_seen_routes = 4096, max_batch_items_per_route = 32, max_query_entries_per_chunk = 64,
      max_snapshot_nodes_per_chunk = 64, max_snapshot_ops_per_chunk = 256,
      max_peer_recommendations = 64, max_active_remote_watches = 128 \<rparr>"

(* src: src/src/snapshot.rs:8-19 DatabaseSnapshot *)
record database_snapshot =
  snap_clock :: hybrid_clock
  snap_nodes :: "(node_id, node_state) fmap"
  snap_pending_ops :: "operation list"
  snap_scope_policies :: "(string, scope_policy) fmap"
  snap_provisional_transactions :: "(string, provisional_transaction) fmap"
  snap_next_provisional_transaction_id :: u64

section \<open>Third-party functions\<close>

text \<open>
  The \<open>base64ct\<close> codec behind \<open>BinaryBytes\<close>, the \<open>serde\<close> conversion of a blob reference and the
  text \<open>serde_json\<close> prints for a value (used in error messages only).
\<close>

record externs =
  base64_encode :: "u8 list \<Rightarrow> string"
  base64_decode :: "string \<Rightarrow> u8 list option"
  blob_ref_to_json :: "blob_ref \<Rightarrow> json"
  blob_ref_from_json :: "json \<Rightarrow> blob_ref option"
  json_display :: "json \<Rightarrow> string"

text \<open>The documented behaviour of those crates: what was encoded decodes to itself.\<close>
definition codec_ok :: "externs \<Rightarrow> bool" where
  "codec_ok ext \<longleftrightarrow>
    (\<forall>bs. base64_decode ext (base64_encode ext bs) = Some bs) \<and>
    (\<forall>r. blob_ref_from_json ext (blob_ref_to_json ext r) = Some r)"

(* src: src/src/binary.rs:21-23 BinaryBytes::to_base64 *)
definition to_base64 :: "externs \<Rightarrow> binary_bytes \<Rightarrow> string" where
  "to_base64 ext b = base64_encode ext (as_slice b)"

(* src: src/src/binary.rs:25-29 BinaryBytes::from_base64 *)
definition from_base64 :: "externs \<Rightarrow> string \<Rightarrow> binary_bytes option" where
  "from_base64 ext s = map_option BinaryBytes (base64_decode ext s)"

lemma from_to_base64: "codec_ok ext \<Longrightarrow> from_base64 ext (to_base64 ext b) = Some b"
  by (cases b) (simp add: codec_ok_def from_base64_def to_base64_def)

end
