(* ===== verification/OpQueue.thy ===== *)
theory OpQueue
  imports Values
begin

text \<open>
  The compacted operation queues of \<open>src/src/db.rs\<close> (\<open>CompactedOperations\<close>), which hold the
  pending and the unflushed operations, and their undo log (\<open>OperationQueueUndo\<close>).

  The lemmas show that the key index always describes the vector, that a queue built from a
  stream holds exactly the newest operation of every state slot at the position of the slot's
  first occurrence, and that the undo log restores a queue after any pushes.
\<close>

section \<open>Model\<close>

(* src: src/src/db.rs:332-343 OperationCompactionKey *)
datatype operation_compaction_key =
    KField string string
  | KSetMember string string string

(* src: src/src/db.rs:346-368 OperationCompactionKey::from_operation *)
definition compaction_key :: "operation \<Rightarrow> operation_compaction_key" where
  "compaction_key op =
    (case action op of
       SetField n f _ \<Rightarrow> KField n f
     | DeleteField n f \<Rightarrow> KField n f
     | AddSetMember n f m \<Rightarrow> KSetMember n f m
     | RemoveSetMember n f m \<Rightarrow> KSetMember n f m)"

(* src: src/src/db.rs:371-375 CompactedOperations *)
record compacted_operations =
  cq_operations :: "operation list"
  cq_indices :: "(operation_compaction_key, usize) fmap"

definition queue_empty :: compacted_operations where
  "queue_empty = \<lparr> cq_operations = [], cq_indices = fmempty \<rparr>"

(* src: src/src/db.rs:389-404 CompactedOperations::push *)
definition queue_push :: "operation \<Rightarrow> compacted_operations \<Rightarrow> compacted_operations" where
  "queue_push op q =
    (case fmlookup (cq_indices q) (compaction_key op) of
       Some index \<Rightarrow>
         (if op_revision op \<ge> op_revision (cq_operations q ! index)
          then q\<lparr> cq_operations := (cq_operations q)[index := op] \<rparr>
          else q)
     | None \<Rightarrow>
         q\<lparr> cq_operations := cq_operations q @ [op],
            cq_indices := fmupd (compaction_key op) (length (cq_operations q)) (cq_indices q) \<rparr>)"

(* src: src/src/db.rs:378-387 CompactedOperations::from_operations *)
definition from_operations :: "operation list \<Rightarrow> compacted_operations" where
  "from_operations ops = fold queue_push ops queue_empty"

(* src: src/src/db.rs:418-420 CompactedOperations::len *)
definition queue_len :: "compacted_operations \<Rightarrow> usize" where
  "queue_len q = length (cq_operations q)"

(* src: src/src/db.rs:426-429 CompactedOperations::clear *)
definition queue_clear :: "compacted_operations \<Rightarrow> compacted_operations" where
  "queue_clear q = q\<lparr> cq_operations := [], cq_indices := fmempty \<rparr>"

(* src: src/src/db.rs:431-437 CompactedOperations::rebuild_indices *)
definition rebuild_indices :: "compacted_operations \<Rightarrow> compacted_operations" where
  "rebuild_indices q =
    q\<lparr> cq_indices := fold (\<lambda>(index, op). fmupd (compaction_key op) index)
         (enumerate 0 (cq_operations q)) fmempty \<rparr>"

(* src: src/src/db.rs:439-450 CompactedOperations::drain_prefix *)
definition drain_prefix :: "usize \<Rightarrow> compacted_operations \<Rightarrow> compacted_operations" where
  "drain_prefix n q =
    q\<lparr> cq_operations := drop n (cq_operations q),
       cq_indices := fmmap (\<lambda>index. index - n)
         (fmfilter (\<lambda>k. \<not> the (fmlookup (cq_indices q) k) < n) (cq_indices q)) \<rparr>"

(* src: src/src/db.rs:721-724 OperationQueueUndo *)
record operation_queue_undo =
  initial_len :: usize
  replaced :: "(usize, operation) fmap"

(* src: src/src/db.rs:727-732 OperationQueueUndo::new *)
definition queue_undo_new :: "usize \<Rightarrow> operation_queue_undo" where
  "queue_undo_new n = \<lparr> initial_len = n, replaced = fmempty \<rparr>"

(* src: src/src/db.rs:734-742 OperationQueueUndo::restore *)
definition queue_restore :: "operation_queue_undo \<Rightarrow> compacted_operations \<Rightarrow> compacted_operations" where
  "queue_restore undo q =
    rebuild_indices
      (q\<lparr> cq_operations :=
           fold (\<lambda>(index, op) ops. if index < length ops then ops[index := op] else ops)
             (sorted_list_of_fmap (replaced undo)) (take (initial_len undo) (cq_operations q)) \<rparr>)"

text \<open>What \<open>journal_operation_queue\<close> notes of a queue before an operation is pushed.\<close>
(* src: src/src/db.rs:6131-6145 Inner::journal_operation_queue *)
definition note_push :: "operation \<Rightarrow> compacted_operations \<Rightarrow> operation_queue_undo \<Rightarrow> operation_queue_undo" where
  "note_push op q undo =
    (case fmlookup (cq_indices q) (compaction_key op) of
       Some index \<Rightarrow>
         (if index |\<in>| fmdom (replaced undo) then undo
          else undo\<lparr> replaced := fmupd index (cq_operations q ! index) (replaced undo) \<rparr>)
     | None \<Rightarrow> undo)"

section \<open>The index describes the vector\<close>

definition queue_inv :: "compacted_operations \<Rightarrow> bool" where
  "queue_inv q \<longleftrightarrow>
    (\<forall>k i. fmlookup (cq_indices q) k = Some i \<longleftrightarrow>
       i < length (cq_operations q) \<and> compaction_key (cq_operations q ! i) = k)"

lemma queue_inv_lookup:
  "queue_inv q \<Longrightarrow> fmlookup (cq_indices q) k = Some i \<longleftrightarrow>
    i < length (cq_operations q) \<and> compaction_key (cq_operations q ! i) = k"
  by (simp add: queue_inv_def)

lemma queue_inv_lookup_None:
  "queue_inv q \<Longrightarrow> fmlookup (cq_indices q) k = None \<longleftrightarrow> k \<notin> compaction_key ` set (cq_operations q)"
proof -
  assume q: "queue_inv q"
  have "fmlookup (cq_indices q) k = None \<longleftrightarrow> (\<nexists>i. fmlookup (cq_indices q) k = Some i)" by auto
  also have "\<dots> \<longleftrightarrow> (\<nexists>i. i < length (cq_operations q) \<and> compaction_key (cq_operations q ! i) = k)"
    by (simp add: queue_inv_lookup [OF q])
  also have "\<dots> \<longleftrightarrow> k \<notin> compaction_key ` set (cq_operations q)"
    unfolding image_iff Bex_def in_set_conv_nth by blast
  finally show ?thesis .
qed

lemma queue_inv_distinct: "queue_inv q \<Longrightarrow> distinct (map compaction_key (cq_operations q))"
  unfolding queue_inv_def distinct_conv_nth by (metis length_map nth_map option.inject)

lemma queue_inv_empty [simp]: "queue_inv queue_empty"
  by (simp add: queue_inv_def queue_empty_def)

lemma queue_inv_clear [simp]: "queue_inv (queue_clear q)"
  by (simp add: queue_inv_def queue_clear_def)

lemma queue_push_new:
  "fmlookup (cq_indices q) (compaction_key op) = None \<Longrightarrow>
    queue_push op q = q\<lparr> cq_operations := cq_operations q @ [op],
      cq_indices := fmupd (compaction_key op) (length (cq_operations q)) (cq_indices q) \<rparr>"
  by (simp add: queue_push_def)

lemma queue_push_old:
  "fmlookup (cq_indices q) (compaction_key op) = Some i \<Longrightarrow>
    queue_push op q =
      (if op_revision op \<ge> op_revision (cq_operations q ! i)
       then q\<lparr> cq_operations := (cq_operations q)[i := op] \<rparr> else q)"
  by (simp add: queue_push_def)

lemma queue_inv_push:
  assumes "queue_inv q"
  shows "queue_inv (queue_push op q)"
proof (cases "fmlookup (cq_indices q) (compaction_key op)")
  case None
  then have "compaction_key op \<notin> compaction_key ` set (cq_operations q)"
    using queue_inv_lookup_None [OF assms] by simp
  then have "compaction_key (cq_operations q ! i) \<noteq> compaction_key op"
    if "i < length (cq_operations q)" for i using that by (metis image_eqI nth_mem)
  with None show ?thesis
    using assms by (auto simp: queue_push_new queue_inv_def nth_append less_Suc_eq)
next
  case (Some i)
  then have "i < length (cq_operations q) \<and> compaction_key (cq_operations q ! i) = compaction_key op"
    using queue_inv_lookup [OF assms] by blast
  then show ?thesis
    unfolding queue_inv_def queue_push_old [OF Some]
    using queue_inv_lookup [OF assms] by (auto simp: nth_list_update)
qed

lemma rebuild_indices_lookup:
  assumes "distinct (map compaction_key (cq_operations q))"
  shows "fmlookup (cq_indices (rebuild_indices q)) k = Some i \<longleftrightarrow>
    i < length (cq_operations q) \<and> compaction_key (cq_operations q ! i) = k"
proof -
  let ?es = "map (\<lambda>(index, op). (compaction_key op, index)) (enumerate 0 (cq_operations q))"
  have "map fst ?es = map compaction_key (map snd (enumerate 0 (cq_operations q)))"
    by (simp only: map_map comp_def split_def fst_conv)
  then have d: "distinct (map fst ?es)" using assms by simp
  have "fold (\<lambda>(index, op). fmupd (compaction_key op) index) (enumerate 0 (cq_operations q)) fmempty
      = fold (\<lambda>(k, v). fmupd k v) ?es fmempty"
    by (simp add: fold_map comp_def split_def)
  then have "fmlookup (cq_indices (rebuild_indices q)) k = map_of ?es k"
    using fold_fmupd [OF d, of fmempty k] by (simp add: rebuild_indices_def split: option.splits)
  also have "map_of ?es k = Some i \<longleftrightarrow> (k, i) \<in> set ?es" using d by simp
  also have "\<dots> \<longleftrightarrow> i < length (cq_operations q) \<and> compaction_key (cq_operations q ! i) = k"
    by (auto simp: in_set_enumerate_eq image_iff split_def
        intro!: bexI [of _ "(i, cq_operations q ! i)"])
  finally show ?thesis by simp
qed

lemma queue_inv_rebuild:
  "distinct (map compaction_key (cq_operations q)) \<Longrightarrow> queue_inv (rebuild_indices q)"
  using rebuild_indices_lookup [of q] by (simp add: queue_inv_def rebuild_indices_def)

text \<open>The index is a function of the vector, so a rebuilt queue with the old vector is the old queue.\<close>
lemma queue_inv_unique:
  assumes "queue_inv p" "queue_inv q" "cq_operations p = cq_operations q"
  shows "p = q"
proof -
  have "fmlookup (cq_indices p) k = Some i \<longleftrightarrow> fmlookup (cq_indices q) k = Some i" for k i
    using assms by (simp add: queue_inv_lookup)
  then have "fmlookup (cq_indices p) k = fmlookup (cq_indices q) k" for k
    by (metis not_None_eq)
  then have "cq_indices p = cq_indices q" by (rule fmap_ext)
  with assms(3) show ?thesis by simp
qed

lemma queue_inv_drain:
  assumes "queue_inv q"
  shows "queue_inv (drain_prefix n q)"
  unfolding queue_inv_def
proof (intro allI)
  fix k i
  have "fmlookup (cq_indices (drain_prefix n q)) k = Some i \<longleftrightarrow>
      (\<exists>j. fmlookup (cq_indices q) k = Some j \<and> n \<le> j \<and> i = j - n)"
    by (auto simp: drain_prefix_def)
  also have "\<dots> \<longleftrightarrow> fmlookup (cq_indices q) k = Some (n + i)"
    by (metis diff_add_inverse le_add1 le_add_diff_inverse)
  finally show "fmlookup (cq_indices (drain_prefix n q)) k = Some i \<longleftrightarrow>
      i < length (cq_operations (drain_prefix n q)) \<and>
      compaction_key (cq_operations (drain_prefix n q) ! i) = k"
    using assms by (auto simp: queue_inv_lookup drain_prefix_def)
qed

lemma queue_inv_fold: "queue_inv q \<Longrightarrow> queue_inv (fold queue_push ops q)"
  by (induction ops arbitrary: q) (auto simp: queue_inv_push)

section \<open>What compaction keeps\<close>

text \<open>The slots a stream touches, in the order it first touches them.\<close>
definition first_occurrences :: "'a list \<Rightarrow> 'a list" where
  "first_occurrences xs = rev (remdups (rev xs))"

text \<open>The operation that wins a slot: the newest revision, and the latest of those.\<close>
fun newest :: "operation \<Rightarrow> operation list \<Rightarrow> operation" where
  "newest a [] = a"
| "newest a (b # ops) = newest (if op_revision b \<ge> op_revision a then b else a) ops"

definition slot_ops :: "operation_compaction_key \<Rightarrow> operation list \<Rightarrow> operation list" where
  "slot_ops k ops = filter (\<lambda>op. compaction_key op = k) ops"

definition slot_winner :: "operation_compaction_key \<Rightarrow> operation list \<Rightarrow> operation" where
  "slot_winner k ops = newest (hd (slot_ops k ops)) (tl (slot_ops k ops))"

definition compacted :: "operation list \<Rightarrow> operation list" where
  "compacted ops = map (\<lambda>k. slot_winner k ops) (first_occurrences (map compaction_key ops))"

lemma first_occurrences_snoc:
  "first_occurrences (xs @ [x]) = (if x \<in> set xs then first_occurrences xs else first_occurrences xs @ [x])"
  by (simp add: first_occurrences_def)

lemma set_first_occurrences [simp]: "set (first_occurrences xs) = set xs"
  by (simp add: first_occurrences_def)

lemma newest_append: "newest a (xs @ [b]) =
    (if op_revision b \<ge> op_revision (newest a xs) then b else newest a xs)"
  by (induction a xs rule: newest.induct) auto

lemma slot_winner_snoc:
  "slot_winner k (ops @ [op]) =
    (if compaction_key op \<noteq> k then slot_winner k ops
     else if k \<notin> compaction_key ` set ops then op
     else if op_revision op \<ge> op_revision (slot_winner k ops) then op else slot_winner k ops)"
proof -
  have "slot_ops k ops = [] \<longleftrightarrow> k \<notin> compaction_key ` set ops"
    by (auto simp: slot_ops_def filter_empty_conv)
  then show ?thesis
    by (cases "slot_ops k ops") (auto simp: slot_winner_def slot_ops_def newest_append)
qed

lemma newest_in: "newest a ops \<in> set (a # ops)"
  by (induction a ops rule: newest.induct) auto

lemma newest_max: "\<forall>b \<in> set (a # ops). op_revision b \<le> op_revision (newest a ops)"
proof (induction ops arbitrary: a)
  case (Cons c ops)
  let ?d = "if op_revision c \<ge> op_revision a then c else a"
  have "op_revision a \<le> op_revision ?d" "op_revision c \<le> op_revision ?d" by auto
  moreover from Cons.IH [of ?d] have "op_revision ?d \<le> op_revision (newest ?d ops)" by simp
  ultimately have "op_revision a \<le> op_revision (newest ?d ops)" "op_revision c \<le> op_revision (newest ?d ops)"
    by (blast intro: order_trans)+
  with Cons.IH [of ?d] show ?case by simp
qed simp

lemma slot_winner_in:
  "k \<in> compaction_key ` set ops \<Longrightarrow> slot_winner k ops \<in> set (slot_ops k ops)"
proof -
  assume "k \<in> compaction_key ` set ops"
  then have "slot_ops k ops \<noteq> []" by (auto simp: slot_ops_def filter_empty_conv)
  then show ?thesis
    by (metis list.exhaust_sel newest_in slot_winner_def)
qed

lemma from_operations_compacted: "cq_operations (from_operations ops) = compacted ops"
proof (induction ops rule: rev_induct)
  case Nil
  then show ?case by (simp add: from_operations_def queue_empty_def compacted_def first_occurrences_def)
next
  case (snoc op ops)
  let ?q = "from_operations ops" and ?k = "compaction_key op"
  let ?ks = "first_occurrences (map compaction_key ops)"
  have inv: "queue_inv ?q" by (simp add: from_operations_def queue_inv_fold)
  have ops: "cq_operations ?q = map (\<lambda>k. slot_winner k ops) ?ks"
    using snoc.IH by (simp add: compacted_def)
  have key: "compaction_key (slot_winner k ops) = k" if "k \<in> set ?ks" for k
    using slot_winner_in [of k ops] that by (auto simp: slot_ops_def)
  then have keys: "compaction_key ` set (cq_operations ?q) = set ?ks"
    by (simp add: ops image_image)
  have step: "from_operations (ops @ [op]) = queue_push op ?q" by (simp add: from_operations_def)
  show ?case
  proof (cases "fmlookup (cq_indices ?q) ?k")
    case None
    then have "?k \<notin> compaction_key ` set ops"
      using queue_inv_lookup_None [OF inv] keys by auto
    with None show ?thesis
      by (auto simp: step queue_push_new ops compacted_def first_occurrences_snoc slot_winner_snoc)
  next
    case (Some i)
    then have *: "i < length (cq_operations ?q)" "compaction_key (cq_operations ?q ! i) = ?k"
      using queue_inv_lookup [OF inv, of ?k i] by blast+
    then have i: "i < length ?ks" "?ks ! i = ?k"
      using key [OF nth_mem, of i] by (auto simp: ops)
    then have k: "?k \<in> compaction_key ` set ops"
      by (metis list.set_map nth_mem set_first_occurrences)
    have d: "distinct ?ks" by (simp add: first_occurrences_def)
    have upd: "map (\<lambda>k. slot_winner k (ops @ [op])) ?ks = (map (\<lambda>k. slot_winner k ops) ?ks)[i := slot_winner ?k (ops @ [op])]"
      using map_update_at [OF d i(1), of "\<lambda>k. slot_winner k (ops @ [op])" "\<lambda>k. slot_winner k ops"] i(2)
      by (simp add: slot_winner_snoc)
    have win: "cq_operations ?q ! i = slot_winner ?k ops" using i by (simp add: ops)
    have "compacted (ops @ [op]) = (cq_operations ?q)[i := slot_winner ?k (ops @ [op])]"
      using k upd by (simp add: compacted_def first_occurrences_snoc ops)
    also have "\<dots> = cq_operations (queue_push op ?q)"
      using k i by (auto simp: queue_push_old [OF Some] slot_winner_snoc win [symmetric])
    finally show ?thesis by (simp add: step)
  qed
qed

section \<open>The undo log of a queue\<close>

text \<open>
  The log \<open>u\<close> undoes from \<open>t\<close> to \<open>s\<close>: the queue \<open>t\<close> extends \<open>s\<close>, every slot of \<open>s\<close> keeps its
  key, and a slot whose operation has changed is saved with its old operation.
\<close>
definition queue_undoes ::
    "compacted_operations \<Rightarrow> operation_queue_undo \<Rightarrow> compacted_operations \<Rightarrow> bool" where
  "queue_undoes s u t \<longleftrightarrow>
    queue_inv t \<and> initial_len u = length (cq_operations s) \<and>
    length (cq_operations s) \<le> length (cq_operations t) \<and>
    (\<forall>i < length (cq_operations s).
       cq_operations s ! i =
         (case fmlookup (replaced u) i of Some op \<Rightarrow> op | None \<Rightarrow> cq_operations t ! i))"

lemma length_fold_update:
  "length (fold (\<lambda>(i, x) xs. if i < length xs then xs[i := x] else xs) es ys) = length ys"
  by (induction es arbitrary: ys) auto

lemma nth_fold_update:
  "distinct (map fst es) \<Longrightarrow> j < length ys \<Longrightarrow>
    fold (\<lambda>(i, x) xs. if i < length xs then xs[i := x] else xs) es ys ! j =
      (case map_of es j of Some x \<Rightarrow> x | None \<Rightarrow> ys ! j)"
proof (induction es arbitrary: ys)
  case (Cons e es)
  obtain i x where e: "e = (i, x)" by fastforce
  with Cons.prems have "map_of es i = None" by (auto simp: map_of_eq_None_iff)
  with Cons e show ?case by (auto split: option.splits)
qed simp

lemma queue_undoes_push:
  assumes "queue_undoes s u t"
  shows "queue_undoes s (note_push op t u) (queue_push op t)"
proof (cases "fmlookup (cq_indices t) (compaction_key op)")
  case None
  with assms queue_inv_push [of t op] show ?thesis
    by (auto simp: queue_undoes_def note_push_def queue_push_new nth_append split: option.splits)
next
  case (Some i)
  then have len: "length (cq_operations (queue_push op t)) = length (cq_operations t)"
    by (simp add: queue_push_old)
  have other: "cq_operations (queue_push op t) ! j = cq_operations t ! j" if "j \<noteq> i" for j
    using that by (simp add: queue_push_old [OF Some])
  have noted: "fmlookup (replaced (note_push op t u)) j =
      (if j = i \<and> fmlookup (replaced u) i = None then Some (cq_operations t ! i)
       else fmlookup (replaced u) j)" for j
    by (auto simp: note_push_def Some fmlookup_dom_iff)
  have "initial_len (note_push op t u) = initial_len u"
    by (simp add: note_push_def Some)
  with assms len queue_inv_push [of t op] other show ?thesis
    unfolding queue_undoes_def noted by (auto split: option.splits) (metis option.distinct(1))+
qed

lemma queue_undoes_restore:
  assumes "queue_inv s" "queue_undoes s u t"
  shows "queue_restore u t = s"
proof -
  let ?ops = "fold (\<lambda>(index, op) ops. if index < length ops then ops[index := op] else ops)
      (sorted_list_of_fmap (replaced u)) (take (initial_len u) (cq_operations t))"
  have "?ops = cq_operations s"
  proof (rule nth_equalityI)
    show len: "length ?ops = length (cq_operations s)"
      using assms(2) by (simp add: length_fold_update queue_undoes_def)
    fix i assume "i < length ?ops"
    with len assms(2) show "?ops ! i = cq_operations s ! i"
      by (auto simp: nth_fold_update length_fold_update queue_undoes_def split: option.splits)
  qed
  then have ops: "cq_operations (queue_restore u t) = cq_operations s"
    by (simp add: queue_restore_def rebuild_indices_def)
  have "queue_inv (queue_restore u t)"
    unfolding queue_restore_def
    by (rule queue_inv_rebuild) (use \<open>?ops = cq_operations s\<close> queue_inv_distinct [OF assms(1)] in simp)
  then show ?thesis using queue_inv_unique assms(1) ops by blast
qed

lemma queue_undoes_start: "queue_inv q \<Longrightarrow> queue_undoes q (queue_undo_new (queue_len q)) q"
  by (simp add: queue_undoes_def queue_undo_new_def queue_len_def)

interpretation queue_log: undo_log "\<lambda>q. queue_undo_new (queue_len q)" note_push queue_push queue_restore
  queue_inv queue_undoes
  by unfold_locales (simp_all add: queue_undoes_start queue_undoes_push queue_undoes_restore)

section \<open>Properties\<close>

text \<open>
  C6: A compacted queue is the compaction of the stream pushed into it.  After pushing any
  stream of operations, the queue holds one operation for every state slot the stream touches,
  in the order the slots were first touched; that operation is one of the stream's operations
  on the slot and no operation of the stream on that slot has a newer revision.
\<close>
theorem compaction_spec:
  "map compaction_key (cq_operations (from_operations ops)) = first_occurrences (map compaction_key ops) \<and>
   (\<forall>w \<in> set (cq_operations (from_operations ops)). w \<in> set ops \<and>
      (\<forall>op \<in> set ops. compaction_key op = compaction_key w \<longrightarrow> op_revision op \<le> op_revision w))"
proof -
  have win: "slot_winner k ops \<in> set (slot_ops k ops)" if "k \<in> compaction_key ` set ops" for k
    using slot_winner_in that .
  have max: "op_revision op \<le> op_revision (slot_winner (compaction_key op) ops)" if "op \<in> set ops" for op
  proof -
    have "op \<in> set (slot_ops (compaction_key op) ops)" using that by (simp add: slot_ops_def)
    then show ?thesis unfolding slot_winner_def
      by (cases "slot_ops (compaction_key op) ops") (use newest_max in \<open>auto simp del: newest.simps\<close>)
  qed
  have "map compaction_key (compacted ops) = first_occurrences (map compaction_key ops)"
    unfolding compacted_def map_map by (rule map_idI) (use win in \<open>auto simp: slot_ops_def\<close>)
  moreover have "op_revision op \<le> op_revision w"
    if "w \<in> set (compacted ops)" "op \<in> set ops" "compaction_key op = compaction_key w" for w op
    using that max [of op] win by (fastforce simp: compacted_def slot_ops_def)
  moreover have "w \<in> set ops" if "w \<in> set (compacted ops)" for w
    using that win by (fastforce simp: compacted_def slot_ops_def)
  ultimately show ?thesis
    by (auto simp: from_operations_compacted)
qed

definition sample_op :: "u64 \<Rightarrow> string \<Rightarrow> operation" where
  "sample_op t f = \<lparr> op_id = ''x'', author = ''me'', op_revision = Revision t 0 ''me'',
     action = DeleteField ''n'' f \<rparr>"

theorem compaction_spec_witness:
  "map compaction_key (cq_operations (from_operations [sample_op 1 ''a'', sample_op 2 ''b'', sample_op 3 ''a'']))
     = [KField ''n'' ''a'', KField ''n'' ''b''] \<and>
   op_revision (hd (cq_operations (from_operations [sample_op 1 ''a'', sample_op 2 ''b'', sample_op 3 ''a''])))
     = Revision 3 0 ''me''"
  using compaction_spec [of "[sample_op 1 ''a'', sample_op 2 ''b'', sample_op 3 ''a'']"]
  by (simp add: first_occurrences_def from_operations_def queue_push_def queue_empty_def
      sample_op_def compaction_key_def revision_order)

text \<open>
  C24: Rolling back a queue is exact.  Start the undo log of a well-formed queue, push any
  operations with each push noted in the log first, and restore: the queue is the one the log
  was started on, its operations, their order and its key index included.
\<close>
theorem queue_rollback_exact:
  assumes "queue_inv q"
    and "fold (\<lambda>op (u, t). (note_push op t u, queue_push op t)) ops (queue_undo_new (queue_len q), q) = (u', t')"
  shows "queue_restore u' t' = q"
  using assms by (rule queue_log.restore_logged_steps)

theorem queue_rollback_exact_witness:
  "let q = from_operations [sample_op 1 ''a''];
       (u, t) = fold (\<lambda>op (u, t). (note_push op t u, queue_push op t))
         [sample_op 2 ''a'', sample_op 3 ''b''] (queue_undo_new (queue_len q), q)
   in t \<noteq> q \<and> queue_restore u t = q"
proof -
  have "queue_inv (from_operations [sample_op 1 ''a''])"
    by (simp add: from_operations_def queue_inv_push)
  note * = queue_rollback_exact [OF this, of "[sample_op 2 ''a'', sample_op 3 ''b'']"]
  have "snd (fold (\<lambda>op (u, t). (note_push op t u, queue_push op t))
         [sample_op 2 ''a'', sample_op 3 ''b'']
         (queue_undo_new (queue_len (from_operations [sample_op 1 ''a''])), from_operations [sample_op 1 ''a'']))
      \<noteq> from_operations [sample_op 1 ''a'']"
    by (simp add: from_operations_def queue_push_def queue_empty_def sample_op_def compaction_key_def
        revision_order)
  with * show ?thesis
    by (auto simp: Let_def split: prod.split)
qed

end
