(* ===== verification/Crdt.thy ===== *)
theory Crdt
  imports Values
begin

text \<open>
  The replicated data type of \<open>src/src/db.rs\<close>: what one operation does to the node states
  (the four branches of \<open>apply_operation_internal\<close>), and the merge of node states
  (\<open>merge_node_state\<close>, \<open>merge_field_state\<close>, \<open>merge_set_state\<close>).

  The lemmas view a node as a map of cells (a field and a tombstone).  They show that
  operations are idempotent, that operations on consistently used fields commute, what value a
  field and a set converge to, and for which set states the merge is a semilattice.
\<close>

section \<open>Applying one operation to a node\<close>

definition marker_of :: "operation \<Rightarrow> version_marker" where
  "marker_of op = VersionMarker (op_revision op) (op_id op)"

(* src: src/src/db.rs:8184-8193 zero_marker *)
definition zero_marker :: version_marker where
  "zero_marker = VersionMarker (Revision 0 0 []) []"

text \<open>The test \<open>.get(..).map(|current| marker <= *current).unwrap_or(false)\<close>.\<close>
definition blocks :: "version_marker option \<Rightarrow> version_marker \<Rightarrow> bool" where
  "blocks current marker = (case current of Some c \<Rightarrow> marker \<le> c | None \<Rightarrow> False)"

(* src: src/src/db.rs:7038-7051 apply_operation_internal (value of SetField) *)
fun stored_value :: "version_marker \<Rightarrow> operation_value \<Rightarrow> field_value" where
  "stored_value marker (OScalar v) = FScalar v"
| "stored_value marker (OBytes b) = FBytes b"
| "stored_value marker (OBlob r) = FBlob r"
| "stored_value marker (OLink t) = FLink t"
| "stored_value marker (OSet ms) =
    FSet \<lparr> baseline = marker, members = fmap_of_list (map (\<lambda>m. (m, marker)) ms), removed = fmempty \<rparr>"

(* src: src/src/db.rs:7016-7062 apply_operation_internal (SetField) *)
definition apply_set_field ::
    "version_marker \<Rightarrow> string \<Rightarrow> operation_value \<Rightarrow> node_state \<Rightarrow> bool \<times> node_state" where
  "apply_set_field marker f v st =
    (if blocks (fmlookup (nst_tombstones st) f) marker \<or>
        blocks (map_option fld_version (fmlookup (nst_fields st) f)) marker
     then (False, st)
     else (True, st\<lparr> nst_tombstones := fmdrop f (nst_tombstones st),
                      nst_fields := fmupd f \<lparr> fld_value = stored_value marker v, fld_version = marker \<rparr>
                        (nst_fields st) \<rparr>))"

definition single_set :: "version_marker \<Rightarrow> node_id \<Rightarrow> version_marker \<Rightarrow> set_state" where
  "single_set b m marker = \<lparr> baseline = b, members = fmupd m marker fmempty, removed = fmempty \<rparr>"

(* src: src/src/db.rs:7063-7144 apply_operation_internal (AddSetMember) *)
definition apply_add_member ::
    "version_marker \<Rightarrow> string \<Rightarrow> node_id \<Rightarrow> node_state \<Rightarrow> bool \<times> node_state" where
  "apply_add_member marker f m st =
    (if blocks (fmlookup (nst_tombstones st) f) marker then (False, st)
     else case fmlookup (nst_fields st) f of
       Some current \<Rightarrow>
         (case fld_value current of
            FSet s \<Rightarrow>
              (if marker \<le> baseline s then (False, st)
               else if blocks (fmlookup (members s) m) marker \<or> blocks (fmlookup (removed s) m) marker
               then (False, st)
               else (True, st\<lparr> nst_fields := fmupd f
                      \<lparr> fld_value = FSet (s\<lparr> members := fmupd m marker (members s),
                                              removed := fmdrop m (removed s) \<rparr>),
                        fld_version = (if marker > fld_version current then marker else fld_version current) \<rparr>
                      (nst_fields st) \<rparr>))
          | _ \<Rightarrow>
              (if marker \<le> fld_version current then (False, st)
               else (True, st\<lparr> nst_fields := fmupd f
                      \<lparr> fld_value = FSet (single_set marker m marker), fld_version = marker \<rparr>
                      (nst_fields st) \<rparr>)))
     | None \<Rightarrow>
         (True, st\<lparr> nst_fields := fmupd f
            \<lparr> fld_value = FSet (single_set zero_marker m marker), fld_version = marker \<rparr>
            (nst_fields st) \<rparr>))"

definition single_removal :: "node_id \<Rightarrow> version_marker \<Rightarrow> set_state" where
  "single_removal m marker = \<lparr> baseline = zero_marker, members = fmempty, removed = fmupd m marker fmempty \<rparr>"

(* src: src/src/db.rs:7145-7226 apply_operation_internal (RemoveSetMember) *)
definition apply_remove_member ::
    "version_marker \<Rightarrow> string \<Rightarrow> node_id \<Rightarrow> node_state \<Rightarrow> bool \<times> node_state" where
  "apply_remove_member marker f m st =
    (if blocks (fmlookup (nst_tombstones st) f) marker then (False, st)
     else case fmlookup (nst_fields st) f of
       Some current \<Rightarrow>
         (case fld_value current of
            FSet s \<Rightarrow>
              (if marker \<le> baseline s then (False, st)
               else if blocks (fmlookup (members s) m) marker \<or> blocks (fmlookup (removed s) m) marker
               then (False, st)
               else (True, st\<lparr> nst_fields := fmupd f
                      \<lparr> fld_value = FSet (s\<lparr> members := fmdrop m (members s),
                                              removed := fmupd m marker (removed s) \<rparr>),
                        fld_version = (if marker > fld_version current then marker else fld_version current) \<rparr>
                      (nst_fields st) \<rparr>))
          | _ \<Rightarrow>
              (if marker \<le> fld_version current then (False, st)
               else (True, st\<lparr> nst_fields := fmupd f
                      \<lparr> fld_value = FSet (single_removal m marker), fld_version = marker \<rparr>
                      (nst_fields st) \<rparr>)))
     | None \<Rightarrow>
         (True, st\<lparr> nst_fields := fmupd f
            \<lparr> fld_value = FSet (single_removal m marker), fld_version = marker \<rparr>
            (nst_fields st) \<rparr>))"

(* src: src/src/db.rs:7227-7250 apply_operation_internal (DeleteField) *)
definition apply_delete_field :: "version_marker \<Rightarrow> string \<Rightarrow> node_state \<Rightarrow> bool \<times> node_state" where
  "apply_delete_field marker f st =
    (if blocks (map_option fld_version (fmlookup (nst_fields st) f)) marker \<or>
        blocks (fmlookup (nst_tombstones st) f) marker
     then (False, st)
     else (True, st\<lparr> nst_fields := fmdrop f (nst_fields st),
                      nst_tombstones := fmupd f marker (nst_tombstones st) \<rparr>))"

(* src: src/src/db.rs:7875-7882 operation_source_node *)
fun action_node :: "operation_action \<Rightarrow> node_id" where
  "action_node (SetField n f v) = n"
| "action_node (AddSetMember n f m) = n"
| "action_node (RemoveSetMember n f m) = n"
| "action_node (DeleteField n f) = n"

fun action_field :: "operation_action \<Rightarrow> string" where
  "action_field (SetField n f v) = f"
| "action_field (AddSetMember n f m) = f"
| "action_field (RemoveSetMember n f m) = f"
| "action_field (DeleteField n f) = f"

fun apply_to_node :: "version_marker \<Rightarrow> operation_action \<Rightarrow> node_state \<Rightarrow> bool \<times> node_state" where
  "apply_to_node marker (SetField n f v) st = apply_set_field marker f v st"
| "apply_to_node marker (AddSetMember n f m) st = apply_add_member marker f m st"
| "apply_to_node marker (RemoveSetMember n f m) st = apply_remove_member marker f m st"
| "apply_to_node marker (DeleteField n f) st = apply_delete_field marker f st"

text \<open>
  The match of \<open>apply_operation_internal\<close>: the node is created when it is not there, and its
  state is written back whether or not the operation is accepted.
\<close>
(* src: src/src/db.rs:7010-7251 apply_operation_internal (state change) *)
definition apply_action ::
    "operation \<Rightarrow> (node_id, node_state) fmap \<Rightarrow> bool \<times> (node_id, node_state) fmap" where
  "apply_action op nodes =
    (let n = action_node (action op);
         st = (case fmlookup nodes n of Some st \<Rightarrow> st | None \<Rightarrow> node_state_new n);
         (accepted, st') = apply_to_node (marker_of op) (action op) st
     in (accepted, fmupd n st' nodes))"

section \<open>Merging states\<close>

(* src: src/src/db.rs:8175-8182 max_marker *)
fun max_marker :: "version_marker option \<Rightarrow> version_marker option \<Rightarrow> version_marker option" where
  "max_marker (Some a) (Some b) = Some (max a b)"
| "max_marker (Some a) None = Some a"
| "max_marker None (Some b) = Some b"
| "max_marker None None = None"

definition exceeds :: "version_marker \<Rightarrow> version_marker option \<Rightarrow> bool" where
  "exceeds b m = (case m of Some c \<Rightarrow> c > b | None \<Rightarrow> False)"

text \<open>One round of the loop of \<open>merge_set_state\<close>, on the members and removals collected so far.\<close>
definition merge_member ::
    "set_state \<Rightarrow> set_state \<Rightarrow> version_marker \<Rightarrow> node_id \<Rightarrow>
     (node_id, version_marker) fmap \<times> (node_id, version_marker) fmap \<Rightarrow>
     (node_id, version_marker) fmap \<times> (node_id, version_marker) fmap" where
  "merge_member current incoming b m = (\<lambda>(ms, rs).
    let add = max_marker (fmlookup (members current) m) (fmlookup (members incoming) m);
        drp = max_marker (fmlookup (removed current) m) (fmlookup (removed incoming) m)
    in case (exceeds b add, exceeds b drp) of
         (True, True) \<Rightarrow> (if the add > the drp then (fmupd m (the add) ms, rs) else (ms, fmupd m (the drp) rs))
       | (True, False) \<Rightarrow> (fmupd m (the add) ms, rs)
       | (False, True) \<Rightarrow> (ms, fmupd m (the drp) rs)
       | (False, False) \<Rightarrow> (ms, rs))"

(* src: src/src/db.rs:8127-8173 merge_set_state *)
definition merge_set_state :: "set_state \<Rightarrow> set_state \<Rightarrow> set_state" where
  "merge_set_state current incoming =
    (let b = max (baseline current) (baseline incoming);
         candidate_ids = fmdom (members current) |\<union>| fmdom (removed current) |\<union>|
                         fmdom (members incoming) |\<union>| fmdom (removed incoming);
         (ms, rs) = fold (merge_member current incoming b) (sorted_list_of_fset candidate_ids) (fmempty, fmempty)
     in \<lparr> baseline = b, members = ms, removed = rs \<rparr>)"

(* src: src/src/db.rs:8110-8125 merge_field_state *)
definition merge_field_state :: "field_state \<Rightarrow> field_state \<Rightarrow> field_state" where
  "merge_field_state existing incoming =
    (case (fld_value existing, fld_value incoming) of
       (FSet s, FSet t) \<Rightarrow>
         \<lparr> fld_value = FSet (merge_set_state s t),
           fld_version = (if fld_version incoming > fld_version existing then fld_version incoming
                          else fld_version existing) \<rparr>
     | _ \<Rightarrow> (if fld_version incoming > fld_version existing then incoming else existing))"

definition merge_tombstone :: "string \<times> version_marker \<Rightarrow> node_state \<Rightarrow> node_state" where
  "merge_tombstone = (\<lambda>(f, t) st.
    if blocks (fmlookup (nst_tombstones st) f) t \<or>
       blocks (map_option fld_version (fmlookup (nst_fields st) f)) t
    then st
    else st\<lparr> nst_fields := fmdrop f (nst_fields st), nst_tombstones := fmupd f t (nst_tombstones st) \<rparr>)"

definition merge_field :: "string \<times> field_state \<Rightarrow> node_state \<Rightarrow> node_state" where
  "merge_field = (\<lambda>(f, fs) st.
    if blocks (fmlookup (nst_tombstones st) f) (fld_version fs) then st
    else st\<lparr> nst_tombstones := fmdrop f (nst_tombstones st),
             nst_fields := fmupd f (case fmlookup (nst_fields st) f of
                Some existing \<Rightarrow> merge_field_state existing fs | None \<Rightarrow> fs) (nst_fields st) \<rparr>)"

definition merge_into_node :: "node_state \<Rightarrow> node_state \<Rightarrow> node_state" where
  "merge_into_node current incoming =
    fold merge_field (sorted_list_of_fmap (nst_fields incoming))
      (fold merge_tombstone (sorted_list_of_fmap (nst_tombstones incoming)) current)"

(* src: src/src/db.rs:8067-8108 merge_node_state *)
definition merge_node_state ::
    "(node_id, node_state) fmap \<Rightarrow> node_state \<Rightarrow> (node_id, node_state) fmap" where
  "merge_node_state nodes incoming =
    (let n = nst_id incoming;
         current = (case fmlookup nodes n of Some st \<Rightarrow> st | None \<Rightarrow> node_state_new n)
     in fmupd n (merge_into_node current incoming) nodes)"

(* src: src/src/db.rs:8063-8065 node_state_is_empty *)
definition node_state_is_empty :: "node_state \<Rightarrow> bool" where
  "node_state_is_empty st = (nst_fields st = fmempty \<and> nst_tombstones st = fmempty)"

(* src: src/src/db.rs:8045-8061 observe_node_state *)
definition observe_node_state :: "node_state \<Rightarrow> hybrid_clock \<Rightarrow> hybrid_clock" where
  "observe_node_state st c =
    fold (\<lambda>(f, fs) c.
        let c1 = observe (vm_revision (fld_version fs)) c
        in case fld_value fs of
             FSet s \<Rightarrow>
               fold (\<lambda>(m, t). observe (vm_revision t)) (sorted_list_of_fmap (removed s))
                 (fold (\<lambda>(m, t). observe (vm_revision t)) (sorted_list_of_fmap (members s))
                   (observe (vm_revision (baseline s)) c1))
           | _ \<Rightarrow> c1)
      (sorted_list_of_fmap (nst_fields st))
      (fold (\<lambda>(f, t). observe (vm_revision t)) (sorted_list_of_fmap (nst_tombstones st)) c)"

section \<open>Cells\<close>

text \<open>A field of a node with its tombstone; every operation changes one cell of one node.\<close>

type_synonym cell = "field_state option \<times> version_marker option"

definition get_cell :: "string \<Rightarrow> node_state \<Rightarrow> cell" where
  "get_cell f st = (fmlookup (nst_fields st) f, fmlookup (nst_tombstones st) f)"

definition put_cell :: "string \<Rightarrow> cell \<Rightarrow> node_state \<Rightarrow> node_state" where
  "put_cell f c st =
    st\<lparr> nst_fields := put_entry f (fst c) (nst_fields st),
        nst_tombstones := put_entry f (snd c) (nst_tombstones st) \<rparr>"

lemma put_entry_same [simp]: "put_entry k (fmlookup m k) m = m"
  by (rule fmap_ext) simp

lemma put_entry_commute: "k \<noteq> l \<Longrightarrow> put_entry k v (put_entry l w m) = put_entry l w (put_entry k v m)"
  by (rule fmap_ext) simp

lemma put_entry_twice [simp]: "put_entry k v (put_entry k w m) = put_entry k v m"
  by (rule fmap_ext) simp

lemma fmupd_put_entry: "fmupd k v m = put_entry k (Some v) m" "fmdrop k m = put_entry k None m"
  by (simp_all add: put_entry_def)

lemma put_cell_simps [simp]:
  "get_cell f (put_cell g c st) = (if f = g then c else get_cell f st)"
  "put_cell f (get_cell f st) st = st"
  "put_cell f c (put_cell f d st) = put_cell f c st"
  "nst_id (put_cell f c st) = nst_id st"
  by (auto simp: get_cell_def put_cell_def)

lemma put_cell_commute: "f \<noteq> g \<Longrightarrow> put_cell f c (put_cell g d st) = put_cell g d (put_cell f c st)"
  by (simp add: put_cell_def put_entry_commute)

lemma node_state_eqI:
  assumes "nst_id a = nst_id b" "\<And>f. get_cell f a = get_cell f b"
  shows "a = b"
proof -
  have "nst_fields a = nst_fields b" "nst_tombstones a = nst_tombstones b"
    using assms(2) by (auto intro!: fmap_ext simp: get_cell_def)
  with assms(1) show ?thesis by simp
qed

subsection \<open>Last-writer-wins cells\<close>

definition cell_blocks :: "cell \<Rightarrow> version_marker \<Rightarrow> bool" where
  "cell_blocks c m \<longleftrightarrow> blocks (snd c) m \<or> blocks (map_option fld_version (fst c)) m"

definition stamped :: "version_marker \<Rightarrow> cell \<Rightarrow> bool" where
  "stamped m c \<longleftrightarrow> (\<exists>v. c = (Some \<lparr> fld_value = v, fld_version = m \<rparr>, None)) \<or> c = (None, Some m)"

definition cell_write :: "version_marker \<Rightarrow> cell \<Rightarrow> cell \<Rightarrow> cell" where
  "cell_write m new c = (if cell_blocks c m then c else new)"

lemma stamped_blocks: "stamped m c \<Longrightarrow> cell_blocks c k \<longleftrightarrow> k \<le> m"
  by (auto simp: stamped_def cell_blocks_def blocks_def)

lemma cell_blocks_mono: "cell_blocks c m \<Longrightarrow> k \<le> m \<Longrightarrow> cell_blocks c k"
  by (auto simp: cell_blocks_def blocks_def split: option.splits)

lemma cell_write_commute:
  assumes "stamped m a" "stamped k b" "m = k \<Longrightarrow> a = b"
  shows "cell_write m a (cell_write k b c) = cell_write k b (cell_write m a c)"
  using assms cell_blocks_mono [of c m k] cell_blocks_mono [of c k m]
  by (cases m k rule: linorder_cases) (auto simp: cell_write_def stamped_blocks)

lemma cell_write_idem: "stamped m a \<Longrightarrow> cell_write m a (cell_write m a c) = cell_write m a c"
  by (simp add: cell_write_def stamped_blocks)

subsection \<open>Set cells\<close>

definition empty_set :: "version_marker \<Rightarrow> set_state" where
  "empty_set b = \<lparr> baseline = b, members = fmempty, removed = fmempty \<rparr>"

definition update_set :: "bool \<Rightarrow> node_id \<Rightarrow> version_marker \<Rightarrow> set_state \<Rightarrow> set_state" where
  "update_set add x m s =
    s\<lparr> members := put_entry x (if add then Some m else None) (members s),
       removed := put_entry x (if add then None else Some m) (removed s) \<rparr>"

definition set_blocks :: "set_state \<Rightarrow> node_id \<Rightarrow> version_marker \<Rightarrow> bool" where
  "set_blocks s x m \<longleftrightarrow> m \<le> baseline s \<or> blocks (fmlookup (members s) x) m \<or> blocks (fmlookup (removed s) x) m"

definition cell_member :: "bool \<Rightarrow> node_id \<Rightarrow> version_marker \<Rightarrow> cell \<Rightarrow> cell" where
  "cell_member add x m c =
    (if blocks (snd c) m then c
     else case fst c of
       None \<Rightarrow> (Some \<lparr> fld_value = FSet (update_set add x m (empty_set zero_marker)), fld_version = m \<rparr>, snd c)
     | Some cur \<Rightarrow>
         (case fld_value cur of
            FSet s \<Rightarrow> (if set_blocks s x m then c
                       else (Some \<lparr> fld_value = FSet (update_set add x m s),
                                    fld_version = max (fld_version cur) m \<rparr>, snd c))
          | _ \<Rightarrow> (if m \<le> fld_version cur then c
                  else (Some \<lparr> fld_value = FSet (update_set add x m (empty_set (if add then m else zero_marker))),
                               fld_version = m \<rparr>, snd c))))"

lemma update_set_lookup [simp]:
  "baseline (update_set add x m s) = baseline s"
  "fmlookup (members (update_set add x m s)) y =
     (if y = x then (if add then Some m else None) else fmlookup (members s) y)"
  "fmlookup (removed (update_set add x m s)) y =
     (if y = x then (if add then None else Some m) else fmlookup (removed s) y)"
  by (simp_all add: update_set_def)

lemma set_state_eqI:
  fixes s t :: set_state
  assumes "baseline s = baseline t" "\<And>x. fmlookup (members s) x = fmlookup (members t) x"
    "\<And>x. fmlookup (removed s) x = fmlookup (removed t) x"
  shows "s = t"
  using assms by (intro set_state.equality fmap_ext) auto

lemma update_set_commute:
  "x \<noteq> y \<Longrightarrow> update_set a x m (update_set b y k s) = update_set b y k (update_set a x m s)"
  by (rule set_state_eqI) auto

lemma update_set_twice [simp]: "update_set a x m (update_set b x k s) = update_set a x m s"
  by (rule set_state_eqI) auto

lemma set_blocks_update:
  "set_blocks (update_set b y k s) x m \<longleftrightarrow> (if x = y then m \<le> baseline s \<or> m \<le> k else set_blocks s x m)"
  by (auto simp: set_blocks_def blocks_def)

lemma set_blocks_mono: "set_blocks s x m \<Longrightarrow> k \<le> m \<Longrightarrow> set_blocks s x k"
  by (auto simp: set_blocks_def blocks_def split: option.splits)

text \<open>A cell used as a set reads as a set state and a version; an absent field is the empty set.\<close>

definition set_cell :: "cell \<Rightarrow> bool" where
  "set_cell c \<longleftrightarrow> (case fst c of None \<Rightarrow> True | Some cur \<Rightarrow> (\<exists>s. fld_value cur = FSet s))"

definition set_view :: "cell \<Rightarrow> set_state \<times> version_marker" where
  "set_view c =
    (case fst c of
       Some cur \<Rightarrow> (case fld_value cur of FSet s \<Rightarrow> (s, fld_version cur) | _ \<Rightarrow> (empty_set zero_marker, zero_marker))
     | None \<Rightarrow> (empty_set zero_marker, zero_marker))"

lemma Nil_less_string: "[] < s \<longleftrightarrow> s \<noteq> ([] :: string)"
  by (cases s) auto

lemma zero_marker_least [simp]: "zero_marker \<le> m"
  by (cases m; cases "vm_revision m")
    (auto simp: zero_marker_def marker_order revision_order word_gt_0 Nil_less_string)

lemma zero_marker_max [simp]: "max zero_marker m = m"
  by (simp add: max_def)

lemma cell_member_view:
  assumes "set_cell c" "zero_marker < m"
  shows "cell_member add x m c =
    (if blocks (snd c) m \<or> set_blocks (fst (set_view c)) x m then c
     else (Some \<lparr> fld_value = FSet (update_set add x m (fst (set_view c))),
                  fld_version = max (snd (set_view c)) m \<rparr>, snd c))"
  using assms
  by (auto simp: cell_member_def set_cell_def set_view_def set_blocks_def blocks_def empty_set_def
      split: option.splits)

lemma set_view_some [simp]:
  "set_view (Some \<lparr> fld_value = FSet s, fld_version = v \<rparr>, t) = (s, v)"
  "set_cell (Some \<lparr> fld_value = FSet s, fld_version = v \<rparr>, t)"
  by (simp_all add: set_view_def set_cell_def)

lemma cell_member_set_cell: "set_cell c \<Longrightarrow> zero_marker < m \<Longrightarrow> set_cell (cell_member add x m c)"
  by (simp add: cell_member_view)

lemma cell_member_snd: "snd (cell_member add x m c) = snd c"
  by (auto simp: cell_member_def split: option.splits field_value.splits)

lemma cell_member_commute_less:
  assumes "set_cell c" "zero_marker < m" "zero_marker < k" "m < k"
  shows "cell_member a x m (cell_member b y k c) = cell_member b y k (cell_member a x m c)"
proof -
  obtain s v where view: "set_view c = (s, v)" by fastforce
  have tomb: "blocks (snd c) k \<Longrightarrow> blocks (snd c) m"
    using assms(4) by (auto simp: blocks_def split: option.splits)
  have "max (max v m) k = max (max v k) m" "max (max v m) k = max v k"
    using assms(4) by (auto simp: max_def)
  moreover have "k \<le> baseline s \<Longrightarrow> set_blocks s z k" for z k
    by (simp add: set_blocks_def)
  ultimately show ?thesis
    using assms tomb set_blocks_mono [of s x k m]
    by (auto simp: cell_member_view view set_blocks_update update_set_commute)
qed

lemma cell_member_commute:
  assumes "set_cell c" "zero_marker < m" "zero_marker < k" "m = k \<Longrightarrow> (a, x) = (b, y)"
  shows "cell_member a x m (cell_member b y k c) = cell_member b y k (cell_member a x m c)"
proof (cases m k rule: linorder_cases)
  case less
  with assms show ?thesis by (intro cell_member_commute_less) auto
next
  case greater
  with assms show ?thesis by (intro cell_member_commute_less [symmetric]) auto
qed (use assms in auto)

lemma cell_member_cases:
  "cell_member add x m c = c \<or>
    (\<exists>s v. cell_member add x m c =
      (Some \<lparr> fld_value = FSet (update_set add x m s), fld_version = v \<rparr>, snd c))"
proof (cases "fst c")
  case (Some cur)
  then show ?thesis by (cases "fld_value cur") (auto simp: cell_member_def)
qed (auto simp: cell_member_def)

lemma cell_member_idem: "cell_member add x m (cell_member add x m c) = cell_member add x m c"
  using cell_member_cases [of add x m c]
  by (auto simp: cell_member_def [of add x m "(_, _)"] set_blocks_update)

text \<open>What an operation does to a node is what it does to the cell of its field.\<close>

fun cell_apply :: "version_marker \<Rightarrow> operation_action \<Rightarrow> cell \<Rightarrow> cell" where
  "cell_apply m (SetField n f v) c = cell_write m (Some \<lparr> fld_value = stored_value m v, fld_version = m \<rparr>, None) c"
| "cell_apply m (DeleteField n f) c = cell_write m (None, Some m) c"
| "cell_apply m (AddSetMember n f x) c = cell_member True x m c"
| "cell_apply m (RemoveSetMember n f x) c = cell_member False x m c"

lemma single_set_update:
  "single_set b x m = update_set True x m (empty_set b)"
  "single_removal x m = update_set False x m (empty_set zero_marker)"
  "s\<lparr> members := fmupd x m (members s), removed := fmdrop x (removed s) \<rparr> = update_set True x m s"
  "s\<lparr> members := fmdrop x (members s), removed := fmupd x m (removed s) \<rparr> = update_set False x m s"
  by (auto intro!: set_state_eqI simp: single_set_def single_removal_def empty_set_def)

lemma if_max: "(if m > v then m else v) = max v (m :: version_marker)"
  by (auto simp: max_def)

lemma put_cell_field:
  "st\<lparr> nst_fields := fmupd f fs (nst_fields st) \<rparr> = put_cell f (Some fs, fmlookup (nst_tombstones st) f) st"
  by (simp add: put_cell_def fmupd_put_entry)

lemma apply_add_member_cell:
  "snd (apply_add_member m f x st) = put_cell f (cell_member True x m (get_cell f st)) st"
proof (cases "fmlookup (nst_fields st) f")
  case (Some cur)
  with put_cell_simps(2) [of f st] show ?thesis
    by (cases "fld_value cur")
      (auto simp: apply_add_member_def cell_member_def get_cell_def set_blocks_def single_set_update
        if_max put_cell_field)
qed (use put_cell_simps(2) [of f st] in \<open>auto simp: apply_add_member_def cell_member_def get_cell_def
    single_set_update put_cell_field\<close>)

lemma apply_remove_member_cell:
  "snd (apply_remove_member m f x st) = put_cell f (cell_member False x m (get_cell f st)) st"
proof (cases "fmlookup (nst_fields st) f")
  case (Some cur)
  with put_cell_simps(2) [of f st] show ?thesis
    by (cases "fld_value cur")
      (auto simp: apply_remove_member_def cell_member_def get_cell_def set_blocks_def single_set_update
        if_max put_cell_field)
qed (use put_cell_simps(2) [of f st] in \<open>auto simp: apply_remove_member_def cell_member_def get_cell_def
    single_set_update put_cell_field\<close>)

lemma apply_set_field_cell:
  "snd (apply_set_field m f v st) =
    put_cell f (cell_write m (Some \<lparr> fld_value = stored_value m v, fld_version = m \<rparr>, None) (get_cell f st)) st"
  using put_cell_simps(2) [of f st]
  by (auto simp: apply_set_field_def cell_write_def cell_blocks_def get_cell_def)
    (simp add: put_cell_def fmupd_put_entry)

lemma apply_delete_field_cell:
  "snd (apply_delete_field m f st) = put_cell f (cell_write m (None, Some m) (get_cell f st)) st"
  using put_cell_simps(2) [of f st]
  by (auto simp: apply_delete_field_def cell_write_def cell_blocks_def get_cell_def)
    (simp add: put_cell_def fmupd_put_entry)

lemma apply_to_node_cell:
  "snd (apply_to_node m a st) = put_cell (action_field a) (cell_apply m a (get_cell (action_field a) st)) st"
  by (cases a) (simp_all add: apply_add_member_cell apply_remove_member_cell apply_set_field_cell
      apply_delete_field_cell)

section \<open>Idempotence and commutation\<close>

definition apply_step :: "operation \<Rightarrow> (node_id, node_state) fmap \<Rightarrow> (node_id, node_state) fmap" where
  "apply_step op nodes = snd (apply_action op nodes)"

definition node_or_new :: "(node_id, node_state) fmap \<Rightarrow> node_id \<Rightarrow> node_state" where
  "node_or_new nodes n = (case fmlookup nodes n of Some st \<Rightarrow> st | None \<Rightarrow> node_state_new n)"

definition node_apply :: "operation \<Rightarrow> node_state \<Rightarrow> node_state" where
  "node_apply op st =
    put_cell (action_field (action op))
      (cell_apply (marker_of op) (action op) (get_cell (action_field (action op)) st)) st"

lemma apply_step_eq:
  "apply_step op nodes =
    fmupd (action_node (action op)) (node_apply op (node_or_new nodes (action_node (action op)))) nodes"
  by (simp add: apply_step_def apply_action_def node_or_new_def node_apply_def apply_to_node_cell
      [symmetric] Let_def split_def)

lemma node_or_new_fmupd [simp]:
  "node_or_new (fmupd n st nodes) k = (if k = n then st else node_or_new nodes k)"
  by (simp add: node_or_new_def)

lemma cell_apply_idem: "cell_apply m a (cell_apply m a c) = cell_apply m a c"
  by (cases a) (auto simp: cell_member_idem cell_write_idem stamped_def)

lemma node_apply_idem: "node_apply op (node_apply op st) = node_apply op st"
  by (simp add: node_apply_def cell_apply_idem)

lemma apply_step_idem: "apply_step op (apply_step op nodes) = apply_step op nodes"
  by (simp add: apply_step_eq node_apply_idem)

text \<open>
  A use of the fields is consistent when the fields in \<open>S\<close> are only touched by adding and
  removing members and the others only by writing and deleting.
\<close>

definition typed_op :: "(node_id \<Rightarrow> string \<Rightarrow> bool) \<Rightarrow> operation \<Rightarrow> bool" where
  "typed_op S op =
    (case action op of
       SetField n f v \<Rightarrow> \<not> S n f
     | DeleteField n f \<Rightarrow> \<not> S n f
     | AddSetMember n f x \<Rightarrow> S n f \<and> zero_marker < marker_of op
     | RemoveSetMember n f x \<Rightarrow> S n f \<and> zero_marker < marker_of op)"

definition op_compat :: "(node_id \<Rightarrow> string \<Rightarrow> bool) \<Rightarrow> operation \<Rightarrow> operation \<Rightarrow> bool" where
  "op_compat S x y \<longleftrightarrow>
    typed_op S x \<and> typed_op S y \<and> (marker_of x = marker_of y \<longrightarrow> action x = action y)"

definition typed_nodes :: "(node_id \<Rightarrow> string \<Rightarrow> bool) \<Rightarrow> (node_id, node_state) fmap \<Rightarrow> bool" where
  "typed_nodes S nodes \<longleftrightarrow> (\<forall>n f. S n f \<longrightarrow> set_cell (get_cell f (node_or_new nodes n)))"

lemma cell_apply_commute:
  assumes "op_compat S x y" "action_node (action x) = n" "action_node (action y) = n"
    "action_field (action x) = f" "action_field (action y) = f" "S n f \<Longrightarrow> set_cell c"
  shows "cell_apply (marker_of x) (action x) (cell_apply (marker_of y) (action y) c) =
    cell_apply (marker_of y) (action y) (cell_apply (marker_of x) (action x) c)"
proof (cases "S n f")
  case True
  with assms show ?thesis
    by (cases "action x"; cases "action y")
      (auto simp: op_compat_def typed_op_def intro!: cell_member_commute)
next
  case False
  with assms show ?thesis
    by (cases "action x"; cases "action y")
      (auto simp: op_compat_def typed_op_def stamped_def intro!: cell_write_commute)
qed

lemma node_apply_commute:
  assumes "op_compat S x y" "action_node (action x) = n" "action_node (action y) = n"
    "\<And>f. S n f \<Longrightarrow> set_cell (get_cell f st)"
  shows "node_apply x (node_apply y st) = node_apply y (node_apply x st)"
proof (cases "action_field (action x) = action_field (action y)")
  case True
  with cell_apply_commute [OF assms(1-3) refl, of "get_cell (action_field (action x)) st"] assms(4)
  show ?thesis by (simp add: node_apply_def)
next
  case False
  then show ?thesis
    using put_cell_commute [OF False] by (simp add: node_apply_def)
qed

lemma typed_nodes_step:
  assumes "typed_op S x" "typed_nodes S nodes"
  shows "typed_nodes S (apply_step x nodes)"
proof -
  let ?n = "action_node (action x)" and ?f = "action_field (action x)"
  have "set_cell (cell_apply (marker_of x) (action x) c)" if "S ?n ?f" "set_cell c" for c
    using assms(1) that by (cases "action x") (auto simp: typed_op_def cell_member_set_cell)
  with assms(2) show ?thesis
    by (auto simp: typed_nodes_def apply_step_eq node_apply_def)
qed

lemma apply_step_commute:
  assumes "op_compat S x y" "typed_nodes S nodes"
  shows "apply_step x (apply_step y nodes) = apply_step y (apply_step x nodes)"
proof (cases "action_node (action x) = action_node (action y)")
  case True
  then show ?thesis
    using node_apply_commute [OF assms(1) refl, of "node_or_new nodes (action_node (action x))"] assms(2)
    by (simp add: apply_step_eq typed_nodes_def)
next
  case False
  then show ?thesis by (auto simp: apply_step_eq intro!: fmap_ext)
qed

interpretation replica: idempotent_steps apply_step "op_compat S" "typed_nodes S"
  for S :: "node_id \<Rightarrow> string \<Rightarrow> bool"
  by unfold_locales (auto simp: typed_nodes_step apply_step_commute apply_step_idem op_compat_def
      intro: apply_step_commute)

text \<open>
  C1: Replicas converge.  Take operations that use every field consistently (set fields by
  adding and removing members, other fields by writing and deleting) and whose version markers
  identify them.  Two replicas that start from the same states and receive the same operations,
  each in its own order and with any number of duplicates, end with identical node states.
\<close>
theorem replicas_converge:
  assumes "set xs = set ys" "\<forall>x \<in> set xs. \<forall>y \<in> set xs. op_compat S x y" "typed_nodes S nodes"
  shows "fold apply_step xs nodes = fold apply_step ys nodes"
  using replica.delivery_invariant [of xs ys S nodes] assms by (simp add: all_compat_def)

definition demo_op :: "u64 \<Rightarrow> operation_action \<Rightarrow> operation" where
  "demo_op t a = \<lparr> op_id = ''i'' @ hex (unat t), author = ''me'', op_revision = Revision t 0 ''me'', action = a \<rparr>"

theorem replicas_converge_witness:
  "fold apply_step [demo_op 1 (AddSetMember ''n'' ''s'' ''x''), demo_op 2 (RemoveSetMember ''n'' ''s'' ''x''),
      demo_op 3 (SetField ''n'' ''a'' (OScalar JNull))] fmempty =
   fold apply_step [demo_op 3 (SetField ''n'' ''a'' (OScalar JNull)), demo_op 2 (RemoveSetMember ''n'' ''s'' ''x''),
      demo_op 3 (SetField ''n'' ''a'' (OScalar JNull)), demo_op 1 (AddSetMember ''n'' ''s'' ''x'')] fmempty"
proof (rule replicas_converge [where S = "\<lambda>n f. f = ''s''"])
  show "typed_nodes (\<lambda>n f. f = ''s'') fmempty"
    by (simp add: typed_nodes_def node_or_new_def node_state_new_def get_cell_def set_cell_def)
qed (auto simp: op_compat_def typed_op_def demo_op_def marker_of_def zero_marker_def marker_order revision_order)

subsection \<open>Acceptance\<close>

fun cell_accepts :: "version_marker \<Rightarrow> operation_action \<Rightarrow> cell \<Rightarrow> bool" where
  "cell_accepts m (SetField n f v) c = (\<not> cell_blocks c m)"
| "cell_accepts m (DeleteField n f) c = (\<not> cell_blocks c m)"
| "cell_accepts m (AddSetMember n f x) c = (\<not> blocks (snd c) m \<and>
    (case fst c of None \<Rightarrow> True
     | Some cur \<Rightarrow> (case fld_value cur of FSet s \<Rightarrow> \<not> set_blocks s x m | _ \<Rightarrow> \<not> m \<le> fld_version cur)))"
| "cell_accepts m (RemoveSetMember n f x) c = (\<not> blocks (snd c) m \<and>
    (case fst c of None \<Rightarrow> True
     | Some cur \<Rightarrow> (case fld_value cur of FSet s \<Rightarrow> \<not> set_blocks s x m | _ \<Rightarrow> \<not> m \<le> fld_version cur)))"

lemma apply_to_node_accepts:
  "fst (apply_to_node m a st) = cell_accepts m a (get_cell (action_field a) st)"
proof (cases a)
  case (AddSetMember n f x)
  then show ?thesis
    by (cases "fmlookup (nst_fields st) f"; cases "fld_value (the (fmlookup (nst_fields st) f))")
      (simp_all add: apply_add_member_def get_cell_def set_blocks_def)
next
  case (RemoveSetMember n f x)
  then show ?thesis
    by (cases "fmlookup (nst_fields st) f"; cases "fld_value (the (fmlookup (nst_fields st) f))")
      (simp_all add: apply_remove_member_def get_cell_def set_blocks_def)
qed (auto simp: apply_set_field_def apply_delete_field_def get_cell_def cell_blocks_def)

lemma cell_accepts_change: "\<not> cell_accepts m a c \<Longrightarrow> cell_apply m a c = c"
proof (cases a)
  case (AddSetMember n f x)
  then show "\<not> cell_accepts m a c \<Longrightarrow> cell_apply m a c = c"
    by (cases "fst c"; cases "fld_value (the (fst c))") (auto simp: cell_member_def)
next
  case (RemoveSetMember n f x)
  then show "\<not> cell_accepts m a c \<Longrightarrow> cell_apply m a c = c"
    by (cases "fst c"; cases "fld_value (the (fst c))") (auto simp: cell_member_def)
qed (auto simp: cell_write_def)

lemma cell_accepts_once: "\<not> cell_accepts m a (cell_apply m a c)"
proof (cases "cell_accepts m a c")
  case False
  then show ?thesis by (simp add: cell_accepts_change)
next
  case True
  then show ?thesis
    using cell_member_cases [of True _ m c] cell_member_cases [of False _ m c]
    by (cases a; cases "fst c"; cases "fld_value (the (fst c))")
      (auto simp: cell_write_def cell_member_def set_blocks_update cell_blocks_def blocks_def)
qed

lemma apply_action_accepts:
  "fst (apply_action op nodes) =
    cell_accepts (marker_of op) (action op)
      (get_cell (action_field (action op)) (node_or_new nodes (action_node (action op))))"
  by (simp add: apply_action_def apply_to_node_accepts node_or_new_def Let_def split_def)

text \<open>
  C28: Delivery is idempotent for every operation and every state.  Applying an operation a
  second time is rejected and changes nothing.
\<close>
theorem redelivery_is_noop:
  "apply_action op (snd (apply_action op nodes)) = (False, snd (apply_action op nodes))"
proof (rule prod_eqI)
  show "snd (apply_action op (snd (apply_action op nodes))) = snd (False, snd (apply_action op nodes))"
    using apply_step_idem [of op nodes] by (simp add: apply_step_def)
  show "fst (apply_action op (snd (apply_action op nodes))) = fst (False, snd (apply_action op nodes))"
    using apply_step_eq [of op nodes]
    by (simp add: apply_action_accepts apply_step_def [symmetric] node_apply_def cell_accepts_once)
qed

section \<open>What a field converges to\<close>

definition targets :: "node_id \<Rightarrow> string \<Rightarrow> operation \<Rightarrow> bool" where
  "targets n f op \<longleftrightarrow> action_node (action op) = n \<and> action_field (action op) = f"

definition cell_at :: "(node_id, node_state) fmap \<Rightarrow> node_id \<Rightarrow> string \<Rightarrow> cell" where
  "cell_at nodes n f = get_cell f (node_or_new nodes n)"

lemma cell_at_fmempty [simp]: "cell_at fmempty n f = (None, None)"
  by (simp add: cell_at_def node_or_new_def node_state_new_def get_cell_def)

lemma cell_at_step:
  "cell_at (apply_step op nodes) n f =
    (if targets n f op then cell_apply (marker_of op) (action op) (cell_at nodes n f) else cell_at nodes n f)"
  by (auto simp: cell_at_def apply_step_eq node_apply_def targets_def)

text \<open>The state of a register cell after some writes: the write with the greatest marker.\<close>

definition written_cell :: "operation \<Rightarrow> cell" where
  "written_cell op = cell_apply (marker_of op) (action op) (None, None)"

definition is_write :: "operation \<Rightarrow> bool" where
  "is_write op = (case action op of SetField _ _ _ \<Rightarrow> True | DeleteField _ _ \<Rightarrow> True | _ \<Rightarrow> False)"

lemma written_cell_write:
  "is_write op \<Longrightarrow> stamped (marker_of op) (written_cell op) \<and>
    cell_apply (marker_of op) (action op) c = cell_write (marker_of op) (written_cell op) c"
  by (cases "action op")
    (auto simp: written_cell_def is_write_def cell_write_def cell_blocks_def blocks_def stamped_def)

lemma register_state:
  assumes "\<forall>op \<in> set xs. targets n f op \<longrightarrow> is_write op"
  shows "(if \<exists>op \<in> set xs. targets n f op
          then \<exists>w \<in> set xs. targets n f w \<and> cell_at (fold apply_step xs fmempty) n f = written_cell w \<and>
                 (\<forall>op \<in> set xs. targets n f op \<longrightarrow> marker_of op \<le> marker_of w)
          else cell_at (fold apply_step xs fmempty) n f = (None, None))"
  using assms
proof (induction xs rule: rev_induct)
  case (snoc op xs)
  let ?c = "cell_at (fold apply_step xs fmempty) n f"
  show ?case
  proof (cases "targets n f op")
    case False
    then show ?thesis using snoc by (auto simp: cell_at_step)
  next
    case True
    with snoc.prems have w: "is_write op" by simp
    note wc = written_cell_write [OF w]
    have new: "cell_at (fold apply_step (xs @ [op]) fmempty) n f = cell_write (marker_of op) (written_cell op) ?c"
      using True wc by (simp add: cell_at_step)
    show ?thesis
    proof (cases "\<exists>op \<in> set xs. targets n f op")
      case False
      with snoc have "?c = (None, None)" by auto
      then have "cell_at (fold apply_step (xs @ [op]) fmempty) n f = written_cell op"
        unfolding new by (simp add: cell_write_def cell_blocks_def blocks_def)
      with True False show ?thesis by auto
    next
      case old: True
      with snoc obtain v where v: "v \<in> set xs" "targets n f v" "?c = written_cell v"
        "\<forall>op \<in> set xs. targets n f op \<longrightarrow> marker_of op \<le> marker_of v" by auto
      with snoc.prems have "stamped (marker_of v) ?c" using written_cell_write [of v] by auto
      then have "cell_at (fold apply_step (xs @ [op]) fmempty) n f =
          (if marker_of op \<le> marker_of v then written_cell v else written_cell op)"
        using v(3) unfolding new by (simp add: cell_write_def stamped_blocks)
      with v True show ?thesis
        by (cases "marker_of op \<le> marker_of v") (auto intro: order_trans)
    qed
  qed
qed simp

text \<open>
  C9: Last writer wins.  A field touched only by writes and deletions holds, after any delivery
  of the operations, exactly what the operation with the greatest version marker wrote: the
  value of a write, or nothing for a deletion.
\<close>
theorem last_writer_wins:
  assumes "w \<in> set xs" "targets n f w" "\<forall>op \<in> set xs. targets n f op \<longrightarrow> is_write op"
    and "\<forall>op \<in> set xs. targets n f op \<longrightarrow> marker_of op \<le> marker_of w"
    and "\<forall>op \<in> set xs. marker_of op = marker_of w \<longrightarrow> action op = action w"
  shows "fst (cell_at (fold apply_step xs fmempty) n f) =
    (case action w of
       SetField _ _ v \<Rightarrow> Some \<lparr> fld_value = stored_value (marker_of w) v, fld_version = marker_of w \<rparr>
     | _ \<Rightarrow> None)"
proof -
  have "\<exists>op \<in> set xs. targets n f op" using assms(1,2) by blast
  with register_state [OF assms(3)] obtain v
    where v: "v \<in> set xs" "targets n f v" "cell_at (fold apply_step xs fmempty) n f = written_cell v"
      "\<forall>op \<in> set xs. targets n f op \<longrightarrow> marker_of op \<le> marker_of v" by (simp only: if_True) blast
  with assms have "marker_of v = marker_of w" by (auto intro: order_antisym)
  with assms(5) v(1) have "action v = action w" by simp
  with v(3) \<open>marker_of v = marker_of w\<close> have "cell_at (fold apply_step xs fmempty) n f = written_cell w"
    by (simp add: written_cell_def)
  moreover have "is_write w" using assms by auto
  ultimately show ?thesis
    by (cases "action w") (auto simp: written_cell_def is_write_def cell_write_def cell_blocks_def blocks_def)
qed

theorem last_writer_wins_witness:
  "fst (cell_at (fold apply_step [demo_op 2 (SetField ''n'' ''a'' (OLink ''x'')),
      demo_op 1 (DeleteField ''n'' ''a'')] fmempty) ''n'' ''a'') =
   Some \<lparr> fld_value = FLink ''x'', fld_version = marker_of (demo_op 2 (SetField ''n'' ''a'' (OLink ''x''))) \<rparr>"
  using last_writer_wins [of "demo_op 2 (SetField ''n'' ''a'' (OLink ''x''))"
      "[demo_op 2 (SetField ''n'' ''a'' (OLink ''x'')), demo_op 1 (DeleteField ''n'' ''a'')]" "''n''" "''a''"]
  by (simp add: targets_def is_write_def demo_op_def marker_of_def marker_order revision_order)

subsection \<open>Sets\<close>

definition member_op :: "bool \<Rightarrow> node_id \<Rightarrow> string \<Rightarrow> node_id \<Rightarrow> operation \<Rightarrow> bool" where
  "member_op add n f x op \<longleftrightarrow> action op = (if add then AddSetMember n f x else RemoveSetMember n f x)"

definition set_members_at :: "(node_id, node_state) fmap \<Rightarrow> node_id \<Rightarrow> string \<Rightarrow> node_id fset" where
  "set_members_at nodes n f = fmdom (members (fst (set_view (cell_at nodes n f))))"

lemma typed_member_op:
  assumes "S n f" "typed_op S op" "targets n f op"
  obtains add x where "member_op add n f x op" "zero_marker < marker_of op"
proof (cases "action op")
  case (AddSetMember n' f' x)
  with assms that [of True x] show ?thesis by (simp add: typed_op_def targets_def member_op_def)
next
  case (RemoveSetMember n' f' x)
  with assms that [of False x] show ?thesis by (simp add: typed_op_def targets_def member_op_def)
qed (use assms in \<open>auto simp: typed_op_def targets_def\<close>)

lemma member_op_targets: "member_op add n f x op \<Longrightarrow> targets n f op"
  by (auto simp: member_op_def targets_def)

lemma member_op_cell:
  "member_op add n f x op \<Longrightarrow> cell_apply (marker_of op) (action op) c = cell_member add x (marker_of op) c"
  by (auto simp: member_op_def)

lemma member_op_unique: "member_op a n f x op \<Longrightarrow> member_op b n f y op \<longleftrightarrow> b = a \<and> y = x"
  by (auto simp: member_op_def split: if_splits)

text \<open>The marker that decides about a member: the greatest marker of an operation on it.\<close>

definition decides :: "operation list \<Rightarrow> node_id \<Rightarrow> string \<Rightarrow> node_id \<Rightarrow> bool \<Rightarrow> version_marker \<Rightarrow> bool" where
  "decides xs n f x add m \<longleftrightarrow>
    (\<exists>op \<in> set xs. member_op add n f x op \<and> marker_of op = m) \<and>
    (\<forall>op \<in> set xs. \<forall>b. member_op b n f x op \<longrightarrow> marker_of op \<le> m)"

text \<open>The set state agrees with the operations about a member.\<close>

definition settled :: "operation list \<Rightarrow> node_id \<Rightarrow> string \<Rightarrow> set_state \<Rightarrow> node_id \<Rightarrow> bool" where
  "settled xs n f s x \<longleftrightarrow>
    (\<forall>op \<in> set xs. \<forall>b. \<not> member_op b n f x op) \<and> fmlookup (members s) x = None \<and> fmlookup (removed s) x = None \<or>
    (\<exists>add m. decides xs n f x add m \<and>
       fmlookup (members s) x = (if add then Some m else None) \<and>
       fmlookup (removed s) x = (if add then None else Some m))"

lemma settled_other:
  "(\<And>b. \<not> member_op b n f x op) \<Longrightarrow> settled xs n f s x \<Longrightarrow> settled (xs @ [op]) n f s x"
  by (simp add: settled_def decides_def)

lemma settled_blocked:
  assumes "member_op a n f x op" "settled xs n f s x"
    "blocks (fmlookup (members s) x) (marker_of op) \<or> blocks (fmlookup (removed s) x) (marker_of op)"
  shows "settled (xs @ [op]) n f s x"
proof -
  from assms(2,3) obtain add m where d: "decides xs n f x add m" "marker_of op \<le> m"
    and l: "fmlookup (members s) x = (if add then Some m else None)"
      "fmlookup (removed s) x = (if add then None else Some m)"
    by (auto simp: settled_def blocks_def split: if_splits)
  from d have "decides (xs @ [op]) n f x add m"
    using member_op_unique [OF assms(1)] by (auto simp: decides_def)
  with l show ?thesis unfolding settled_def by blast
qed

lemma settled_update:
  assumes "member_op a n f x op" "settled xs n f s x"
    "\<not> (blocks (fmlookup (members s) x) (marker_of op) \<or> blocks (fmlookup (removed s) x) (marker_of op))"
  shows "settled (xs @ [op]) n f (update_set a x (marker_of op) s) x"
proof -
  have "marker_of y \<le> marker_of op" if y: "y \<in> set xs" "member_op b n f x y" for y b
  proof -
    from assms(2) y obtain add m where "decides xs n f x add m"
        "fmlookup (members s) x = (if add then Some m else None)"
        "fmlookup (removed s) x = (if add then None else Some m)"
      unfolding settled_def by blast
    with assms(3) y have "marker_of y \<le> m" "m < marker_of op"
      by (auto simp: decides_def blocks_def not_le split: if_splits)
    then show ?thesis by simp
  qed
  then have "decides (xs @ [op]) n f x a (marker_of op)"
    using assms(1) by (auto simp: decides_def member_op_unique [OF assms(1)])
  then show ?thesis unfolding settled_def by fastforce
qed

lemma set_state_after:
  assumes "S n f" "\<forall>op \<in> set xs. typed_op S op"
  shows "let c = cell_at (fold apply_step xs fmempty) n f; s = fst (set_view c) in
    set_cell c \<and> snd c = None \<and> baseline s = zero_marker \<and> (\<forall>x. settled xs n f s x)"
  using assms(2)
proof (induction xs rule: rev_induct)
  case Nil
  then show ?case by (simp add: set_view_def set_cell_def empty_set_def settled_def)
next
  case (snoc op xs)
  let ?c = "cell_at (fold apply_step xs fmempty) n f"
  let ?s = "fst (set_view ?c)"
  have IH: "set_cell ?c" "snd ?c = None" "baseline ?s = zero_marker" "settled xs n f ?s x" for x
    using snoc by (simp_all add: Let_def)
  show ?case
  proof (cases "targets n f op")
    case False
    then have "\<not> member_op b n f x op" for b x using member_op_targets by blast
    then show ?thesis
      using False IH by (auto simp: Let_def cell_at_step intro: settled_other)
  next
    case True
    then obtain add x where op: "member_op add n f x op" "zero_marker < marker_of op"
      using typed_member_op [of S n f op] assms(1) snoc.prems by auto
    have c': "cell_at (fold apply_step (xs @ [op]) fmempty) n f =
       (if set_blocks ?s x (marker_of op) then ?c
        else (Some \<lparr> fld_value = FSet (update_set add x (marker_of op) ?s),
                     fld_version = max (snd (set_view ?c)) (marker_of op) \<rparr>, None))"
      using True op IH by (simp add: cell_at_step member_op_cell cell_member_view blocks_def)
    have blk: "set_blocks ?s x (marker_of op) \<longleftrightarrow>
        blocks (fmlookup (members ?s) x) (marker_of op) \<or> blocks (fmlookup (removed ?s) x) (marker_of op)"
      using IH(3) op(2) by (auto simp: set_blocks_def)
    have upd: "settled (xs @ [op]) n f (update_set add x (marker_of op) ?s) y" if "y \<noteq> x" for y
      using settled_other [OF _ IH(4), of y op] member_op_unique [OF op(1)] that
      by (simp add: settled_def)
    have keep: "settled (xs @ [op]) n f ?s y" if "set_blocks ?s x (marker_of op)" for y
      using settled_blocked [OF op(1) IH(4)] settled_other [OF _ IH(4), of y op]
        member_op_unique [OF op(1)] that blk by (cases "y = x") auto
    show ?thesis
    proof (cases "set_blocks ?s x (marker_of op)")
      case True
      with IH keep show ?thesis by (simp only: c' if_True Let_def) auto
    next
      case False
      then have "settled (xs @ [op]) n f (update_set add x (marker_of op) ?s) y" for y
        using settled_update [OF op(1) IH(4)] upd blk by (cases "y = x") auto
      with False IH show ?thesis by (simp only: c' if_False Let_def) auto
    qed
  qed
qed

text \<open>
  C25: Sets converge to their latest decisions.  In a field used only as a set, whatever the
  delivery order, a node is a member exactly when some operation added it and every removal of
  it is older than that addition.
\<close>
theorem set_membership_decided_by_latest:
  assumes "S n f" "\<forall>x \<in> set xs. \<forall>y \<in> set xs. op_compat S x y"
  shows "x |\<in>| set_members_at (fold apply_step xs fmempty) n f \<longleftrightarrow>
    (\<exists>a \<in> set xs. action a = AddSetMember n f x \<and>
      (\<forall>b \<in> set xs. action b = RemoveSetMember n f x \<longrightarrow> marker_of b < marker_of a))"
    (is "?lhs \<longleftrightarrow> ?rhs")
proof -
  let ?s = "fst (set_view (cell_at (fold apply_step xs fmempty) n f))"
  have typed: "\<forall>op \<in> set xs. typed_op S op" using assms(2) by (auto simp: op_compat_def)
  have uniq: "marker_of a \<noteq> marker_of b"
    if "a \<in> set xs" "b \<in> set xs" "action a = AddSetMember n f x" "action b = RemoveSetMember n f x" for a b
    using assms(2) that by (fastforce simp: op_compat_def)
  note st = set_state_after [OF assms(1) typed, unfolded Let_def]
  have yes: "?rhs" if d: "decides xs n f x True m" for m
  proof -
    from d obtain a where a: "a \<in> set xs" "action a = AddSetMember n f x" "marker_of a = m"
      and mx: "\<And>op b. op \<in> set xs \<Longrightarrow> member_op b n f x op \<Longrightarrow> marker_of op \<le> m"
      by (auto simp: decides_def member_op_def)
    have "marker_of b < marker_of a" if "b \<in> set xs" "action b = RemoveSetMember n f x" for b
      using mx [of b False] that uniq [OF a(1) that(1) a(2) that(2)] a(3) by (simp add: member_op_def)
    with a show ?thesis by auto
  qed
  have no: "\<not> ?rhs" if d: "decides xs n f x False m" for m
  proof
    assume ?rhs
    then obtain a where a: "a \<in> set xs" "member_op True n f x a"
      "\<forall>b \<in> set xs. action b = RemoveSetMember n f x \<longrightarrow> marker_of b < marker_of a"
      by (auto simp: member_op_def)
    from d obtain b where b: "b \<in> set xs" "action b = RemoveSetMember n f x" "marker_of b = m"
      by (auto simp: decides_def member_op_def)
    from d a have "marker_of a \<le> m" unfolding decides_def by blast
    with a(3) b show False by fastforce
  qed
  have none: "\<not> ?rhs" if "\<forall>op \<in> set xs. \<forall>b. \<not> member_op b n f x op"
    using that [unfolded member_op_def, rule_format, of _ True] by auto
  have "?lhs \<longleftrightarrow> (\<exists>m. fmlookup (members ?s) x = Some m)"
    by (auto simp: set_members_at_def fmlookup_dom_iff)
  moreover have "settled xs n f ?s x" using st by simp
  ultimately show ?thesis
    using yes no none unfolding settled_def by (cases ?rhs) (auto split: if_splits)
qed

theorem set_membership_decided_by_latest_witness:
  "''x'' |\<in>| set_members_at (fold apply_step [demo_op 3 (AddSetMember ''n'' ''s'' ''x''),
     demo_op 2 (RemoveSetMember ''n'' ''s'' ''x'')] fmempty) ''n'' ''s''"
  using set_membership_decided_by_latest [of "\<lambda>n f. f = ''s''" "''n''" "''s''"
      "[demo_op 3 (AddSetMember ''n'' ''s'' ''x''), demo_op 2 (RemoveSetMember ''n'' ''s'' ''x'')]" "''x''"]
  by (simp add: op_compat_def typed_op_def demo_op_def marker_of_def zero_marker_def marker_order revision_order)

section \<open>Where convergence fails\<close>


section \<open>Merging set states\<close>

text \<open>What a merge decides about one member, as a function of the two sides.\<close>

definition merged_add :: "set_state \<Rightarrow> set_state \<Rightarrow> node_id \<Rightarrow> version_marker option" where
  "merged_add s t x = max_marker (fmlookup (members s) x) (fmlookup (members t) x)"

definition merged_drop :: "set_state \<Rightarrow> set_state \<Rightarrow> node_id \<Rightarrow> version_marker option" where
  "merged_drop s t x = max_marker (fmlookup (removed s) x) (fmlookup (removed t) x)"

definition add_wins :: "version_marker \<Rightarrow> version_marker option \<Rightarrow> version_marker option \<Rightarrow> bool" where
  "add_wins b a d \<longleftrightarrow> exceeds b a \<and> (exceeds b d \<longrightarrow> the a > the d)"

definition drop_wins :: "version_marker \<Rightarrow> version_marker option \<Rightarrow> version_marker option \<Rightarrow> bool" where
  "drop_wins b a d \<longleftrightarrow> exceeds b d \<and> (exceeds b a \<longrightarrow> \<not> the a > the d)"

lemma merge_member_lookup:
  "merge_member s t b x (ms, rs) =
    (if add_wins b (merged_add s t x) (merged_drop s t x) then fmupd x (the (merged_add s t x)) ms else ms,
     if drop_wins b (merged_add s t x) (merged_drop s t x) then fmupd x (the (merged_drop s t x)) rs else rs)"
  by (auto simp: merge_member_def merged_add_def merged_drop_def add_wins_def drop_wins_def Let_def
      split: bool.splits)

lemma fold_merge_member:
  "distinct xs \<Longrightarrow>
    (let r = fold (merge_member s t b) xs (ms, rs) in
      (\<forall>x. fmlookup (fst r) x =
        (if x \<in> set xs \<and> add_wins b (merged_add s t x) (merged_drop s t x)
         then Some (the (merged_add s t x)) else fmlookup ms x)) \<and>
      (\<forall>x. fmlookup (snd r) x =
        (if x \<in> set xs \<and> drop_wins b (merged_add s t x) (merged_drop s t x)
         then Some (the (merged_drop s t x)) else fmlookup rs x)))"
proof (induction xs arbitrary: ms rs)
  case (Cons y xs)
  from Cons.prems have "distinct xs" "y \<notin> set xs" by simp_all
  with Cons.IH show ?case by (auto simp: Let_def merge_member_lookup)
qed (simp add: Let_def)

lemma max_marker_none: "max_marker a b = None \<longleftrightarrow> a = None \<and> b = None"
  by (cases a; cases b) auto

lemma merge_set_state_lookup:
  shows "baseline (merge_set_state s t) = max (baseline s) (baseline t)"
    and "fmlookup (members (merge_set_state s t)) x =
      (if add_wins (max (baseline s) (baseline t)) (merged_add s t x) (merged_drop s t x)
       then merged_add s t x else None)"
    and "fmlookup (removed (merge_set_state s t)) x =
      (if drop_wins (max (baseline s) (baseline t)) (merged_add s t x) (merged_drop s t x)
       then merged_drop s t x else None)"
proof -
  let ?b = "max (baseline s) (baseline t)"
  let ?ids = "sorted_list_of_fset (fmdom (members s) |\<union>| fmdom (removed s) |\<union>| fmdom (members t) |\<union>| fmdom (removed t))"
  note * = fold_merge_member [of ?ids s t ?b fmempty fmempty, unfolded Let_def, OF distinct_sorted_list_of_fset]
  have mem: "x \<in> set ?ids" if "merged_add s t x \<noteq> None \<or> merged_drop s t x \<noteq> None"
    using that by (auto simp: merged_add_def merged_drop_def max_marker_none fmlookup_dom_iff)
  have a: "merged_add s t x \<noteq> None" if "add_wins ?b (merged_add s t x) (merged_drop s t x)"
    using that by (auto simp: add_wins_def exceeds_def split: option.splits)
  have d: "merged_drop s t x \<noteq> None" if "drop_wins ?b (merged_add s t x) (merged_drop s t x)"
    using that by (auto simp: drop_wins_def exceeds_def split: option.splits)
  show "baseline (merge_set_state s t) = ?b"
    by (simp add: merge_set_state_def Let_def split_def)
  show "fmlookup (members (merge_set_state s t)) x =
      (if add_wins ?b (merged_add s t x) (merged_drop s t x) then merged_add s t x else None)"
    using * mem a by (simp add: merge_set_state_def Let_def split_def del: set_sorted_list_of_fset)
  show "fmlookup (removed (merge_set_state s t)) x =
      (if drop_wins ?b (merged_add s t x) (merged_drop s t x) then merged_drop s t x else None)"
    using * mem d by (simp add: merge_set_state_def Let_def split_def del: set_sorted_list_of_fset)
qed

text \<open>
  A normal set state: every marker is above the baseline and no node is both a member and
  removed.  Every merge produces a normal state, and on normal states it is a semilattice.
\<close>

definition set_normal :: "set_state \<Rightarrow> bool" where
  "set_normal s \<longleftrightarrow>
    (\<forall>x m. fmlookup (members s) x = Some m \<longrightarrow> baseline s < m \<and> fmlookup (removed s) x = None) \<and>
    (\<forall>x m. fmlookup (removed s) x = Some m \<longrightarrow> baseline s < m)"

lemma max_marker_commute: "max_marker a b = max_marker b a"
  by (cases a; cases b) (auto simp: max.commute)

lemma merge_set_commute: "merge_set_state s t = merge_set_state t s"
  by (rule set_state_eqI)
    (auto simp: merge_set_state_lookup merged_add_def merged_drop_def max_marker_commute max.commute)

lemma merge_set_normal: "set_normal (merge_set_state s t)"
  by (auto simp: set_normal_def merge_set_state_lookup add_wins_def drop_wins_def exceeds_def
      split: if_splits option.splits)

lemma merge_set_idem: "set_normal s \<Longrightarrow> merge_set_state s s = s"
proof (rule set_state_eqI)
  assume n: "set_normal s"
  have same: "max_marker a a = a" for a by (cases a) auto
  fix x
  show "fmlookup (members (merge_set_state s s)) x = fmlookup (members s) x"
    using n by (cases "fmlookup (members s) x")
      (auto simp: merge_set_state_lookup merged_add_def merged_drop_def same add_wins_def exceeds_def set_normal_def)
  show "fmlookup (removed (merge_set_state s s)) x = fmlookup (removed s) x"
    using n by (cases "fmlookup (members s) x"; cases "fmlookup (removed s) x")
      (auto simp: merge_set_state_lookup merged_add_def merged_drop_def same drop_wins_def exceeds_def set_normal_def)
qed (simp add: merge_set_state_lookup)

text \<open>
  Merging decides each member on the joined markers, and deciding early loses nothing: what an
  earlier merge dropped would be dropped by the later one.
\<close>

definition decide_add :: "version_marker \<Rightarrow> version_marker option \<Rightarrow> version_marker option \<Rightarrow> version_marker option" where
  "decide_add b a d = (if add_wins b a d then a else None)"

definition decide_drop :: "version_marker \<Rightarrow> version_marker option \<Rightarrow> version_marker option \<Rightarrow> version_marker option" where
  "decide_drop b a d = (if drop_wins b a d then d else None)"

lemma max_marker_assoc: "max_marker (max_marker a b) c = max_marker a (max_marker b c)"
  by (cases a; cases b; cases c) (auto simp: max.assoc)

lemma decide_early:
  assumes "b \<le> b'"
  shows "decide_add b' (max_marker (decide_add b a d) a3) (max_marker (decide_drop b a d) d3) =
      decide_add b' (max_marker a a3) (max_marker d d3)"
    and "decide_drop b' (max_marker (decide_add b a d) a3) (max_marker (decide_drop b a d) d3) =
      decide_drop b' (max_marker a a3) (max_marker d d3)"
  using assms
  by (cases a; cases d; cases a3; cases d3;
      auto simp: decide_add_def decide_drop_def add_wins_def drop_wins_def exceeds_def max_def)+

lemma merge_set_decides:
  "fmlookup (members (merge_set_state s t)) x =
    decide_add (max (baseline s) (baseline t)) (merged_add s t x) (merged_drop s t x)"
  "fmlookup (removed (merge_set_state s t)) x =
    decide_drop (max (baseline s) (baseline t)) (merged_add s t x) (merged_drop s t x)"
  by (simp_all add: merge_set_state_lookup decide_add_def decide_drop_def)

lemma merge_set_lookup3:
  "fmlookup (members (merge_set_state (merge_set_state s t) u)) x =
     decide_add (max (max (baseline s) (baseline t)) (baseline u))
       (max_marker (merged_add s t x) (fmlookup (members u) x))
       (max_marker (merged_drop s t x) (fmlookup (removed u) x))"
  "fmlookup (removed (merge_set_state (merge_set_state s t) u)) x =
     decide_drop (max (max (baseline s) (baseline t)) (baseline u))
       (max_marker (merged_add s t x) (fmlookup (members u) x))
       (max_marker (merged_drop s t x) (fmlookup (removed u) x))"
  by (simp_all add: merge_set_decides merged_add_def [of "merge_set_state s t"]
      merged_drop_def [of "merge_set_state s t"] merge_set_state_lookup(1) decide_early)

lemma merge_set_rotate: "merge_set_state (merge_set_state s t) u = merge_set_state (merge_set_state t u) s"
proof (rule set_state_eqI)
  have rot: "max_marker (max_marker a b) c = max_marker (max_marker b c) a" for a b c
    by (metis max_marker_assoc max_marker_commute)
  have rotb: "max (max a b) c = max (max b c) a" for a b c :: version_marker
    by (metis max.assoc max.commute)
  fix x
  show "fmlookup (members (merge_set_state (merge_set_state s t) u)) x =
      fmlookup (members (merge_set_state (merge_set_state t u) s)) x"
    unfolding merge_set_lookup3 merged_add_def merged_drop_def
    using rot [of "fmlookup (members s) x"] rot [of "fmlookup (removed s) x"] rotb [of "baseline s"] by simp
  show "fmlookup (removed (merge_set_state (merge_set_state s t) u)) x =
      fmlookup (removed (merge_set_state (merge_set_state t u) s)) x"
    unfolding merge_set_lookup3 merged_add_def merged_drop_def
    using rot [of "fmlookup (members s) x"] rot [of "fmlookup (removed s) x"] rotb [of "baseline s"] by simp
  show "baseline (merge_set_state (merge_set_state s t) u) = baseline (merge_set_state (merge_set_state t u) s)"
    using rotb [of "baseline s"] by (simp add: merge_set_state_lookup(1))
qed

lemma merge_set_assoc: "merge_set_state (merge_set_state s t) u = merge_set_state s (merge_set_state t u)"
  using merge_set_rotate [of s t u] merge_set_commute [of s] by simp

interpretation set_merge: merge_semilattice merge_set_state set_normal
  by (unfold_locales; (rule merge_set_normal | rule merge_set_commute | rule merge_set_assoc | erule merge_set_idem))


text \<open>
  C35: A set written as a whole does not survive a merge.  \<open>SetField\<close> with a set value stores every
  member with the marker of the operation, which is also the baseline of the set, and the merge
  keeps only markers strictly above the baseline.  So merging a snapshot that contains such a set
  into a replica that already has it removes all of its members.
\<close>
theorem written_set_lost_by_merge:
  "\<exists>s. stored_value m (OSet xs) = FSet s \<and> fset (fmdom (members s)) = set xs \<and>
     members (merge_set_state s s) = fmempty \<and> merge_field_state \<lparr> fld_value = FSet s, fld_version = m \<rparr>
       \<lparr> fld_value = FSet s, fld_version = m \<rparr> = \<lparr> fld_value = FSet (empty_set m), fld_version = m \<rparr>"
proof -
  let ?s = "\<lparr> baseline = m, members = fmap_of_list (map (\<lambda>x. (x, m)) xs), removed = fmempty \<rparr>"
  have look: "fmlookup (fmap_of_list (map (\<lambda>x. (x, m)) xs)) x = (if x \<in> set xs then Some m else None)" for x
    by (simp add: fmlookup_of_list map_of_map_restrict [of "\<lambda>_. m"] restrict_map_def)
  have "merge_set_state ?s ?s = empty_set m"
    by (rule set_state_eqI)
      (auto simp: merge_set_state_lookup merged_add_def merged_drop_def look add_wins_def drop_wins_def
        exceeds_def empty_set_def simp del: fmap_of_list.rep_eq)
  then show ?thesis
    by (intro exI [of _ ?s]) (auto simp: merge_field_state_def empty_set_def fset_of_list_elem)
qed

end
