(* ===== verification/EngineKeys.thy ===== *)
theory EngineKeys
  imports OpQueue Crdt
begin

text \<open>
  The key encodings, record nodes and index entries of \<open>src/src/engine.rs\<close>: hexadecimal key
  components, the sortable rendering of scalars, direct-index keys and scans, the prefix that
  prunes a record scan, the storage transaction built from the touched nodes.

  The lemmas show that the encodings round-trip and preserve the order of the values they
  encode, that pruning a scan by its prefix loses no key, and where the index of a transaction
  departs from the index of the whole graph.
\<close>

unbundle bit_operations_syntax

section \<open>Key components\<close>

definition hex_byte :: "char \<Rightarrow> string" where
  "hex_byte c = [hex_digit (of_char c div 16), hex_digit (of_char c mod 16)]"

(* src: src/src/engine.rs:2188-2195 encode_component *)
definition encode_component :: "string \<Rightarrow> string" where
  "encode_component s = concat (map hex_byte s)"

text \<open>\<open>u8::from_str_radix(_, 16)\<close> on two characters; a leading plus sign is accepted.\<close>
definition hex_value :: "char \<Rightarrow> nat option" where
  "hex_value c =
    (if CHR ''0'' \<le> c \<and> c \<le> CHR ''9'' then Some (of_char c - 48)
     else if CHR ''a'' \<le> c \<and> c \<le> CHR ''f'' then Some (of_char c - 87)
     else if CHR ''A'' \<le> c \<and> c \<le> CHR ''F'' then Some (of_char c - 55)
     else None)"

definition parse_hex_pair :: "char \<Rightarrow> char \<Rightarrow> char option" where
  "parse_hex_pair a b =
    (if a = CHR ''+'' then map_option char_of (hex_value b)
     else case (hex_value a, hex_value b) of
            (Some x, Some y) \<Rightarrow> Some (char_of (16 * x + y))
          | _ \<Rightarrow> None)"

fun parse_hex_pairs :: "string \<Rightarrow> string option" where
  "parse_hex_pairs [] = Some []"
| "parse_hex_pairs [_] = None"
| "parse_hex_pairs (a # b # s) =
    (case (parse_hex_pair a b, parse_hex_pairs s) of (Some c, Some r) \<Rightarrow> Some (c # r) | _ \<Rightarrow> None)"

text \<open>\<open>String::from_utf8\<close>: the well-formed byte sequences of the Unicode standard.\<close>
definition byte_in :: "nat \<Rightarrow> nat \<Rightarrow> char \<Rightarrow> bool" where
  "byte_in lo hi c = (lo \<le> of_char c \<and> of_char c \<le> hi)"

fun utf8_valid :: "string \<Rightarrow> bool" where
  "utf8_valid [] = True"
| "utf8_valid (a # s) =
    (if byte_in 0 127 a then utf8_valid s
     else case s of
       [] \<Rightarrow> False
     | b # s1 \<Rightarrow>
         if byte_in 194 223 a \<and> byte_in 128 191 b then utf8_valid s1
         else case s1 of
           [] \<Rightarrow> False
         | c # s2 \<Rightarrow>
             if byte_in 128 191 c \<and>
                (byte_in 224 224 a \<and> byte_in 160 191 b \<or>
                 byte_in 225 236 a \<and> byte_in 128 191 b \<or>
                 byte_in 237 237 a \<and> byte_in 128 159 b \<or>
                 byte_in 238 239 a \<and> byte_in 128 191 b)
             then utf8_valid s2
             else case s2 of
               [] \<Rightarrow> False
             | d # s3 \<Rightarrow>
                 byte_in 128 191 c \<and> byte_in 128 191 d \<and>
                 (byte_in 240 240 a \<and> byte_in 144 191 b \<or>
                  byte_in 241 243 a \<and> byte_in 128 191 b \<or>
                  byte_in 244 244 a \<and> byte_in 128 143 b) \<and> utf8_valid s3)"

text \<open>
  \<open>None\<close> stands for every input that is not decoded: an odd length, a pair that is not
  hexadecimal, and bytes that are not UTF-8.
\<close>
(* src: src/src/engine.rs:2201-2220 decode_component *)
definition decode_component :: "string \<Rightarrow> string option" where
  "decode_component s =
    (case parse_hex_pairs s of
       Some r \<Rightarrow> (if utf8_valid r then Some r else None)
     | None \<Rightarrow> None)"

(* src: src/src/engine.rs:2222-2224 node_matches_root *)
definition node_matches_root :: "string \<Rightarrow> string \<Rightarrow> bool" where
  "node_matches_root node_id root = (node_id = root \<or> starts_with node_id (root @ ''/''))"

(* src: src/src/engine.rs:2226-2235 operation_matches_root *)
definition operation_matches_root :: "operation \<Rightarrow> string \<Rightarrow> bool" where
  "operation_matches_root op root = node_matches_root (action_node (action op)) root"

section \<open>Sortable keys\<close>

text \<open>The format \<open>{:016x}\<close>.\<close>
definition hex16 :: "u64 \<Rightarrow> string" where
  "hex16 w = map (\<lambda>i. hex_digit (unat w div 16 ^ (15 - i))) [0..<16]"

definition sortable_bits :: "f64 \<Rightarrow> u64" where
  "sortable_bits x =
    (let bits = f64_bits x
     in if drop_bit 63 bits = 0 then bits XOR push_bit 63 1 else NOT bits)"

(* src: src/src/engine.rs:2055-2072 sortable_scalar_key *)
fun sortable_scalar_key :: "json \<Rightarrow> string option" where
  "sortable_scalar_key (JString s) = Some (''s_'' @ encode_component s)"
| "sortable_scalar_key (JNumber n) =
    (case number_as_f64 n of Some x \<Rightarrow> Some (''n_'' @ hex16 (sortable_bits x)) | None \<Rightarrow> None)"
| "sortable_scalar_key (JBool b) = Some (''b_'' @ (if b then ''1'' else ''0''))"
| "sortable_scalar_key JNull = Some ''z_null''"
| "sortable_scalar_key _ = None"

(* src: src/src/engine.rs:2074-2081 direct_index_key *)
definition direct_index_key :: "string \<Rightarrow> string \<Rightarrow> string \<Rightarrow> string" where
  "direct_index_key path sortable_key node_id =
    ''direct/'' @ encode_component path @ ''/'' @ sortable_key @ ''/'' @ encode_component node_id"

(* src: src/src/engine.rs:2083-2098 direct_index_key_parts *)
definition direct_index_key_parts :: "string \<Rightarrow> (string \<times> string \<times> string) option" where
  "direct_index_key_parts key =
    (case split_on CHR ''/'' key of
       [d, path, sortable_key, node_id] \<Rightarrow> (if d = ''direct'' then Some (path, sortable_key, node_id) else None)
     | _ \<Rightarrow> None)"

(* src: src/src/engine.rs:109-114 DirectScalarIndexEntry *)
record direct_scalar_index_entry =
  ie_node_id :: node_id
  ie_path :: string
  ie_value :: json
  ie_sortable_key :: string

(* src: src/src/engine.rs:123-143 DirectIndexScan *)
record direct_index_scan =
  dis_exact_sortable_key :: "string option"
  dis_prefix_sortable_key :: "string option"
  dis_start_at :: "string option"
  dis_start_after :: "string option"
  dis_end_at :: "string option"
  dis_end_before :: "string option"
  dis_limit :: "usize option"
  dis_offset :: usize
  dis_candidate_ids :: "node_id fset option"

(* src: src/src/engine.rs:147-177 DirectIndexScan::matches_sortable_key *)
definition matches_sortable_key :: "direct_index_scan \<Rightarrow> string \<Rightarrow> bool" where
  "matches_sortable_key scan candidate =
    (case dis_exact_sortable_key scan of
       Some exact \<Rightarrow> candidate = exact
     | None \<Rightarrow>
         (case dis_prefix_sortable_key scan of None \<Rightarrow> True | Some p \<Rightarrow> starts_with candidate p) \<and>
         (case dis_start_at scan of None \<Rightarrow> True | Some s \<Rightarrow> \<not> candidate < s) \<and>
         (case dis_start_after scan of None \<Rightarrow> True | Some s \<Rightarrow> \<not> candidate \<le> s) \<and>
         (case dis_end_at scan of None \<Rightarrow> True | Some e \<Rightarrow> \<not> candidate > e) \<and>
         (case dis_end_before scan of None \<Rightarrow> True | Some e \<Rightarrow> \<not> candidate \<ge> e))"

(* src: src/src/engine.rs:180-184 DirectIndexScan::matches_candidate *)
definition matches_candidate :: "direct_index_scan \<Rightarrow> node_id \<Rightarrow> bool" where
  "matches_candidate scan node_id =
    (case dis_candidate_ids scan of None \<Rightarrow> True | Some ids \<Rightarrow> node_id |\<in>| ids)"

(* src: src/src/engine.rs:2116-2131 apply_direct_index_window *)
definition apply_direct_index_window :: "'a list \<Rightarrow> usize \<Rightarrow> usize option \<Rightarrow> 'a list" where
  "apply_direct_index_window entries offset limit =
    (if offset \<ge> length entries then []
     else let rest = drop offset entries
          in case limit of Some l \<Rightarrow> take l rest | None \<Rightarrow> rest)"

section \<open>Pruning record scans\<close>

text \<open>The characters of a UTF-8 string: a leading byte with the continuation bytes after it.\<close>
fun utf8_chars :: "string \<Rightarrow> string list" where
  "utf8_chars [] = []"
| "utf8_chars (a # s) =
    (case utf8_chars s of
       [] \<Rightarrow> [[a]]
     | p # ps \<Rightarrow> (if utf8_continuation (hd s) then (a # p) # ps else [a] # p # ps))"

fun common_list_prefix :: "'a list \<Rightarrow> 'a list \<Rightarrow> 'a list" where
  "common_list_prefix (a # as) (b # bs) = (if a = b then a # common_list_prefix as bs else [])"
| "common_list_prefix _ _ = []"

(* src: src/src/engine.rs:2176-2186 common_string_prefix *)
definition common_string_prefix :: "string \<Rightarrow> string \<Rightarrow> string" where
  "common_string_prefix l r = concat (common_list_prefix (utf8_chars l) (utf8_chars r))"

definition or_else :: "'a option \<Rightarrow> 'a option \<Rightarrow> 'a option" where
  "or_else a b = (case a of Some x \<Rightarrow> Some x | None \<Rightarrow> b)"

(* src: src/src/engine.rs:2150-2174 record_scan_key_prefix *)
definition record_scan_key_prefix :: "record_scan \<Rightarrow> string option" where
  "record_scan_key_prefix scan =
    (case rs_prefix scan of
       Some p \<Rightarrow> Some p
     | None \<Rightarrow>
         let lower = (if rs_reverse scan then or_else (rs_start_at scan) (rs_start_after scan)
                      else or_else (rs_cursor scan) (or_else (rs_start_at scan) (rs_start_after scan)));
             upper = (if rs_reverse scan
                      then or_else (rs_cursor scan) (or_else (rs_end_at scan) (rs_end_before scan))
                      else or_else (rs_end_at scan) (rs_end_before scan))
         in case (lower, upper) of
              (Some l, Some u) \<Rightarrow>
                (let common = common_string_prefix l u in if common = [] then None else Some common)
            | _ \<Rightarrow> None)"

section \<open>Record nodes\<close>

text \<open>The hash \<open>blake3::hash(..).to_hex()\<close> is a parameter.\<close>
(* src: src/src/engine.rs:2237-2242 record_node_id *)
definition record_node_id :: "(string \<Rightarrow> string) \<Rightarrow> string \<Rightarrow> node_id" where
  "record_node_id blake3_hex key = ''__primadb_records/'' @ blake3_hex key"

(* src: src/src/engine.rs:2244-2246 is_record_node_id *)
definition is_record_node_id :: "node_id \<Rightarrow> bool" where
  "is_record_node_id n = starts_with n ''__primadb_records/''"

(* src: src/src/engine.rs:2248-2256 record_key_from_node_state *)
definition record_key_from_node_state :: "node_state \<Rightarrow> string option" where
  "record_key_from_node_state st =
    (case fmlookup (nst_fields st) ''key'' of
       Some fs \<Rightarrow> (case fld_value fs of FScalar (JString key) \<Rightarrow> Some key | _ \<Rightarrow> None)
     | None \<Rightarrow> None)"

(* src: src/src/engine.rs:2258-2268 record_entry_from_node_state *)
definition record_entry_from_node_state :: "node_state \<Rightarrow> record_entry option" where
  "record_entry_from_node_state st =
    (case record_key_from_node_state st of
       None \<Rightarrow> None
     | Some key \<Rightarrow>
         (case fmlookup (nst_fields st) ''value'' of
            None \<Rightarrow> None
          | Some fs \<Rightarrow>
              (case fld_value fs of
                 FScalar v \<Rightarrow> Some \<lparr> re_key = key, re_value = RJson v \<rparr>
               | FBytes b \<Rightarrow> Some \<lparr> re_key = key, re_value = RBytes b \<rparr>
               | FBlob r \<Rightarrow> Some \<lparr> re_key = key, re_value = RBlob r \<rparr>
               | _ \<Rightarrow> None)))"

section \<open>Encodings preserve order and can be read back\<close>

lemma append_less_append:
  fixes a b :: "'a::linorder list"
  assumes "length a = length b"
  shows "a @ x < b @ y \<longleftrightarrow> a < b \<or> a = b \<and> x < y"
  using assms by (induction a b rule: list_induct2) auto

lemma concat_map_less:
  fixes f :: "'a::linorder \<Rightarrow> 'b::linorder list"
  assumes len: "\<And>c. length (f c) = k" and pos: "0 < k" and mono: "\<And>c d. f c < f d \<longleftrightarrow> c < d"
  shows "concat (map f s) < concat (map f t) \<longleftrightarrow> s < t"
proof (induction s arbitrary: t)
  case Nil
  have "[] < f c @ r" for c r using len [of c] pos by (cases "f c") auto
  then show ?case by (cases t) auto
next
  case (Cons c s)
  have inj: "f c = f d \<longleftrightarrow> c = d" for d using mono by (metis less_irrefl neq_iff)
  from Cons show ?case by (cases t) (auto simp: append_less_append len mono inj)
qed

lemma hex_digit_less: "m < 16 \<Longrightarrow> n < 16 \<Longrightarrow> hex_digit m < hex_digit n \<longleftrightarrow> m < n"
proof -
  have s: "sorted_wrt (<) ''0123456789abcdef''" by (simp add: less_char_def)
  assume "m < 16" "n < 16"
  then show ?thesis
    using sorted_wrt_nth_less [OF s, of m n] sorted_wrt_nth_less [OF s, of n m]
    by (cases m n rule: linorder_cases) (auto simp: hex_digit_def)
qed

lemma of_char_less_256: "(of_char c :: nat) < 256"
  by (metis UNIV_I image_eqI nat_of_char_less_256)

lemma less_div_mod:
  fixes m n k :: nat
  shows "m < n \<longleftrightarrow> m div k < n div k \<or> m div k = n div k \<and> m mod k < n mod k"
  by (metis div_le_mono div_mult_mod_eq less_le_not_le linorder_neqE_nat nat_add_left_cancel_less not_less)

lemma of_char_div_16: "(of_char c :: nat) div 16 < 16"
  using of_char_less_256 [of c] by (intro less_mult_imp_div_less) simp

lemma hex_byte_less: "hex_byte c < hex_byte d \<longleftrightarrow> c < d"
proof -
  note c = of_char_div_16 [of c] of_char_div_16 [of d]
  have "hex_byte c < hex_byte d \<longleftrightarrow>
    (of_char c :: nat) div 16 < of_char d div 16 \<or>
    (of_char c :: nat) div 16 = of_char d div 16 \<and> (of_char c :: nat) mod 16 < of_char d mod 16"
    using c hex_digit_inj [OF c] by (auto simp: hex_byte_def hex_digit_less)
  also have "\<dots> \<longleftrightarrow> (of_char c :: nat) < of_char d" by (rule less_div_mod [symmetric])
  finally show ?thesis by (simp add: less_char_def)
qed

lemma encode_component_less: "encode_component s < encode_component t \<longleftrightarrow> s < t"
  unfolding encode_component_def
  by (rule concat_map_less [where k = 2]) (simp_all add: hex_byte_less, simp add: hex_byte_def)

lemma encode_component_inj: "encode_component s = encode_component t \<longleftrightarrow> s = t"
  by (metis encode_component_less less_irrefl neq_iff)

lemma hex_value_digit: "n < 16 \<Longrightarrow> hex_value (hex_digit n) = Some n"
proof -
  assume "n < 16"
  then have "n \<in> set [0..<16]" by simp
  moreover have "\<forall>n \<in> set [0..<16]. hex_value (hex_digit n) = Some n" by code_simp
  ultimately show ?thesis by blast
qed

lemma hex_digit_not_plus: "hex_digit n \<noteq> CHR ''+''"
proof -
  have "hex_digit n = hex_digit (n mod 16)" by (simp add: hex_digit_def)
  moreover have "\<forall>n \<in> set [0..<16]. hex_digit n \<noteq> CHR ''+''" by code_simp
  ultimately show ?thesis by (metis atLeast_upt lessThan_iff mod_less_divisor zero_less_numeral)
qed

lemma parse_hex_byte: "parse_hex_pair (hex_digit (of_char c div 16)) (hex_digit (of_char c mod 16)) = Some c"
  using of_char_div_16 [of c] by (simp add: parse_hex_pair_def hex_digit_not_plus hex_value_digit)

lemma parse_encode: "parse_hex_pairs (encode_component s) = Some s"
  by (induction s) (simp_all add: encode_component_def hex_byte_def parse_hex_byte)

lemma decode_encode: "utf8_valid s \<Longrightarrow> decode_component (encode_component s) = Some s"
  by (simp add: decode_component_def parse_encode)

lemma encode_component_chars: "c \<in> set (encode_component s) \<Longrightarrow> c \<in> set ''0123456789abcdef''"
proof -
  assume "c \<in> set (encode_component s)"
  then obtain d where "c = ''0123456789abcdef'' ! (d mod 16)"
    by (auto simp: encode_component_def hex_byte_def hex_digit_def)
  then show ?thesis by (simp only:) (rule nth_mem, simp)
qed

lemma encode_component_no_slash: "CHR ''/'' \<notin> set (encode_component s)"
  using encode_component_chars [of "CHR ''/''" s] by auto

subsection \<open>Numbers\<close>

lemma length_hex16 [simp]: "length (hex16 w) = 16"
  by (simp add: hex16_def)

text \<open>Reading the digits from the left compares the numbers.\<close>
lemma digits_less:
  fixes m n :: nat
  shows "m < 16 ^ k \<Longrightarrow> n < 16 ^ k \<Longrightarrow>
    map (\<lambda>i. hex_digit (m div 16 ^ (k - 1 - i))) [0..<k] < map (\<lambda>i. hex_digit (n div 16 ^ (k - 1 - i))) [0..<k]
    \<longleftrightarrow> m < n"
proof (induction k arbitrary: m n)
  case (Suc k)
  let ?d = "\<lambda>m k. map (\<lambda>i. hex_digit (m div 16 ^ (k - 1 - i))) [0..<k]"
  have split: "?d m (Suc k) = hex_digit (m div 16 ^ k) # ?d (m mod 16 ^ k) k" for m :: nat
  proof -
    have "hex_digit (m div 16 ^ (k - Suc i)) = hex_digit (m mod 16 ^ k div 16 ^ (k - Suc i))" if "i < k" for i
    proof -
      have k: "(16::nat) ^ k = 16 ^ (k - Suc i) * 16 ^ Suc i" 
        unfolding power_add [symmetric] using that by simp
      have "m mod 16 ^ k div 16 ^ (k - Suc i) = m div 16 ^ (k - Suc i) mod 16 ^ Suc i"
        unfolding k by (simp add: mod_mult2_eq)
      also have "\<dots> mod 16 = m div 16 ^ (k - Suc i) mod 16"
        by (simp add: mod_mult2_eq)
      finally show ?thesis by (simp add: hex_digit_def)
    qed
    then show ?thesis
      by (simp add: upt_conv_Cons map_Suc_upt [symmetric] del: upt_Suc)
  qed
  have lt: "m div 16 ^ k < 16" "n div 16 ^ k < 16"
    using Suc.prems by (simp_all add: less_mult_imp_div_less)
  have mods: "m mod 16 ^ k < 16 ^ k" "n mod 16 ^ k < 16 ^ k" by simp_all
  note less_div_mod [of m n "16 ^ k"]
  with Suc.IH [OF mods] lt hex_digit_inj [OF lt] show ?case
    unfolding split by (auto simp: hex_digit_less)
qed simp

lemma hex16_less: "hex16 v < hex16 w \<longleftrightarrow> v < w"
proof -
  have "unat v < 16 ^ 16" "unat w < 16 ^ 16"
    using unsigned_less [of v] unsigned_less [of w] by simp_all
  from digits_less [OF this] show ?thesis by (simp add: hex16_def word_less_nat_alt)
qed

lemma f64_negative_bit: "drop_bit 63 (f64_bits x) = 0 \<longleftrightarrow> \<not> f64_negative x"
proof -
  have "drop_bit 63 (f64_bits x) = 0 \<longleftrightarrow> unat (drop_bit 63 (f64_bits x)) = 0"
    by (simp add: unat_eq_0)
  also have "unat (drop_bit 63 (f64_bits x)) = unat (f64_bits x) div 2 ^ 63"
    unfolding unat_drop_bit_eq by (rule drop_bit_eq_div)
  also have "\<dots> = 0 \<longleftrightarrow> \<not> f64_negative x"
    unfolding f64_negative_def by (simp add: div_eq_0_iff not_le)
  finally show ?thesis .
qed

lemma unat_xor_top:
  fixes w :: "64 word"
  assumes "unat w < 2 ^ 63"
  shows "unat (w XOR push_bit 63 1) = unat w + 2 ^ 63"
proof -
  have "unat w div 2 ^ 63 = 0" using assms by (rule div_less)
  then have "\<not> bit (unat w) 63" by (simp only: bit_iff_odd) simp
  then have "\<not> bit w 63" by (simp add: bit_unsigned_iff)
  have top: "bit (push_bit 63 1 :: 64 word) n \<Longrightarrow> n = 63" for n
    unfolding bit_push_bit_iff bit_1_iff by auto
  have "w AND push_bit 63 1 = 0"
    by (rule bit_word_eqI) (use top \<open>\<not> bit w 63\<close> in \<open>unfold bit_and_iff, auto simp only: bit_0_eq bot_apply bot_bool_def\<close>)
  then have "w XOR push_bit 63 1 = w + push_bit 63 1"
    by (simp add: disjunctive_xor_eq_or disjunctive_add_eq_or)
  moreover have "unat (push_bit 63 1 :: 64 word) = 2 ^ 63" by (simp add: push_bit_eq_mult)
  ultimately show ?thesis
    using assms by (simp add: unat_word_ariths)
qed

lemma unat_not_word: "unat (NOT w) = 2 ^ 64 - 1 - unat w" for w :: "64 word"
proof -
  have "NOT w = - 1 - w" by (simp add: not_eq_complement)
  moreover have "w \<le> - 1" by simp
  ultimately show ?thesis
    by (simp add: unat_sub unsigned_minus_1_eq_mask mask_eq_exp_minus_1)
qed

lemma unat_sortable_bits:
  "unat (sortable_bits x) =
    (if f64_negative x then 2 ^ 63 - 1 - f64_magnitude x else 2 ^ 63 + f64_magnitude x)"
proof -
  note split = f64_bits_split [of x]
  show ?thesis
  proof (cases "f64_negative x")
    case True
    with split have "unat (f64_bits x) = 2 ^ 63 + f64_magnitude x" by simp
    with True show ?thesis by (simp add: sortable_bits_def f64_negative_bit unat_not_word)
  next
    case False
    with split have b: "unat (f64_bits x) = f64_magnitude x" by simp
    have "f64_magnitude x < 2 ^ 63" unfolding f64_magnitude_def by simp
    with unat_xor_top [of "f64_bits x"] b
    have "unat (f64_bits x XOR push_bit 63 1) = f64_magnitude x + 2 ^ 63" by metis
    moreover have "sortable_bits x = f64_bits x XOR push_bit 63 1"
      using False by (simp only: sortable_bits_def Let_def f64_negative_bit if_True simp_thms)
    ultimately show ?thesis using False by (simp only: if_False add.commute)
  qed
qed

lemma sortable_bits_less:
  assumes "\<not> (f64_magnitude a = 0 \<and> f64_magnitude b = 0)"
  shows "sortable_bits a < sortable_bits b \<longleftrightarrow> f64_scaled a < f64_scaled b"
proof -
  have lt: "f64_magnitude x < 2 ^ 63" for x unfolding f64_magnitude_def by simp
  have zero: "magnitude_scaled m = 0 \<longleftrightarrow> m = 0" for m
    by (metis magnitude_scaled_0 magnitude_scaled_inj)
  have "unat (sortable_bits a) < unat (sortable_bits b) \<longleftrightarrow>
     (if f64_negative a then (if f64_negative b then f64_magnitude b < f64_magnitude a else True)
      else (if f64_negative b then False else f64_magnitude a < f64_magnitude b))"
    using lt [of a] lt [of b] by (auto simp: unat_sortable_bits)
  also have "\<dots> \<longleftrightarrow> f64_scaled a < f64_scaled b"
    using assms zero [of "f64_magnitude a"] zero [of "f64_magnitude b"]
      magnitude_scaled_strict_mono [of "f64_magnitude a" "f64_magnitude b"]
      magnitude_scaled_strict_mono [of "f64_magnitude b" "f64_magnitude a"]
    by (auto simp: f64_scaled_def)
  finally show ?thesis by (simp add: word_less_nat_alt)
qed

lemma sortable_bits_inj: "sortable_bits a = sortable_bits b \<longleftrightarrow> a = b"
proof
  assume eq: "sortable_bits a = sortable_bits b"
  have lt: "f64_magnitude x < 2 ^ 63" for x unfolding f64_magnitude_def by simp
  from eq have "unat (sortable_bits a) = unat (sortable_bits b)" by simp
  then have "f64_negative a = f64_negative b \<and> f64_magnitude a = f64_magnitude b"
    unfolding unat_sortable_bits using lt [of a] lt [of b] by (auto split: if_splits)
  then show "a = b" by (auto intro: f64_eqI)
qed simp

subsection \<open>Scalars\<close>

text \<open>Two numbers that denote zero with different signs.\<close>
definition mixed_zeros :: "json \<Rightarrow> json \<Rightarrow> bool" where
  "mixed_zeros v w \<longleftrightarrow>
    (\<exists>a b. as_f64 v = Some a \<and> as_f64 w = Some b \<and> f64_magnitude a = 0 \<and> f64_magnitude b = 0 \<and> a \<noteq> b)"

lemma hex16_inj: "hex16 v = hex16 w \<longleftrightarrow> v = w"
  by (metis hex16_less less_irrefl neq_iff)

lemma number_key_order:
  assumes "f64_partial_cmp a b = Some r" "\<not> (f64_magnitude a = 0 \<and> f64_magnitude b = 0 \<and> a \<noteq> b)"
  shows "cmp (''n_'' @ hex16 (sortable_bits a)) (''n_'' @ hex16 (sortable_bits b)) = r"
proof (cases "a = b")
  case True
  with assms(1) show ?thesis by (auto simp: f64_partial_cmp_def cmp_def split: if_splits)
next
  case False
  with assms(2) have nz: "\<not> (f64_magnitude a = 0 \<and> f64_magnitude b = 0)" by simp
  then have "f64_scaled a \<noteq> f64_scaled b" using False by (simp add: f64_scaled_eq_iff)
  moreover from assms(1) have "r = cmp (f64_scaled a) (f64_scaled b)"
    by (simp add: f64_partial_cmp_def split: if_splits)
  moreover have "cmp (''n_'' @ hex16 (sortable_bits a)) (''n_'' @ hex16 (sortable_bits b)) =
      cmp (sortable_bits a) (sortable_bits b)"
    by (simp add: cmp_def hex16_less hex16_inj)
  ultimately show ?thesis
    using sortable_bits_less [OF nz] False by (auto simp: cmp_def sortable_bits_inj)
qed

lemma scalar_key_order:
  assumes "sortable_scalar_key v = Some k" "sortable_scalar_key w = Some l"
    and "compare_json_values v w = Some r" "\<not> mixed_zeros v w"
  shows "cmp k l = r"
  using assms
proof (induction v w rule: compare_json_values.induct)
  case (2 m n)
  then obtain a b where ab: "number_as_f64 m = Some a" "number_as_f64 n = Some b"
    by (cases m; cases n) auto
  with 2 show ?case using number_key_order [of a b r] by (auto simp: mixed_zeros_def)
next
  case (1 s t)
  then have "k = ''s_'' @ encode_component s" "l = ''s_'' @ encode_component t" "r = cmp s t" by simp_all
  then show ?case by (simp add: cmp_def encode_component_less encode_component_inj)
next
  case (3 a b)
  then show ?case by (cases a; cases b) (auto simp: cmp_def less_char_def)
qed (auto simp: cmp_def)

text \<open>
  C29: Index keys sort like values.  Whenever two JSON scalars are comparable (both strings,
  numbers, booleans or null), comparing their sortable keys as strings gives the same result as
  comparing the values, so a range scan over keys is a range scan over values.  The only
  exception is the pair of a positive and a negative zero.
\<close>
theorem sortable_keys_preserve_order:
  assumes "sortable_scalar_key v = Some k" "sortable_scalar_key w = Some l"
    and "compare_json_values v w = Some r" "\<not> mixed_zeros v w"
  shows "cmp k l = r"
  using assms by (rule scalar_key_order)

theorem sortable_keys_preserve_order_witness:
  "cmp (''n_'' @ hex16 (sortable_bits (F64 0xC000000000000000))) (''n_'' @ hex16 (sortable_bits (F64 0x3FF0000000000000))) = Less"
  using sortable_keys_preserve_order [of "JNumber (Float (F64 0xC000000000000000))"
      "''n_'' @ hex16 (sortable_bits (F64 0xC000000000000000))" "JNumber (Float (F64 0x3FF0000000000000))"
      "''n_'' @ hex16 (sortable_bits (F64 0x3FF0000000000000))" Less]
  by (simp add: mixed_zeros_def f64_magnitude_def f64_partial_cmp_def f64_nan_def f64_scaled_def
      f64_negative_def magnitude_scaled_def)

text \<open>
  The zeros disagree.  The JSON numbers \<open>0.0\<close> and \<open>-0.0\<close> are equal (and compare as equal),
  but their index keys differ, so an index lookup for one does not find the other.
\<close>
lemma minus_zero_has_its_own_key:
  "json_eq (JNumber (Float (F64 0))) (JNumber (Float (F64 0x8000000000000000))) \<and>
   compare_json_values (JNumber (Float (F64 0))) (JNumber (Float (F64 0x8000000000000000))) = Some Equal \<and>
   sortable_scalar_key (JNumber (Float (F64 0))) \<noteq> sortable_scalar_key (JNumber (Float (F64 0x8000000000000000)))"
proof -
  have "f64_partial_cmp (F64 0) (F64 0x8000000000000000) = Some Equal"
    by (simp add: f64_partial_cmp_def f64_nan_def f64_magnitude_def f64_scaled_def f64_negative_def)
  then show ?thesis by (simp add: f64_eq_def hex16_inj sortable_bits_inj)
qed

section \<open>Keys of the direct index\<close>

lemma hex16_chars: "c \<in> set (hex16 w) \<Longrightarrow> c \<in> set ''0123456789abcdef''"
proof -
  assume "c \<in> set (hex16 w)"
  then obtain d where "c = ''0123456789abcdef'' ! (d mod 16)" by (auto simp: hex16_def hex_digit_def)
  then show ?thesis by (simp only:) (rule nth_mem, simp)
qed

lemma sortable_key_no_slash: "sortable_scalar_key v = Some k \<Longrightarrow> CHR ''/'' \<notin> set k"
  using hex16_chars [of "CHR ''/''"] encode_component_no_slash
  by (cases v) (auto split: option.splits if_splits)

text \<open>
  C30: Index keys can be taken apart.  The key built from a field path, the sortable key of a
  scalar and a node identifier splits into exactly these three parts, whatever characters the
  path and the identifier contain, and the encoded parts decode to the originals.
\<close>
theorem direct_index_key_roundtrip:
  assumes "sortable_scalar_key v = Some k" "utf8_valid path" "utf8_valid node"
  shows "direct_index_key_parts (direct_index_key path k node) =
      Some (encode_component path, k, encode_component node) \<and>
    decode_component (encode_component path) = Some path \<and>
    decode_component (encode_component node) = Some node"
proof -
  have "direct_index_key path k node =
      join ''/'' [''direct'', encode_component path, k, encode_component node]"
    by (simp add: direct_index_key_def)
  then have "split_on CHR ''/'' (direct_index_key path k node) =
      [''direct'', encode_component path, k, encode_component node]"
    using sortable_key_no_slash [OF assms(1)]
    by (simp only:) (rule split_on_join, auto simp: encode_component_no_slash)
  with assms show ?thesis by (simp add: direct_index_key_parts_def decode_encode)
qed

theorem direct_index_key_roundtrip_witness:
  "direct_index_key_parts (direct_index_key ''a/b'' ''b_1'' ''users/x'') =
    Some (encode_component ''a/b'', ''b_1'', encode_component ''users/x'')"
  using direct_index_key_roundtrip [of "JBool True" "''b_1''" "''a/b''" "''users/x''"]
  by (simp add: byte_in_def)

section \<open>Pruning record scans is sound\<close>

lemma concat_utf8_chars [simp]: "concat (utf8_chars s) = s"
  by (induction s) (auto split: list.splits)

lemma common_list_prefix_prefix:
  "prefix (common_list_prefix l r) l" "prefix (common_list_prefix l r) r"
  by (induction l r rule: common_list_prefix.induct) auto

lemma prefix_concat: "prefix a b \<Longrightarrow> prefix (concat a) (concat b)"
  by (auto simp: prefix_def)

lemma common_string_prefix_prefix:
  "prefix (common_string_prefix l r) l" "prefix (common_string_prefix l r) r"
  using prefix_concat [OF common_list_prefix_prefix(1), of "utf8_chars l" "utf8_chars r"]
    prefix_concat [OF common_list_prefix_prefix(2), of "utf8_chars l" "utf8_chars r"]
  by (simp_all add: common_string_prefix_def)

lemma prefix_Cons_iff: "prefix (c # p) l \<longleftrightarrow> (\<exists>l'. l = c # l' \<and> prefix p l')"
  by (cases l) auto

lemma between_prefix:
  fixes l k u :: string
  shows "prefix p l \<Longrightarrow> prefix p u \<Longrightarrow> l \<le> k \<Longrightarrow> k \<le> u \<Longrightarrow> prefix p k"
proof (induction p arbitrary: l k u)
  case (Cons c p)
  obtain l' where l: "l = c # l'" "prefix p l'" using Cons.prems(1) unfolding prefix_Cons_iff by blast
  obtain u' where u: "u = c # u'" "prefix p u'" using Cons.prems(2) unfolding prefix_Cons_iff by blast
  show ?case
  proof (cases k)
    case Nil
    with Cons.prems(3) l(1) show ?thesis by simp
  next
    case (Cons d k')
    with Cons.prems(3,4) l(1) u(1) have "c < d \<or> c = d \<and> l' \<le> k'" "d < c \<or> d = c \<and> k' \<le> u'" by simp_all
    then have "c = d" "l' \<le> k'" "k' \<le> u'" by auto
    with Cons.IH [OF l(2) u(2), of k'] Cons show ?thesis by simp
  qed
qed simp

text \<open>
  Every key a scan accepts starts with the prefix the storage engine derives from the scan (the
  explicit prefix, or the common prefix of the lower and the upper bound, with the cursor taken
  into account), in both directions.
\<close>
lemma record_scan_prefix_sound:
  assumes "record_scan_key_prefix scan = Some p" "matches_key scan key"
  shows "starts_with key p"
proof (cases "rs_prefix scan")
  case (Some q)
  with assms show ?thesis by (simp add: record_scan_key_prefix_def matches_key_def)
next
  case None
  from assms(1) None obtain l u where lu: "p = common_string_prefix l u"
    "(if rs_reverse scan then or_else (rs_start_at scan) (rs_start_after scan)
      else or_else (rs_cursor scan) (or_else (rs_start_at scan) (rs_start_after scan))) = Some l"
    "(if rs_reverse scan then or_else (rs_cursor scan) (or_else (rs_end_at scan) (rs_end_before scan))
      else or_else (rs_end_at scan) (rs_end_before scan)) = Some u"
    by (auto simp: record_scan_key_prefix_def Let_def split: option.splits if_splits)
  have "l \<le> key" "key \<le> u"
    using lu(2,3) assms(2)
    by (auto simp: matches_key_def or_else_def not_le not_less split: option.splits if_splits)
  with lu(1) common_string_prefix_prefix [of l u] show ?thesis
    by (auto simp: starts_with_iff_prefix intro: between_prefix)
qed

end
