(* ===== verification/RelIndex.thy ===== *)
theory RelIndex
  imports Values "HOL-Library.Product_Lexorder"
begin

text \<open>
  The relationship index of \<open>src/src/db.rs\<close> (\<open>RelationshipIndex\<close>): the outbound and inbound
  edges of every node, kept next to the node states.  The contract of such an index is the
  locale \<open>edge_index\<close>: it represents a set of edges.  The lemmas discharge the contract for the
  two-map representation, show that the representation of a set of edges is unique, and that
  reindexing a node makes its edges exactly those of its link and set fields.
\<close>

section \<open>Order on edges\<close>

fun edge_kind_rank :: "traversal_edge_kind \<Rightarrow> nat" where
  "edge_kind_rank LinkEdge = 0"
| "edge_kind_rank SetMemberEdge = 1"

text \<open>The derived order compares source, field, target and kind in turn.\<close>
definition edge_sort_key :: "traversal_edge \<Rightarrow> string \<times> string \<times> string \<times> nat" where
  "edge_sort_key e = (te_source e, te_field e, te_target e, edge_kind_rank (te_kind e))"

lemma edge_sort_key_inj: "edge_sort_key a = edge_sort_key b \<longleftrightarrow> a = b"
proof -
  have "edge_kind_rank k = edge_kind_rank l \<longleftrightarrow> k = l" for k l by (cases k; cases l) auto
  then show ?thesis by (cases a; cases b) (simp add: edge_sort_key_def)
qed

instantiation traversal_edge :: linorder
begin

definition less_traversal_edge :: "traversal_edge \<Rightarrow> traversal_edge \<Rightarrow> bool" where
  "less_traversal_edge a b = (edge_sort_key a < edge_sort_key b)"

definition less_eq_traversal_edge :: "traversal_edge \<Rightarrow> traversal_edge \<Rightarrow> bool" where
  "less_eq_traversal_edge a b = (edge_sort_key a \<le> edge_sort_key b)"

instance
proof
  fix a b :: traversal_edge
  show "a \<le> b \<Longrightarrow> b \<le> a \<Longrightarrow> a = b"
    unfolding less_eq_traversal_edge_def by (metis edge_sort_key_inj order_antisym)
qed (auto simp: less_traversal_edge_def less_eq_traversal_edge_def)

end

section \<open>Model\<close>

(* src: src/src/db.rs:453-457 RelationshipIndex *)
record relationship_index =
  outbound :: "(node_id, traversal_edge fset) fmap"
  inbound :: "(node_id, traversal_edge fset) fmap"

definition relationship_index_empty :: relationship_index where
  "relationship_index_empty = \<lparr> outbound = fmempty, inbound = fmempty \<rparr>"

definition entry_set :: "('k, 'v fset) fmap \<Rightarrow> 'k \<Rightarrow> 'v fset" where
  "entry_set m k = (case fmlookup m k of Some s \<Rightarrow> s | None \<Rightarrow> {||})"

(* src: src/src/db.rs:468-477 RelationshipIndex::insert *)
definition rel_insert :: "traversal_edge \<Rightarrow> relationship_index \<Rightarrow> relationship_index" where
  "rel_insert e ri =
    ri\<lparr> outbound := fmupd (te_source e) (finsert e (entry_set (outbound ri) (te_source e))) (outbound ri),
        inbound := fmupd (te_target e) (finsert e (entry_set (inbound ri) (te_target e))) (inbound ri) \<rparr>"

text \<open>One step of the loop of \<open>remove_source\<close>: take an edge out of its target's inbound set.\<close>
definition remove_inbound :: "traversal_edge \<Rightarrow> (node_id, traversal_edge fset) fmap \<Rightarrow> (node_id, traversal_edge fset) fmap" where
  "remove_inbound e inb =
    (case fmlookup inb (te_target e) of
       Some s \<Rightarrow> (let s' = s |-| {|e|} in
                  if s' = {||} then fmdrop (te_target e) inb else fmupd (te_target e) s' inb)
     | None \<Rightarrow> inb)"

(* src: src/src/db.rs:479-494 RelationshipIndex::remove_source *)
definition remove_source :: "node_id \<Rightarrow> relationship_index \<Rightarrow> relationship_index" where
  "remove_source source ri =
    (case fmlookup (outbound ri) source of
       None \<Rightarrow> ri
     | Some edges \<Rightarrow>
         ri\<lparr> outbound := fmdrop source (outbound ri),
             inbound := fold remove_inbound (sorted_list_of_fset edges) (inbound ri) \<rparr>)"

text \<open>The edges of a node, in the order \<open>reindex_node_relationships\<close> inserts them.\<close>
definition field_edges :: "node_id \<Rightarrow> string \<Rightarrow> field_value \<Rightarrow> traversal_edge list" where
  "field_edges node f v =
    (case v of
       FLink target \<Rightarrow> [TraversalEdge node f target LinkEdge]
     | FSet s \<Rightarrow> map (\<lambda>target. TraversalEdge node f target SetMemberEdge) (sorted_list_of_fset (fmdom (members s)))
     | _ \<Rightarrow> [])"

definition node_edges :: "node_id \<Rightarrow> node_state \<Rightarrow> traversal_edge list" where
  "node_edges node st =
    concat (map (\<lambda>(f, fs). field_edges node f (fld_value fs)) (sorted_list_of_fmap (nst_fields st)))"

(* src: src/src/db.rs:6456-6489 Inner::reindex_node_relationships *)
definition reindex :: "node_id \<Rightarrow> (node_id, node_state) fmap \<Rightarrow> relationship_index \<Rightarrow> relationship_index" where
  "reindex node nodes ri =
    (let ri' = remove_source node ri in
     case fmlookup nodes node of
       None \<Rightarrow> ri'
     | Some st \<Rightarrow> fold rel_insert (node_edges node st) ri')"

(* src: src/src/db.rs:6428-6434 Inner::rebuild_relationship_index *)
definition rebuild_relationship_index :: "(node_id, node_state) fmap \<Rightarrow> relationship_index" where
  "rebuild_relationship_index nodes =
    fold (\<lambda>node. reindex node nodes) (sorted_list_of_fset (fmdom nodes)) relationship_index_empty"

section \<open>The contract of an edge index\<close>

locale edge_index =
  fixes ins :: "traversal_edge \<Rightarrow> 'i \<Rightarrow> 'i"
    and del :: "node_id \<Rightarrow> 'i \<Rightarrow> 'i"
    and edges :: "'i \<Rightarrow> traversal_edge set"
    and inv :: "'i \<Rightarrow> bool"
  assumes ins_inv: "inv i \<Longrightarrow> inv (ins e i)"
    and ins_edges: "inv i \<Longrightarrow> edges (ins e i) = insert e (edges i)"
    and del_inv: "inv i \<Longrightarrow> inv (del n i)"
    and del_edges: "inv i \<Longrightarrow> edges (del n i) = {e \<in> edges i. te_source e \<noteq> n}"
    and canonical: "inv i \<Longrightarrow> inv j \<Longrightarrow> edges i = edges j \<Longrightarrow> i = j"
begin

lemma fold_ins: "inv i \<Longrightarrow> inv (fold ins es i) \<and> edges (fold ins es i) = set es \<union> edges i"
  by (induction es arbitrary: i) (auto simp: ins_inv ins_edges)

lemma replace_source:
  "inv i \<Longrightarrow> inv (fold ins es (del n i)) \<and>
    edges (fold ins es (del n i)) = set es \<union> {e \<in> edges i. te_source e \<noteq> n}"
  using fold_ins [OF del_inv, of i es n] by (simp add: del_edges)

end

section \<open>The two maps implement the contract\<close>

definition rel_edges :: "relationship_index \<Rightarrow> traversal_edge set" where
  "rel_edges ri = {e. e |\<in>| entry_set (outbound ri) (te_source e)}"

definition rel_inv :: "relationship_index \<Rightarrow> bool" where
  "rel_inv ri \<longleftrightarrow>
    (\<forall>n s. fmlookup (outbound ri) n = Some s \<longrightarrow> s \<noteq> {||}) \<and>
    (\<forall>n s. fmlookup (inbound ri) n = Some s \<longrightarrow> s \<noteq> {||}) \<and>
    (\<forall>n e. e |\<in>| entry_set (outbound ri) n \<longrightarrow> te_source e = n) \<and>
    (\<forall>n e. e |\<in>| entry_set (inbound ri) n \<longleftrightarrow> te_target e = n \<and> e \<in> rel_edges ri)"

lemma entry_set_fmupd [simp]: "entry_set (fmupd k s m) l = (if l = k then s else entry_set m l)"
  by (simp add: entry_set_def)

lemma entry_set_fmdrop [simp]: "entry_set (fmdrop k m) l = (if l = k then {||} else entry_set m l)"
  by (simp add: entry_set_def)

lemma entry_set_fmempty [simp]: "entry_set fmempty l = {||}"
  by (simp add: entry_set_def)

text \<open>No empty set is stored, so a map of sets is determined by its entry sets.\<close>
lemma entry_set_ext:
  assumes "\<And>k. entry_set m k = entry_set n k"
    and "\<And>k s. fmlookup m k = Some s \<Longrightarrow> s \<noteq> {||}" "\<And>k s. fmlookup n k = Some s \<Longrightarrow> s \<noteq> {||}"
  shows "m = n"
proof (rule fmap_ext)
  fix k
  show "fmlookup m k = fmlookup n k"
    using assms(1) [of k] assms(2) [of k] assms(3) [of k]
    by (cases "fmlookup m k"; cases "fmlookup n k") (auto simp: entry_set_def)
qed

lemma entry_set_remove_inbound:
  "entry_set (remove_inbound e inb) n = (if n = te_target e then entry_set inb n |-| {|e|} else entry_set inb n)"
  by (auto simp: remove_inbound_def entry_set_def Let_def split: option.splits)

lemma nonempty_remove_inbound:
  "(\<And>n s. fmlookup inb n = Some s \<Longrightarrow> s \<noteq> {||}) \<Longrightarrow> fmlookup (remove_inbound e inb) n = Some s \<Longrightarrow> s \<noteq> {||}"
  by (auto simp: remove_inbound_def Let_def split: option.splits if_splits)

lemma fold_remove_inbound:
  "(\<forall>n s. fmlookup inb n = Some s \<longrightarrow> s \<noteq> {||}) \<Longrightarrow>
   (\<forall>n s. fmlookup (fold remove_inbound es inb) n = Some s \<longrightarrow> s \<noteq> {||}) \<and>
   (\<forall>n e. e |\<in>| entry_set (fold remove_inbound es inb) n \<longleftrightarrow>
      e |\<in>| entry_set inb n \<and> \<not> (e \<in> set es \<and> te_target e = n))"
proof (induction es arbitrary: inb)
  case (Cons x es)
  have "\<forall>n s. fmlookup (remove_inbound x inb) n = Some s \<longrightarrow> s \<noteq> {||}"
    using nonempty_remove_inbound Cons.prems by blast
  from Cons.IH [OF this] show ?case
    by (auto simp: entry_set_remove_inbound split: if_splits)
qed simp

lemma rel_inv_empty [simp]: "rel_inv relationship_index_empty" "rel_edges relationship_index_empty = {}"
  by (auto simp: rel_inv_def rel_edges_def relationship_index_empty_def)

lemma rel_edges_insert: "rel_edges (rel_insert e ri) = insert e (rel_edges ri)"
  by (auto simp: rel_edges_def rel_insert_def)

lemma rel_inv_insert: "rel_inv ri \<Longrightarrow> rel_inv (rel_insert e ri)"
  unfolding rel_inv_def rel_edges_insert
  by (auto simp: rel_insert_def split: if_splits)

lemma rel_edges_source: "rel_inv ri \<Longrightarrow> fset (entry_set (outbound ri) n) = {e \<in> rel_edges ri. te_source e = n}"
  by (auto simp: rel_inv_def rel_edges_def)

lemma remove_source_outbound: "outbound (remove_source n ri) = fmdrop n (outbound ri)"
proof (cases "fmlookup (outbound ri) n")
  case None
  then have "fmdrop n (outbound ri) = outbound ri" by (intro fmap_ext) auto
  with None show ?thesis by (simp add: remove_source_def)
qed (simp add: remove_source_def)

lemma rel_edges_remove: "rel_edges (remove_source n ri) = {e \<in> rel_edges ri. te_source e \<noteq> n}"
  by (auto simp: rel_edges_def remove_source_outbound)

lemma remove_source_inbound:
  assumes "rel_inv ri"
  shows "(\<forall>m s. fmlookup (inbound (remove_source n ri)) m = Some s \<longrightarrow> s \<noteq> {||}) \<and>
    (\<forall>m e. e |\<in>| entry_set (inbound (remove_source n ri)) m \<longleftrightarrow>
      te_target e = m \<and> e \<in> rel_edges ri \<and> te_source e \<noteq> n)"
proof (cases "fmlookup (outbound ri) n")
  case None
  with assms have "te_source e \<noteq> n" if "e \<in> rel_edges ri" for e
    using that by (auto simp: rel_edges_def entry_set_def)
  with None assms show ?thesis by (auto simp: remove_source_def rel_inv_def)
next
  case (Some s)
  then have s: "fset s = {e \<in> rel_edges ri. te_source e = n}"
    using rel_edges_source [OF assms, of n] by (simp add: entry_set_def)
  have ne: "\<forall>n s. fmlookup (inbound ri) n = Some s \<longrightarrow> s \<noteq> {||}" using assms by (simp add: rel_inv_def)
  show ?thesis
    using fold_remove_inbound [OF ne, of "sorted_list_of_fset s"] assms s
    by (auto simp: remove_source_def Some rel_inv_def)
qed

lemma rel_inv_remove: "rel_inv ri \<Longrightarrow> rel_inv (remove_source n ri)"
proof -
  assume inv: "rel_inv ri"
  have "\<forall>m s. fmlookup (outbound (remove_source n ri)) m = Some s \<longrightarrow> s \<noteq> {||}"
    using inv by (simp add: remove_source_outbound rel_inv_def)
  moreover have "\<forall>m e. e |\<in>| entry_set (outbound (remove_source n ri)) m \<longrightarrow> te_source e = m"
    using inv by (simp add: remove_source_outbound rel_inv_def)
  ultimately show ?thesis
    using remove_source_inbound [OF inv, of n] by (simp add: rel_inv_def [of "remove_source n ri"] rel_edges_remove)
qed

lemma rel_canonical:
  assumes "rel_inv i" "rel_inv j" "rel_edges i = rel_edges j"
  shows "i = j"
proof -
  have "outbound i = outbound j"
  proof (rule entry_set_ext)
    show "entry_set (outbound i) k = entry_set (outbound j) k" for k
      using rel_edges_source [OF assms(1), of k] rel_edges_source [OF assms(2), of k] assms(3)
      by (metis fset_inject)
  qed (use assms in \<open>auto simp: rel_inv_def\<close>)
  moreover have "inbound i = inbound j"
  proof (rule entry_set_ext)
    show "entry_set (inbound i) k = entry_set (inbound j) k" for k
      using assms by (intro fset_eqI) (simp add: rel_inv_def)
  qed (use assms in \<open>auto simp: rel_inv_def\<close>)
  ultimately show ?thesis by simp
qed

interpretation rel: edge_index rel_insert remove_source rel_edges rel_inv
  by unfold_locales
    (simp_all add: rel_inv_insert rel_edges_insert rel_inv_remove rel_edges_remove rel_canonical)

section \<open>Reindexing follows the node states\<close>

text \<open>The edges the fields of a node denote.\<close>
definition denoted_edges :: "(node_id, node_state) fmap \<Rightarrow> node_id \<Rightarrow> traversal_edge set" where
  "denoted_edges nodes n = (case fmlookup nodes n of None \<Rightarrow> {} | Some st \<Rightarrow> set (node_edges n st))"

definition index_consistent :: "(node_id, node_state) fmap \<Rightarrow> relationship_index \<Rightarrow> bool" where
  "index_consistent nodes ri \<longleftrightarrow> rel_inv ri \<and> rel_edges ri = (\<Union>n. denoted_edges nodes n)"

lemma field_edges_source: "e \<in> set (field_edges n f v) \<Longrightarrow> te_source e = n"
  by (auto simp: field_edges_def split: field_value.splits)

lemma denoted_edges_source: "e \<in> denoted_edges nodes n \<Longrightarrow> te_source e = n"
  by (auto simp: denoted_edges_def node_edges_def dest!: field_edges_source split: option.splits)

lemma reindex_edges:
  "rel_inv ri \<Longrightarrow> rel_inv (reindex n nodes ri) \<and>
    rel_edges (reindex n nodes ri) = denoted_edges nodes n \<union> {e \<in> rel_edges ri. te_source e \<noteq> n}"
  using rel.replace_source [of ri "[]" n]
  by (auto simp: reindex_def denoted_edges_def Let_def rel.replace_source split: option.splits)

text \<open>Reindexing only the changed nodes restores consistency with the new node states.\<close>
lemma fold_reindex_edges:
  "rel_inv ri \<Longrightarrow> rel_inv (fold (\<lambda>n. reindex n nodes) ns ri) \<and>
    rel_edges (fold (\<lambda>n. reindex n nodes) ns ri) =
      (\<Union>n \<in> set ns. denoted_edges nodes n) \<union> {e \<in> rel_edges ri. te_source e \<notin> set ns}"
proof (induction ns arbitrary: ri)
  case (Cons n ns)
  note * = reindex_edges [OF Cons.prems, of n nodes]
  have "(\<Union>m \<in> set ns. denoted_edges nodes m) \<union>
      {e \<in> denoted_edges nodes n \<union> {e \<in> rel_edges ri. te_source e \<noteq> n}. te_source e \<notin> set ns} =
    (\<Union>m \<in> set (n # ns). denoted_edges nodes m) \<union> {e \<in> rel_edges ri. te_source e \<notin> set (n # ns)}"
    using denoted_edges_source by auto
  with Cons.IH [of "reindex n nodes ri"] * show ?case by simp
qed simp

lemma denoted_edges_Union:
  "e \<in> (\<Union>n \<in> A. denoted_edges nodes n) \<longleftrightarrow> te_source e \<in> A \<and> e \<in> denoted_edges nodes (te_source e)"
  using denoted_edges_source by blast

lemma reindex_changed_consistent:
  assumes "index_consistent old ri" "\<And>n. n \<notin> set ns \<Longrightarrow> fmlookup new n = fmlookup old n"
  shows "index_consistent new (fold (\<lambda>n. reindex n new) ns ri)"
proof -
  have "denoted_edges new n = denoted_edges old n" if "n \<notin> set ns" for n
    using assms(2) [OF that] by (simp add: denoted_edges_def)
  moreover have "rel_edges ri = (\<Union>n. denoted_edges old n)" "rel_inv ri"
    using assms(1) by (simp_all add: index_consistent_def)
  ultimately have "(\<Union>n \<in> set ns. denoted_edges new n) \<union> {e \<in> rel_edges ri. te_source e \<notin> set ns}
      = (\<Union>n. denoted_edges new n)"
    by (intro set_eqI) (auto simp only: Un_iff mem_Collect_eq denoted_edges_Union UNIV_I)
  with fold_reindex_edges [of ri new ns] \<open>rel_inv ri\<close> show ?thesis
    by (simp add: index_consistent_def)
qed

lemma index_consistent_unique: "index_consistent nodes i \<Longrightarrow> index_consistent nodes j \<Longrightarrow> i = j"
  by (auto simp: index_consistent_def intro: rel_canonical)

lemma rebuild_consistent: "index_consistent nodes (rebuild_relationship_index nodes)"
proof -
  have "index_consistent fmempty relationship_index_empty"
    by (auto simp: index_consistent_def denoted_edges_def)
  then show ?thesis
    unfolding rebuild_relationship_index_def
    by (rule reindex_changed_consistent) (auto simp: fmdom_notD)
qed

section \<open>Properties\<close>

text \<open>
  C10: The relationship index follows the graph.  If the index is consistent with the node
  states and the states of some nodes change, reindexing exactly those nodes (in any order,
  with repetitions) makes the index consistent with the new states: its outbound sets hold
  exactly the edges denoted by the link and set fields, its inbound sets are the transpose of
  the outbound sets, and the result equals a rebuild from scratch.
\<close>
theorem reindex_equals_rebuild:
  assumes "index_consistent old ri" "\<And>n. n \<notin> set ns \<Longrightarrow> fmlookup new n = fmlookup old n"
  shows "fold (\<lambda>n. reindex n new) ns ri = rebuild_relationship_index new \<and>
    (\<forall>n e. e |\<in>| entry_set (inbound (fold (\<lambda>n. reindex n new) ns ri)) n \<longleftrightarrow>
      te_target e = n \<and> e \<in> denoted_edges new (te_source e))"
proof -
  note c = reindex_changed_consistent [OF assms]
  have "e \<in> rel_edges (fold (\<lambda>n. reindex n new) ns ri) \<longleftrightarrow> e \<in> denoted_edges new (te_source e)" for e
    using c denoted_edges_source by (auto simp: index_consistent_def)
  with c show ?thesis
    using index_consistent_unique [OF c rebuild_consistent] by (simp add: index_consistent_def rel_inv_def)
qed

definition sample_node :: node_state where
  "sample_node = \<lparr> nst_id = ''a'', nst_fields = fmap_of_list
     [(''next'', \<lparr> fld_value = FLink ''b'', fld_version = VersionMarker (Revision 1 0 ''me'') ''x'' \<rparr>)],
     nst_tombstones = fmempty \<rparr>"

theorem reindex_equals_rebuild_witness:
  "reindex ''a'' (fmap_of_list [(''a'', sample_node)]) relationship_index_empty =
     rebuild_relationship_index (fmap_of_list [(''a'', sample_node)]) \<and>
   entry_set (inbound (reindex ''a'' (fmap_of_list [(''a'', sample_node)]) relationship_index_empty)) ''b'' =
     {|TraversalEdge ''a'' ''next'' ''b'' LinkEdge|}"
proof -
  have "index_consistent fmempty relationship_index_empty"
    by (auto simp: index_consistent_def denoted_edges_def)
  note * = reindex_equals_rebuild [OF this, of "[''a'']" "fmap_of_list [(''a'', sample_node)]"]
  have "entry_set (inbound (reindex ''a'' (fmap_of_list [(''a'', sample_node)]) relationship_index_empty)) ''b'' =
     {|TraversalEdge ''a'' ''next'' ''b'' LinkEdge|}"
    by code_simp
  with * show ?thesis by (simp add: fmlookup_of_list)
qed

end
