(* ===== verification/DbCore.thy ===== *)
theory DbCore
  imports EngineKeys RelIndex
begin

text \<open>
  The state behind the database lock (\<open>Inner\<close> of \<open>src/src/db.rs\<close>), the transaction journal,
  lazy loading of nodes, the scope policies, and the application of one operation with all the
  bookkeeping around it.

  The journal is a record of undo logs.  The lemmas show for every primitive that a transaction
  can run that it keeps the journal able to undo it, and hence that a failed transaction leaves
  the state exactly as it found it.

  The wall clock is the field \<open>in_time\<close>, read once per call of \<open>now_millis\<close>; the field
  \<open>in_reads\<close> counts the reads.  A storage engine is what the lock holder sees of it: the
  functions of the \<open>IncrementalStore\<close> trait that read.
\<close>

section \<open>State\<close>

(* src: src/src/engine.rs:245-282 IncrementalStore *)
record incremental_store =
  st_get_node :: "node_id \<Rightarrow> node_state option primadb_result"
  st_export_snapshot :: "string option \<Rightarrow> database_snapshot primadb_result"
  st_scan_direct_index_entries ::
    "string \<Rightarrow> query_direction \<Rightarrow> direct_index_scan \<Rightarrow> direct_scalar_index_entry list primadb_result"
  st_scan_record_entries :: "record_scan \<Rightarrow> record_entry list option primadb_result"

(* src: src/src/db.rs:661-672 TransactionJournal *)
record transaction_journal =
  tj_clock :: hybrid_clock
  tj_nodes :: "(node_id, node_state option) fmap"
  tj_record_overlay :: "(string, record_entry option) fmap"
  tj_record_overlay_node_keys :: "(node_id, string) fmap"
  tj_pending_ops :: operation_queue_undo
  tj_unflushed_ops :: operation_queue_undo
  tj_missing_nodes :: "(node_id, bool) fmap"
  tj_scheduled_node_fetches :: "(node_id, bool) fmap"
  tj_relationship_index_sources :: "node_id fset"
  tj_relationship_index_pending :: "node_id fset"

(* src: src/src/db.rs:233-291 Inner *)
record inner =
  in_clock :: hybrid_clock
  in_nodes :: "(node_id, node_state) fmap"
  in_record_overlay :: "(string, record_entry option) fmap"
  in_record_overlay_node_keys :: "(node_id, string) fmap"
  in_pending_ops :: compacted_operations
  in_unflushed_ops :: compacted_operations
  in_change_revision :: u64
  in_storage_engine :: "incremental_store option"
  in_missing_nodes :: "node_id fset"
  in_relationship_index :: relationship_index
  in_scheduled_node_fetches :: "node_id fset"
  in_scope_policies :: "(string, scope_policy) fmap"
  in_provisional_transactions :: "(string, provisional_transaction) fmap"
  in_next_provisional_transaction_id :: u64
  in_next_storage_tx_id :: u64
  in_limits :: primadb_limits
  in_transaction_journal :: "transaction_journal option"
  in_time :: "nat \<Rightarrow> u64"
  in_reads :: nat

(* src: src/src/db.rs:587-591 OperationOrigin *)
datatype operation_origin = Local | Remote

(* src: src/src/db.rs:593-597 OperationQueue *)
datatype operation_queue = Pending | Unflushed

(* src: src/src/db.rs:546-550 Cursor *)
datatype cursor = CNode node_id | CField node_id string

(* src: src/src/db.rs:805-865 Primadb::with_replica_id *)
definition with_replica_id :: "(nat \<Rightarrow> u64) \<Rightarrow> string \<Rightarrow> inner" where
  "with_replica_id time replica_id =
    \<lparr> in_clock = with_actor (time 0) replica_id, in_nodes = fmempty, in_record_overlay = fmempty,
      in_record_overlay_node_keys = fmempty, in_pending_ops = queue_empty, in_unflushed_ops = queue_empty,
      in_change_revision = 0, in_storage_engine = None, in_missing_nodes = {||},
      in_relationship_index = relationship_index_empty, in_scheduled_node_fetches = {||},
      in_scope_policies = fmempty, in_provisional_transactions = fmempty,
      in_next_provisional_transaction_id = 0, in_next_storage_tx_id = 1,
      in_limits = primadb_limits_default, in_transaction_journal = None, in_time = time, in_reads = 1 \<rparr>"

text \<open>An empty replica with small limits, for examples.\<close>
definition demo_limits :: primadb_limits where
  "demo_limits =
    \<lparr> max_pending_ops = 8, max_ops_per_message = 4, max_route_payload_bytes = 8, max_seen_routes = 3,
      max_batch_items_per_route = 2, max_query_entries_per_chunk = 2, max_snapshot_nodes_per_chunk = 2,
      max_snapshot_ops_per_chunk = 2, max_peer_recommendations = 2, max_active_remote_watches = 2 \<rparr>"

definition demo_db :: "string \<Rightarrow> inner" where
  "demo_db r =
    \<lparr> in_clock = with_actor 7 r, in_nodes = fmempty, in_record_overlay = fmempty,
      in_record_overlay_node_keys = fmempty, in_pending_ops = queue_empty, in_unflushed_ops = queue_empty,
      in_change_revision = 0, in_storage_engine = None, in_missing_nodes = {||},
      in_relationship_index = relationship_index_empty, in_scheduled_node_fetches = {||},
      in_scope_policies = fmempty, in_provisional_transactions = fmempty,
      in_next_provisional_transaction_id = 0, in_next_storage_tx_id = 1,
      in_limits = demo_limits, in_transaction_journal = None, in_time = (\<lambda>_. 7), in_reads = 1 \<rparr>"

lemma demo_db_new: "demo_db r = (with_replica_id (\<lambda>_. 7) r)\<lparr> in_limits := demo_limits \<rparr>"
  by (simp add: demo_db_def with_replica_id_def)

section \<open>Record overlay\<close>

(* src: src/src/db.rs:6046-6065 Inner::refresh_record_overlay *)
definition refresh_record_overlay :: "node_id \<Rightarrow> inner \<Rightarrow> inner" where
  "refresh_record_overlay n s =
    (if \<not> is_record_node_id n then s
     else
       let s1 = (case fmlookup (in_record_overlay_node_keys s) n of
                   Some previous_key \<Rightarrow>
                     s\<lparr> in_record_overlay_node_keys := fmdrop n (in_record_overlay_node_keys s),
                        in_record_overlay := fmdrop previous_key (in_record_overlay s) \<rparr>
                 | None \<Rightarrow> s)
       in case fmlookup (in_nodes s1) n of
            None \<Rightarrow> s1
          | Some st \<Rightarrow>
              (case record_key_from_node_state st of
                 None \<Rightarrow> s1
               | Some key \<Rightarrow>
                   s1\<lparr> in_record_overlay_node_keys := fmupd n key (in_record_overlay_node_keys s1),
                       in_record_overlay := fmupd key (record_entry_from_node_state st) (in_record_overlay s1) \<rparr>))"

(* src: src/src/db.rs:6067-6079 Inner::rebuild_record_overlay *)
definition rebuild_record_overlay :: "inner \<Rightarrow> inner" where
  "rebuild_record_overlay s =
    fold refresh_record_overlay (filter is_record_node_id (sorted_list_of_fset (fmdom (in_nodes s))))
      (s\<lparr> in_record_overlay := fmempty, in_record_overlay_node_keys := fmempty \<rparr>)"

section \<open>The journal\<close>

(* src: src/src/db.rs:675-688 TransactionJournal::begin *)
definition journal_begin :: "inner \<Rightarrow> transaction_journal" where
  "journal_begin s =
    \<lparr> tj_clock = in_clock s, tj_nodes = fmempty, tj_record_overlay = in_record_overlay s,
      tj_record_overlay_node_keys = in_record_overlay_node_keys s,
      tj_pending_ops = queue_undo_new (queue_len (in_pending_ops s)),
      tj_unflushed_ops = queue_undo_new (queue_len (in_unflushed_ops s)),
      tj_missing_nodes = fmempty, tj_scheduled_node_fetches = fmempty,
      tj_relationship_index_sources = {||}, tj_relationship_index_pending = {||} \<rparr>"

text \<open>Note a value under a key unless the key is noted already.\<close>
definition note_once :: "'k \<Rightarrow> 'v \<Rightarrow> ('k, 'v) fmap \<Rightarrow> ('k, 'v) fmap" where
  "note_once k v m = (if k |\<in>| fmdom m then m else fmupd k v m)"

definition with_journal :: "(transaction_journal \<Rightarrow> transaction_journal) \<Rightarrow> inner \<Rightarrow> inner" where
  "with_journal f s =
    (case in_transaction_journal s of
       None \<Rightarrow> s
     | Some j \<Rightarrow> s\<lparr> in_transaction_journal := Some (f j) \<rparr>)"

(* src: src/src/db.rs:6095-6105 Inner::journal_node *)
definition journal_node :: "node_id \<Rightarrow> inner \<Rightarrow> inner" where
  "journal_node n s =
    with_journal (\<lambda>j. j\<lparr> tj_nodes := note_once n (fmlookup (in_nodes s) n) (tj_nodes j) \<rparr>) s"

(* src: src/src/db.rs:6107-6117 Inner::journal_missing_node *)
definition journal_missing_node :: "node_id \<Rightarrow> inner \<Rightarrow> inner" where
  "journal_missing_node n s =
    with_journal (\<lambda>j. j\<lparr> tj_missing_nodes := note_once n (n |\<in>| in_missing_nodes s) (tj_missing_nodes j) \<rparr>) s"

(* src: src/src/db.rs:6119-6129 Inner::journal_scheduled_node_fetch *)
definition journal_scheduled_node_fetch :: "node_id \<Rightarrow> inner \<Rightarrow> inner" where
  "journal_scheduled_node_fetch n s =
    with_journal (\<lambda>j. j\<lparr> tj_scheduled_node_fetches :=
      note_once n (n |\<in>| in_scheduled_node_fetches s) (tj_scheduled_node_fetches j) \<rparr>) s"

(* src: src/src/db.rs:6131-6145 Inner::journal_operation_queue -> journal_operation_queue *)
fun journal_operation_queue :: "operation_queue \<Rightarrow> operation \<Rightarrow> inner \<Rightarrow> inner" where
  "journal_operation_queue Pending op s =
    with_journal (\<lambda>j. j\<lparr> tj_pending_ops := note_push op (in_pending_ops s) (tj_pending_ops j) \<rparr>) s"
| "journal_operation_queue Unflushed op s =
    with_journal (\<lambda>j. j\<lparr> tj_unflushed_ops := note_push op (in_unflushed_ops s) (tj_unflushed_ops j) \<rparr>) s"

section \<open>Relationship index\<close>

(* src: src/src/db.rs:6456-6489 Inner::reindex_node_relationships -> reindex_node_relationships *)
definition reindex_node_relationships :: "node_id \<Rightarrow> inner \<Rightarrow> inner" where
  "reindex_node_relationships n s =
    (let s1 = journal_node n s
     in s1\<lparr> in_relationship_index := reindex n (in_nodes s1) (in_relationship_index s1) \<rparr>)"

(* src: src/src/db.rs:6436-6443 Inner::request_reindex_node_relationships *)
definition request_reindex_node_relationships :: "node_id \<Rightarrow> inner \<Rightarrow> inner" where
  "request_reindex_node_relationships n s =
    (case in_transaction_journal s of
       None \<Rightarrow> reindex_node_relationships n s
     | Some j \<Rightarrow>
         s\<lparr> in_transaction_journal := Some (j\<lparr>
              tj_relationship_index_sources := finsert n (tj_relationship_index_sources j),
              tj_relationship_index_pending := finsert n (tj_relationship_index_pending j) \<rparr>) \<rparr>)"

(* src: src/src/db.rs:6445-6454 Inner::flush_pending_relationship_index *)
definition flush_pending_relationship_index :: "inner \<Rightarrow> inner" where
  "flush_pending_relationship_index s =
    (case in_transaction_journal s of
       None \<Rightarrow> s
     | Some j \<Rightarrow>
         fold reindex_node_relationships (sorted_list_of_fset (tj_relationship_index_pending j))
           (s\<lparr> in_transaction_journal := Some (j\<lparr> tj_relationship_index_pending := {||} \<rparr>) \<rparr>))"

(* src: src/src/db.rs:745-751 restore_set_membership *)
definition restore_set_membership :: "node_id \<Rightarrow> bool \<Rightarrow> node_id fset \<Rightarrow> node_id fset" where
  "restore_set_membership n was A = (if was then finsert n A else A |-| {|n|})"

text \<open>The journal has been taken out of the state when it is restored.\<close>
(* src: src/src/db.rs:690-718 TransactionJournal::restore *)
definition journal_restore :: "transaction_journal \<Rightarrow> inner \<Rightarrow> inner" where
  "journal_restore j s =
    (let s1 = s\<lparr> in_clock := tj_clock j,
                 in_pending_ops := queue_restore (tj_pending_ops j) (in_pending_ops s),
                 in_unflushed_ops := queue_restore (tj_unflushed_ops j) (in_unflushed_ops s),
                 in_nodes := fold (\<lambda>(n, previous). put_entry n previous) (sorted_list_of_fmap (tj_nodes j)) (in_nodes s),
                 in_missing_nodes := fold (\<lambda>(n, was). restore_set_membership n was)
                   (sorted_list_of_fmap (tj_missing_nodes j)) (in_missing_nodes s),
                 in_scheduled_node_fetches := fold (\<lambda>(n, was). restore_set_membership n was)
                   (sorted_list_of_fmap (tj_scheduled_node_fetches j)) (in_scheduled_node_fetches s) \<rparr>;
         s2 = fold reindex_node_relationships (sorted_list_of_fset (tj_relationship_index_sources j)) s1
     in s2\<lparr> in_record_overlay := tj_record_overlay j,
            in_record_overlay_node_keys := tj_record_overlay_node_keys j \<rparr>)"

section \<open>Loading nodes\<close>

(* src: src/src/db.rs:6491-6522 Inner::maybe_load_node *)
definition maybe_load_node :: "node_id \<Rightarrow> (inner, primadb_error, bool) fallible" where
  "maybe_load_node n s =
    (if (case fmlookup (in_nodes s) n of
           Some existing \<Rightarrow> \<not> node_state_is_empty existing \<or> in_storage_engine s = None
         | None \<Rightarrow> False)
     then (Inr True, s)
     else if n |\<in>| in_missing_nodes s then (Inr False, s)
     else case in_storage_engine s of
       None \<Rightarrow> (Inr False, s)
     | Some engine \<Rightarrow>
         (case st_get_node engine n of
            Inl e \<Rightarrow> (Inl e, s)
          | Inr (Some st) \<Rightarrow>
              (let s1 = journal_node n s;
                   s2 = s1\<lparr> in_nodes := merge_node_state (in_nodes s1) st \<rparr>;
                   s3 = journal_missing_node n s2;
                   s4 = s3\<lparr> in_missing_nodes := in_missing_nodes s3 |-| {|n|} \<rparr>
               in (Inr True, request_reindex_node_relationships n s4))
          | Inr None \<Rightarrow>
              (if n |\<in>| fmdom (in_nodes s) then (Inr True, s)
               else let s1 = journal_missing_node n s
                    in (Inr False, s1\<lparr> in_missing_nodes := finsert n (in_missing_nodes s1) \<rparr>))))"

(* src: src/src/db.rs:6524-6531 Inner::ensure_node *)
definition ensure_node :: "node_id \<Rightarrow> inner \<Rightarrow> inner" where
  "ensure_node n s =
    (let s1 = journal_missing_node n (journal_node n s);
         s2 = s1\<lparr> in_missing_nodes := in_missing_nodes s1 |-| {|n|} \<rparr>
     in if n |\<in>| fmdom (in_nodes s2) then s2
        else s2\<lparr> in_nodes := fmupd n (node_state_new n) (in_nodes s2) \<rparr>)"

(* src: src/src/db.rs:6381-6393 Inner::reserve_node_fetches *)
fun reserve_node_fetches :: "node_id list \<Rightarrow> usize \<Rightarrow> node_id list \<Rightarrow> inner \<Rightarrow> node_id list \<times> inner" where
  "reserve_node_fetches [] max_fetches reserved s = (reserved, s)"
| "reserve_node_fetches (n # ns) max_fetches reserved s =
    (if length reserved \<ge> max_fetches then (reserved, s)
     else let s1 = journal_scheduled_node_fetch n s
          in if n |\<in>| in_scheduled_node_fetches s1
             then reserve_node_fetches ns max_fetches reserved s1
             else reserve_node_fetches ns max_fetches (reserved @ [n])
                    (s1\<lparr> in_scheduled_node_fetches := finsert n (in_scheduled_node_fetches s1) \<rparr>))"

(* src: src/src/db.rs:6395-6400 Inner::release_reserved_node_fetches *)
definition release_reserved_node_fetches :: "node_id list \<Rightarrow> inner \<Rightarrow> inner" where
  "release_reserved_node_fetches ns s =
    fold (\<lambda>n s. let s1 = journal_scheduled_node_fetch n s
                in s1\<lparr> in_scheduled_node_fetches := in_scheduled_node_fetches s1 |-| {|n|} \<rparr>) ns s"

section \<open>Scope policies\<close>

(* src: src/src/db.rs:7759-7765 watch_path_key *)
definition watch_path_key :: "string \<Rightarrow> string list \<Rightarrow> string" where
  "watch_path_key anchor segments =
    (if segments = [] then anchor else anchor @ ''/'' @ join ''/'' segments)"

text \<open>\<open>Iterator::max_by_key\<close>: the last of the greatest.\<close>
fun max_by_key :: "('a \<Rightarrow> nat) \<Rightarrow> 'a list \<Rightarrow> 'a option" where
  "max_by_key f [] = None"
| "max_by_key f (x # xs) =
    (case max_by_key f xs of None \<Rightarrow> Some x | Some y \<Rightarrow> (if f y \<ge> f x then Some y else Some x))"

(* src: src/src/db.rs:6402-6411 Inner::policy_for_path *)
definition policy_for_path :: "(string, scope_policy) fmap \<Rightarrow> string \<Rightarrow> (string \<times> scope_policy) option" where
  "policy_for_path policies path =
    max_by_key (\<lambda>(scope, _). length scope)
      (filter (\<lambda>(scope, _). node_matches_root path scope) (sorted_list_of_fmap policies))"

definition actor_names :: "string \<Rightarrow> string list" where
  "actor_names actor = [actor, ''native:'' @ actor, ''full-node:'' @ actor]"

(* src: src/src/db.rs:5218-5237 scope_policy_matches_authority_actor *)
definition scope_policy_matches_authority_actor :: "scope_policy \<Rightarrow> string \<Rightarrow> bool" where
  "scope_policy_matches_authority_actor policy actor =
    (case sp_authority policy of
       None \<Rightarrow> False
     | Some (APeer peer_id) \<Rightarrow> peer_id \<in> set (actor_names actor)
     | Some (AFullNode peer_id) \<Rightarrow> peer_id \<in> set (actor_names actor)
     | Some (AQuorum peers threshold) \<Rightarrow>
         threshold \<le> 1 \<and> (\<exists>peer_id \<in> set peers. peer_id \<in> set (actor_names actor)))"

(* src: src/src/db.rs:6413-6426 Inner::ensure_canonical_write_allowed *)
definition ensure_canonical_write_allowed :: "string \<Rightarrow> string list \<Rightarrow> inner \<Rightarrow> primadb_error option" where
  "ensure_canonical_write_allowed anchor segments s =
    (case policy_for_path (in_scope_policies s) (watch_path_key anchor segments) of
       None \<Rightarrow> None
     | Some (scope, policy) \<Rightarrow>
         if sp_consistency policy = Coordinated \<and>
            \<not> scope_policy_matches_authority_actor policy (clk_actor (in_clock s))
         then Some (StrictScopeUnavailable scope) else None)"

(* src: src/src/db.rs:7828-7835 operation_touched_path *)
definition operation_touched_path :: "operation \<Rightarrow> string" where
  "operation_touched_path op = action_node (action op) @ ''/'' @ action_field (action op)"

(* src: src/src/db.rs:7269-7278 Inner::remote_operation_allowed *)
definition remote_operation_allowed :: "operation \<Rightarrow> inner \<Rightarrow> bool" where
  "remote_operation_allowed op s =
    (case policy_for_path (in_scope_policies s) (operation_touched_path op) of
       None \<Rightarrow> True
     | Some (_, policy) \<Rightarrow>
         sp_consistency policy \<noteq> Coordinated \<or> scope_policy_matches_authority_actor policy (author op))"

section \<open>Applying an operation\<close>

(* src: src/src/db.rs:7001-7267 Inner::apply_operation_internal *)
definition apply_operation_internal :: "operation \<Rightarrow> operation_origin \<Rightarrow> inner \<Rightarrow> bool \<times> inner" where
  "apply_operation_internal op origin s =
    (if origin = Local \<and> queue_len (in_pending_ops s) \<ge> max_pending_ops (in_limits s) then (False, s)
     else if origin = Remote \<and> \<not> remote_operation_allowed op s then (False, s)
     else
       let source = action_node (action op);
           s1 = s\<lparr> in_clock := observe (op_revision op) (in_clock s) \<rparr>;
           s2 = journal_node source s1;
           (accepted, nodes) = apply_action op (in_nodes s2);
           s3 = s2\<lparr> in_nodes := nodes \<rparr>;
           s4 = (if accepted
                 then let a = refresh_record_overlay source s3;
                          b = request_reindex_node_relationships source a;
                          c = journal_operation_queue Unflushed op b
                      in c\<lparr> in_unflushed_ops := queue_push op (in_unflushed_ops c) \<rparr>
                 else s3);
           s5 = (if accepted \<and> origin = Local
                 then let d = journal_operation_queue Pending op s4
                      in d\<lparr> in_pending_ops := queue_push op (in_pending_ops d) \<rparr>
                 else s4)
       in (accepted, s5))"

text \<open>Stamp a local action with the clock of the replica and apply it.\<close>
definition stamp_and_apply :: "string \<Rightarrow> operation_action \<Rightarrow> inner \<Rightarrow> inner" where
  "stamp_and_apply ns a s =
    (let (revision, c1) = next_revision (in_time s (in_reads s)) (in_clock s);
         (i, c2) = next_op_id ns c1;
         s1 = s\<lparr> in_clock := c2, in_reads := Suc (in_reads s) \<rparr>
     in snd (apply_operation_internal
          \<lparr> op_id = i, author = clk_actor c2, op_revision = revision, action = a \<rparr> Local s1))"

(* src: src/src/db.rs:6942-6955 Inner::delete_field *)
definition delete_field :: "node_id \<Rightarrow> string \<Rightarrow> inner \<Rightarrow> inner" where
  "delete_field n f = stamp_and_apply ''delete'' (DeleteField n f)"

(* src: src/src/db.rs:6957-6967 Inner::set_field *)
definition set_field :: "node_id \<Rightarrow> string \<Rightarrow> operation_value \<Rightarrow> inner \<Rightarrow> inner" where
  "set_field n f v = stamp_and_apply ''set'' (SetField n f v)"

(* src: src/src/db.rs:6969-6983 Inner::add_set_member *)
definition add_set_member :: "node_id \<Rightarrow> string \<Rightarrow> node_id \<Rightarrow> inner \<Rightarrow> inner" where
  "add_set_member n f m = stamp_and_apply ''set-add'' (AddSetMember n f m)"

(* src: src/src/db.rs:6985-6999 Inner::remove_member_from_set *)
definition remove_member_from_set :: "node_id \<Rightarrow> string \<Rightarrow> node_id \<Rightarrow> inner \<Rightarrow> inner" where
  "remove_member_from_set n f m = stamp_and_apply ''set-remove'' (RemoveSetMember n f m)"

section \<open>Local transactions\<close>

text \<open>
  \<open>run_local_transaction_in_scope\<close> up to the end of the locked section.  The body is a fallible
  state transformer; on success the result carries the operations appended to the unflushed
  queue, from which the notification of the change is computed.
\<close>
(* src: src/src/db.rs:1594-1640 Primadb::run_local_transaction_in_scope (locked section) *)
definition run_local_transaction ::
    "(inner, primadb_error, 'a) fallible \<Rightarrow> (inner, primadb_error, 'a \<times> operation list) fallible" where
  "run_local_transaction body s =
    (let start_unflushed_len = queue_len (in_unflushed_ops s);
         (result, s1) = body (s\<lparr> in_transaction_journal := Some (journal_begin s) \<rparr>)
     in case result of
          Inr value \<Rightarrow>
            (let ops = drop start_unflushed_len (cq_operations (in_unflushed_ops s1));
                 s2 = flush_pending_relationship_index s1
             in (Inr (value, ops), s2\<lparr> in_transaction_journal := None \<rparr>))
        | Inl error \<Rightarrow>
            (case in_transaction_journal s1 of
               Some j \<Rightarrow> (Inl error, journal_restore j (s1\<lparr> in_transaction_journal := None \<rparr>))
             | None \<Rightarrow> (Inl error, s1)))"

section \<open>The journal undoes a transaction\<close>

named_theorems undoable_intros \<open>primitives that the journal can undo\<close>

subsection \<open>Undo logs of maps and sets\<close>

definition map_undoes :: "('k, 'v) fmap \<Rightarrow> ('k, 'v option) fmap \<Rightarrow> ('k, 'v) fmap \<Rightarrow> bool" where
  "map_undoes old log now \<longleftrightarrow>
    (\<forall>k. fmlookup old k = (case fmlookup log k of Some v \<Rightarrow> v | None \<Rightarrow> fmlookup now k))"

definition set_undoes :: "'k fset \<Rightarrow> ('k, bool) fmap \<Rightarrow> 'k fset \<Rightarrow> bool" where
  "set_undoes old log now \<longleftrightarrow>
    (\<forall>k. k |\<in>| old \<longleftrightarrow> (case fmlookup log k of Some b \<Rightarrow> b | None \<Rightarrow> k |\<in>| now))"

lemma lookup_note_once:
  "fmlookup (note_once k v m) l = (if l = k \<and> fmlookup m k = None then Some v else fmlookup m l)"
  by (auto simp: note_once_def fmlookup_dom_iff)

lemma map_undoes_note: "map_undoes old log now \<Longrightarrow> map_undoes old (note_once k (fmlookup now k) log) now"
  by (auto simp: map_undoes_def lookup_note_once split: option.splits)

lemma map_undoes_write:
  "map_undoes old log now \<Longrightarrow> map_undoes old (note_once k (fmlookup now k) log) (put_entry k v now)"
  by (auto simp: map_undoes_def lookup_note_once split: option.splits)

lemma map_undoes_restore:
  "map_undoes old log now \<Longrightarrow> fold (\<lambda>(k, v). put_entry k v) (sorted_list_of_fmap log) now = old"
  by (rule fmap_ext) (simp add: replay_put_entry map_undoes_def)

interpretation map_log: undo_log "\<lambda>_. fmempty" "\<lambda>(k, v) now. note_once k (fmlookup now k)"
    "\<lambda>(k, v). put_entry k v" "\<lambda>log now. fold (\<lambda>(k, v). put_entry k v) (sorted_list_of_fmap log) now"
    "\<lambda>_. True" map_undoes
proof
  show "map_undoes s fmempty s" for s :: "('a, 'b) fmap" by (simp add: map_undoes_def)
qed (auto simp: map_undoes_write map_undoes_restore)

lemma mem_restore_set_membership: "k |\<in>| restore_set_membership n was A \<longleftrightarrow> (if k = n then was else k |\<in>| A)"
  by (simp add: restore_set_membership_def)

lemma fold_restore_set_membership:
  "distinct (map fst es) \<Longrightarrow>
    k |\<in>| fold (\<lambda>(n, was). restore_set_membership n was) es A \<longleftrightarrow>
      (case map_of es k of Some b \<Rightarrow> b | None \<Rightarrow> k |\<in>| A)"
proof (induction es arbitrary: A)
  case (Cons e es)
  obtain n was where e: "e = (n, was)" by fastforce
  with Cons.prems have "map_of es n = None" by (auto simp: map_of_eq_None_iff)
  with Cons e show ?case by (auto simp: mem_restore_set_membership split: option.splits)
qed simp

lemma set_undoes_write:
  "set_undoes old log now \<Longrightarrow>
    set_undoes old (note_once k (k |\<in>| now) log) (restore_set_membership k b now)"
  by (auto simp: set_undoes_def lookup_note_once mem_restore_set_membership split: option.splits)

lemma set_undoes_note: "set_undoes old log now \<Longrightarrow> set_undoes old (note_once k (k |\<in>| now) log) now"
  by (auto simp: set_undoes_def lookup_note_once split: option.splits)

lemma set_undoes_restore:
  "set_undoes old log now \<Longrightarrow>
    fold (\<lambda>(n, was). restore_set_membership n was) (sorted_list_of_fmap log) now = old"
  by (rule fset_eqI) (simp add: fold_restore_set_membership set_undoes_def)

interpretation set_log: undo_log "\<lambda>_. fmempty" "\<lambda>(k, b) now. note_once k (k |\<in>| now)"
    "\<lambda>(k, b). restore_set_membership k b"
    "\<lambda>log now. fold (\<lambda>(n, was). restore_set_membership n was) (sorted_list_of_fmap log) now"
    "\<lambda>_. True" set_undoes
proof
  show "set_undoes s fmempty s" for s by (simp add: set_undoes_def)
qed (auto simp: set_undoes_write set_undoes_restore)

subsection \<open>The index below a journal\<close>

definition index_undoes :: "relationship_index \<Rightarrow> node_id fset \<Rightarrow> node_id fset \<Rightarrow> relationship_index \<Rightarrow> bool" where
  "index_undoes old sources pending now \<longleftrightarrow>
    rel_inv now \<and> pending |\<subseteq>| sources \<and>
    {e \<in> rel_edges now. te_source e |\<notin>| sources} = {e \<in> rel_edges old. te_source e |\<notin>| sources}"

lemma index_undoes_request:
  "index_undoes old sources pending now \<Longrightarrow> index_undoes old (finsert n sources) (finsert n pending) now"
  by (auto simp: index_undoes_def)

lemma index_undoes_reindex:
  assumes "index_undoes old sources pending now" "n |\<in>| sources"
  shows "index_undoes old sources pending (reindex n nodes now)"
proof -
  have "rel_inv now" using assms by (simp add: index_undoes_def)
  note r = reindex_edges [OF this, of n nodes]
  have "te_source e = n" if "e \<in> denoted_edges nodes n" for e using denoted_edges_source that .
  then have "{e \<in> rel_edges (reindex n nodes now). te_source e |\<notin>| sources} =
      {e \<in> rel_edges now. te_source e |\<notin>| sources}"
    using r assms(2) by auto
  with r assms(1) show ?thesis by (simp add: index_undoes_def)
qed

lemma index_undoes_restore:
  assumes "index_undoes old sources pending now" "index_consistent nodes old"
  shows "fold (\<lambda>n. reindex n nodes) (sorted_list_of_fset sources) now = old"
proof (rule rel_canonical)
  have inv: "rel_inv now" using assms(1) by (simp add: index_undoes_def)
  note r = fold_reindex_edges [OF inv, of nodes "sorted_list_of_fset sources"]
  show "rel_inv (fold (\<lambda>n. reindex n nodes) (sorted_list_of_fset sources) now)" using r by simp
  show "rel_inv old" using assms(2) by (simp add: index_consistent_def)
  have "rel_edges old = (\<Union>n \<in> fset sources. denoted_edges nodes n) \<union> {e \<in> rel_edges old. te_source e |\<notin>| sources}"
    using assms(2)
    by (intro set_eqI) (auto simp only: index_consistent_def Un_iff mem_Collect_eq denoted_edges_Union UNIV_I)
  moreover have "{e \<in> rel_edges now. te_source e |\<notin>| sources} = {e \<in> rel_edges old. te_source e |\<notin>| sources}"
    using assms(1) by (simp add: index_undoes_def)
  ultimately show "rel_edges (fold (\<lambda>n. reindex n nodes) (sorted_list_of_fset sources) now) = rel_edges old"
    using r by simp
qed

subsection \<open>States that can be rolled back\<close>

text \<open>The fields no transaction body touches.\<close>
definition in_frame :: "inner \<Rightarrow> u64 \<times> incremental_store option \<times> (string, scope_policy) fmap \<times>
    (string, provisional_transaction) fmap \<times> u64 \<times> u64 \<times> primadb_limits \<times> (nat \<Rightarrow> u64)" where
  "in_frame s = (in_change_revision s, in_storage_engine s, in_scope_policies s,
    in_provisional_transactions s, in_next_provisional_transaction_id s, in_next_storage_tx_id s,
    in_limits s, in_time s)"

definition journal_undoes :: "inner \<Rightarrow> transaction_journal \<Rightarrow> inner \<Rightarrow> bool" where
  "journal_undoes s0 j s \<longleftrightarrow>
    in_frame s = in_frame s0 \<and> tj_clock j = in_clock s0 \<and>
    tj_record_overlay j = in_record_overlay s0 \<and>
    tj_record_overlay_node_keys j = in_record_overlay_node_keys s0 \<and>
    map_undoes (in_nodes s0) (tj_nodes j) (in_nodes s) \<and>
    queue_undoes (in_pending_ops s0) (tj_pending_ops j) (in_pending_ops s) \<and>
    queue_undoes (in_unflushed_ops s0) (tj_unflushed_ops j) (in_unflushed_ops s) \<and>
    set_undoes (in_missing_nodes s0) (tj_missing_nodes j) (in_missing_nodes s) \<and>
    set_undoes (in_scheduled_node_fetches s0) (tj_scheduled_node_fetches j) (in_scheduled_node_fetches s) \<and>
    index_undoes (in_relationship_index s0) (tj_relationship_index_sources j)
      (tj_relationship_index_pending j) (in_relationship_index s)"

definition journaled :: "inner \<Rightarrow> inner \<Rightarrow> bool" where
  "journaled s0 s \<longleftrightarrow> (\<exists>j. in_transaction_journal s = Some j \<and> journal_undoes s0 j s)"

text \<open>The contract of a storage engine: the node it returns is the node it was asked for.\<close>
definition engine_ok :: "inner \<Rightarrow> bool" where
  "engine_ok s \<longleftrightarrow>
    (\<forall>engine n st. in_storage_engine s = Some engine \<longrightarrow> st_get_node engine n = Inr (Some st) \<longrightarrow> nst_id st = n)"

text \<open>The state between transactions.\<close>
definition inner_inv :: "inner \<Rightarrow> bool" where
  "inner_inv s \<longleftrightarrow>
    queue_inv (in_pending_ops s) \<and> queue_inv (in_unflushed_ops s) \<and>
    index_consistent (in_nodes s) (in_relationship_index s) \<and> in_transaction_journal s = None"

definition undoable_step :: "(inner \<Rightarrow> inner) \<Rightarrow> bool" where
  "undoable_step f \<longleftrightarrow> (\<forall>s0 s. engine_ok s0 \<longrightarrow> journaled s0 s \<longrightarrow> journaled s0 (f s))"

definition undoable :: "(inner, primadb_error, 'a) fallible \<Rightarrow> bool" where
  "undoable m \<longleftrightarrow> undoable_step (\<lambda>s. snd (m s))"

lemma undoable_stepI:
  "(\<And>s0 s j. engine_ok s0 \<Longrightarrow> in_transaction_journal s = Some j \<Longrightarrow> journal_undoes s0 j s \<Longrightarrow> journaled s0 (f s))
    \<Longrightarrow> undoable_step f"
  by (auto simp: undoable_step_def journaled_def)

lemma undoable_stepD: "undoable_step f \<Longrightarrow> engine_ok s0 \<Longrightarrow> journaled s0 s \<Longrightarrow> journaled s0 (f s)"
  by (simp add: undoable_step_def)

lemma undoable_step_comp:
  "undoable_step f \<Longrightarrow> undoable_step g \<Longrightarrow> undoable_step (\<lambda>s. f (g s))"
  by (simp add: undoable_step_def)

lemma undoable_step_id [undoable_intros]: "undoable_step (\<lambda>s. s)"
  by (simp add: undoable_step_def)

lemma undoable_step_if [undoable_intros]:
  "undoable_step f \<Longrightarrow> undoable_step g \<Longrightarrow> undoable_step (\<lambda>s. if P s then f s else g s)"
  by (simp add: undoable_step_def)

lemma undoable_step_fold [undoable_intros]: "(\<And>x. undoable_step (f x)) \<Longrightarrow> undoable_step (fold f xs)"
proof (induction xs)
  case (Cons x xs)
  then show ?case using undoable_step_comp [of "fold f xs" "f x"] by (simp add: comp_def)
qed (simp add: id_def undoable_step_id)

lemma undoable_okS [undoable_intros]: "undoable (okS a)"
  by (simp add: undoable_def undoable_step_id okS_def)

lemma undoable_errS [undoable_intros]: "undoable (errS e)"
  by (simp add: undoable_def undoable_step_id errS_def)

lemma undoable_modifyS [undoable_intros]: "undoable_step f \<Longrightarrow> undoable (modifyS f)"
  by (simp add: undoable_def modifyS_def)

lemma undoable_readS [undoable_intros]: "undoable (readS f)"
  by (simp add: undoable_def undoable_step_id)

lemma undoable_checkS [undoable_intros]: "undoable (checkS f)"
  by (simp add: undoable_def undoable_step_id)

lemma undoable_stateS [undoable_intros]: "undoable_step (\<lambda>s. snd (f s)) \<Longrightarrow> undoable (stateS f)"
  by (simp add: undoable_def)

lemma undoable_bindS [undoable_intros]:
  assumes "undoable m" "\<And>a. undoable (f a)"
  shows "undoable (bindS m f)"
  unfolding undoable_def undoable_step_def
proof (intro allI impI)
  fix s0 s assume s: "engine_ok s0" "journaled s0 s"
  obtain r s1 where m: "m s = (r, s1)" by fastforce
  have s1: "journaled s0 s1"
    using undoable_stepD [OF assms(1) [unfolded undoable_def] s] m by simp
  show "journaled s0 (snd (bindS m f s))"
  proof (cases r)
    case (Inl e)
    then show ?thesis using m s1 by (simp add: bindS_def)
  next
    case (Inr a)
    then show ?thesis
      using m s1 s(1) assms(2) [of a] by (simp add: bindS_def undoable_def undoable_step_def)
  qed
qed

subsection \<open>Primitives\<close>

lemmas journal_defs = journal_node_def journal_missing_node_def journal_scheduled_node_fetch_def with_journal_def

lemma undoable_clock [undoable_intros]: "undoable_step (\<lambda>s. s\<lparr> in_clock := f s \<rparr>)"
  by (rule undoable_stepI) (simp add: journaled_def journal_undoes_def in_frame_def)

lemma undoable_reads [undoable_intros]: "undoable_step (\<lambda>s. s\<lparr> in_clock := f s, in_reads := g s \<rparr>)"
  by (rule undoable_stepI) (simp add: journaled_def journal_undoes_def in_frame_def)

lemma undoable_overlay [undoable_intros]: "undoable_step (refresh_record_overlay n)"
  by (rule undoable_stepI)
    (auto simp: refresh_record_overlay_def journaled_def journal_undoes_def in_frame_def Let_def
      split: option.splits)

lemma undoable_journal_node [undoable_intros]: "undoable_step (journal_node n)"
  by (rule undoable_stepI)
    (auto simp: journal_defs journaled_def journal_undoes_def in_frame_def map_undoes_note)

lemma undoable_journal_missing [undoable_intros]: "undoable_step (journal_missing_node n)"
  by (rule undoable_stepI)
    (auto simp: journal_defs journaled_def journal_undoes_def in_frame_def set_undoes_note)

text \<open>Writing one node after it has been noted.\<close>
lemma undoable_write_node [undoable_intros]:
  "undoable_step (\<lambda>s. let s1 = journal_node n s in s1\<lparr> in_nodes := put_entry n (f s1) (in_nodes s1) \<rparr>)"
  by (rule undoable_stepI)
    (auto simp: journal_defs Let_def journaled_def journal_undoes_def in_frame_def map_undoes_write)

lemma undoable_write_missing [undoable_intros]:
  "undoable_step (\<lambda>s. let s1 = journal_missing_node n s
    in s1\<lparr> in_missing_nodes := restore_set_membership n b (in_missing_nodes s1) \<rparr>)"
  by (rule undoable_stepI)
    (auto simp: journal_defs Let_def journaled_def journal_undoes_def in_frame_def set_undoes_write)

lemma undoable_write_scheduled [undoable_intros]:
  "undoable_step (\<lambda>s. let s1 = journal_scheduled_node_fetch n s
    in s1\<lparr> in_scheduled_node_fetches := restore_set_membership n b (in_scheduled_node_fetches s1) \<rparr>)"
  by (rule undoable_stepI)
    (auto simp: journal_defs Let_def journaled_def journal_undoes_def in_frame_def set_undoes_write)

lemma undoable_journal_scheduled [undoable_intros]: "undoable_step (journal_scheduled_node_fetch n)"
  by (rule undoable_stepI)
    (auto simp: journal_defs journaled_def journal_undoes_def in_frame_def set_undoes_note)

lemma undoable_push_unflushed [undoable_intros]:
  "undoable_step (\<lambda>s. let c = journal_operation_queue Unflushed op s
    in c\<lparr> in_unflushed_ops := queue_push op (in_unflushed_ops c) \<rparr>)"
  by (rule undoable_stepI)
    (auto simp: with_journal_def Let_def journaled_def journal_undoes_def in_frame_def queue_undoes_push)

lemma undoable_push_pending [undoable_intros]:
  "undoable_step (\<lambda>s. let c = journal_operation_queue Pending op s
    in c\<lparr> in_pending_ops := queue_push op (in_pending_ops c) \<rparr>)"
  by (rule undoable_stepI)
    (auto simp: with_journal_def Let_def journaled_def journal_undoes_def in_frame_def queue_undoes_push)

lemma undoable_request_reindex [undoable_intros]: "undoable_step (request_reindex_node_relationships n)"
  by (rule undoable_stepI)
    (auto simp: request_reindex_node_relationships_def journaled_def journal_undoes_def in_frame_def
      index_undoes_request)

lemma journaled_reindex:
  assumes "journaled s0 s" "n |\<in>| tj_relationship_index_sources (the (in_transaction_journal s))"
  shows "journaled s0 (reindex_node_relationships n s) \<and>
    tj_relationship_index_sources (the (in_transaction_journal (reindex_node_relationships n s))) =
      tj_relationship_index_sources (the (in_transaction_journal s))"
  using assms
  by (auto simp: reindex_node_relationships_def journal_defs Let_def journaled_def journal_undoes_def
      in_frame_def map_undoes_note index_undoes_reindex)

lemma journaled_reindex_fold:
  "journaled s0 s \<Longrightarrow> \<forall>n \<in> set ns. n |\<in>| tj_relationship_index_sources (the (in_transaction_journal s)) \<Longrightarrow>
    journaled s0 (fold reindex_node_relationships ns s)"
proof (induction ns arbitrary: s)
  case (Cons n ns)
  with journaled_reindex [of s0 s n] show ?case by simp
qed simp

lemma undoable_flush [undoable_intros]: "undoable_step flush_pending_relationship_index"
proof (rule undoable_stepI)
  fix s0 s j assume j: "in_transaction_journal s = Some j" "journal_undoes s0 j s"
  let ?s = "s\<lparr> in_transaction_journal := Some (j\<lparr> tj_relationship_index_pending := {||} \<rparr>) \<rparr>"
  have "journaled s0 ?s"
    using j by (auto simp: journaled_def journal_undoes_def in_frame_def index_undoes_def)
  moreover have "tj_relationship_index_pending j |\<subseteq>| tj_relationship_index_sources j"
    using j by (simp add: journal_undoes_def index_undoes_def)
  ultimately show "journaled s0 (flush_pending_relationship_index s)"
    unfolding flush_pending_relationship_index_def j
    by (auto intro!: journaled_reindex_fold)
qed

subsection \<open>Composite operations\<close>

lemma map_undoes_noted:
  "map_undoes old log now \<Longrightarrow> fmlookup log k \<noteq> None \<Longrightarrow> map_undoes old log (put_entry k v now)"
  by (auto simp: map_undoes_def split: option.splits)

lemma ensure_node_eq:
  "ensure_node n = (\<lambda>s.
    (\<lambda>s. let s1 = journal_missing_node n s
       in s1\<lparr> in_missing_nodes := restore_set_membership n False (in_missing_nodes s1) \<rparr>)
    ((\<lambda>s. let s1 = journal_node n s in
       s1\<lparr> in_nodes := put_entry n (Some (node_or_new (in_nodes s1) n)) (in_nodes s1) \<rparr>) s))"
proof
  fix s :: inner
  have "put_entry n (Some st) (in_nodes s) = in_nodes s" if "fmlookup (in_nodes s) n = Some st" for st
    using that by (intro fmap_ext) simp
  then show "ensure_node n s = (let s1 = journal_missing_node n
        (let s1 = journal_node n s in
           s1\<lparr> in_nodes := put_entry n (Some (node_or_new (in_nodes s1) n)) (in_nodes s1) \<rparr>)
      in s1\<lparr> in_missing_nodes := restore_set_membership n False (in_missing_nodes s1) \<rparr>)"
    by (cases "fmlookup (in_nodes s) n")
      (auto simp: ensure_node_def journal_defs Let_def restore_set_membership_def fmlookup_dom_iff
        fmupd_put_entry node_or_new_def split: option.splits)
qed

lemma undoable_ensure_node [undoable_intros]: "undoable_step (ensure_node n)"
  unfolding ensure_node_eq by (rule undoable_step_comp [OF undoable_write_missing undoable_write_node])

text \<open>The two ways in which loading a node changes the state.\<close>
definition loaded_node :: "node_id \<Rightarrow> node_state \<Rightarrow> inner \<Rightarrow> inner" where
  "loaded_node n st s =
    (let s1 = journal_node n s;
         s3 = journal_missing_node n (s1\<lparr> in_nodes := merge_node_state (in_nodes s1) st \<rparr>)
     in request_reindex_node_relationships n
          (s3\<lparr> in_missing_nodes := restore_set_membership n False (in_missing_nodes s3) \<rparr>))"

definition marked_missing :: "node_id \<Rightarrow> inner \<Rightarrow> inner" where
  "marked_missing n s =
    (let s1 = journal_missing_node n s
     in s1\<lparr> in_missing_nodes := restore_set_membership n True (in_missing_nodes s1) \<rparr>)"

lemma maybe_load_cases:
  obtains "snd (maybe_load_node n s) = s" | "snd (maybe_load_node n s) = marked_missing n s"
  | engine st where "in_storage_engine s = Some engine" "st_get_node engine n = Inr (Some st)"
      "snd (maybe_load_node n s) = loaded_node n st s"
proof (cases "in_storage_engine s")
  case None
  then show ?thesis using that(1) by (auto simp: maybe_load_node_def split: option.split)
next
  case (Some engine)
  have "snd (maybe_load_node n s) = s \<or>
    (case st_get_node engine n of
       Inr (Some st) \<Rightarrow> snd (maybe_load_node n s) = loaded_node n st s
     | _ \<Rightarrow> snd (maybe_load_node n s) = marked_missing n s)"
    by (simp add: maybe_load_node_def loaded_node_def marked_missing_def Let_def Some
        restore_set_membership_def split: option.split sum.split)
  with Some show ?thesis by (auto intro: that split: option.splits sum.splits)
qed

lemma loaded_node_put:
  "nst_id st = n \<Longrightarrow> \<exists>v. merge_node_state nodes st = put_entry n (Some v) nodes"
  by (auto simp: merge_node_state_def Let_def fmupd_put_entry)

lemma undoable_maybe_load [undoable_intros]: "undoable (maybe_load_node n)"
  unfolding undoable_def undoable_step_def
proof (intro allI impI)
  fix s0 s assume ok: "engine_ok s0" and jd: "journaled s0 s"
  from jd have eng: "in_storage_engine s = in_storage_engine s0"
    by (auto simp: journaled_def journal_undoes_def in_frame_def)
  note write_miss = undoable_stepD [OF undoable_write_missing ok, unfolded Let_def]
  note write_node = undoable_stepD [OF undoable_write_node ok jd, unfolded Let_def]
  show "journaled s0 (snd (maybe_load_node n s))"
  proof (cases rule: maybe_load_cases [where n = n and s = s])
    case (3 engine st)
    with ok eng have "nst_id st = n" unfolding engine_ok_def by metis
    then obtain v where v: "merge_node_state (in_nodes (journal_node n s)) st =
        put_entry n (Some v) (in_nodes (journal_node n s))" using loaded_node_put by blast
    have "journaled s0 (loaded_node n st s)"
      unfolding loaded_node_def Let_def v
      by (rule undoable_stepD [OF undoable_request_reindex ok write_miss [OF write_node [of n "\<lambda>_. Some v"]]])
    with 3 show ?thesis by simp
  next
    case 2
    have "journaled s0 (marked_missing n s)"
      unfolding marked_missing_def Let_def by (rule write_miss [OF jd])
    with 2 show ?thesis by simp
  qed (use jd in simp)
qed

lemma apply_action_put: "snd (apply_action op nodes) = put_entry (action_node (action op))
    (Some (node_apply op (node_or_new nodes (action_node (action op))))) nodes"
  using apply_step_eq [of op nodes] by (simp add: apply_step_def fmupd_put_entry)

lemma undoable_apply_operation [undoable_intros]:
  "undoable_step (\<lambda>s. snd (apply_operation_internal op origin s))"
  unfolding undoable_step_def
proof (intro allI impI)
  fix s0 s assume ok: "engine_ok s0" and jd: "journaled s0 s"
  let ?n = "action_node (action op)"
  let ?s1 = "s\<lparr> in_clock := observe (op_revision op) (in_clock s) \<rparr>"
  let ?s2 = "journal_node ?n ?s1"
  let ?s3 = "?s2\<lparr> in_nodes := snd (apply_action op (in_nodes ?s2)) \<rparr>"
  have 1: "journaled s0 ?s1" by (rule undoable_stepD [OF undoable_clock ok jd])
  have 3: "journaled s0 ?s3"
    using undoable_stepD [OF undoable_write_node ok 1, of ?n "\<lambda>s. Some (node_apply op (node_or_new (in_nodes s) ?n))"]
    by (simp add: Let_def apply_action_put)
  have unf: "journaled s0 (let c = journal_operation_queue Unflushed op b in c\<lparr> in_unflushed_ops := queue_push op (in_unflushed_ops c) \<rparr>)"
    if "journaled s0 b" for b by (rule undoable_stepD [OF undoable_push_unflushed ok that])
  have pen: "journaled s0 (let c = journal_operation_queue Pending op b in c\<lparr> in_pending_ops := queue_push op (in_pending_ops c) \<rparr>)"
    if "journaled s0 b" for b by (rule undoable_stepD [OF undoable_push_pending ok that])
  have "journaled s0 (request_reindex_node_relationships ?n (refresh_record_overlay ?n ?s3))"
    by (rule undoable_stepD [OF undoable_request_reindex ok undoable_stepD [OF undoable_overlay ok 3]])
  with unf have 4: "journaled s0 (let c = journal_operation_queue Unflushed op
      (request_reindex_node_relationships ?n (refresh_record_overlay ?n ?s3)) in
      c\<lparr> in_unflushed_ops := queue_push op (in_unflushed_ops c) \<rparr>)" by blast
  show "journaled s0 (snd (apply_operation_internal op origin s))"
    using jd 3 4 pen [OF 4] unfolding apply_operation_internal_def Let_def split_def
    by (simp split: if_splits)
qed

lemma undoable_stamp [undoable_intros]: "undoable_step (stamp_and_apply ns a)"
  unfolding undoable_step_def
proof (intro allI impI)
  fix s0 s assume ok: "engine_ok s0" and jd: "journaled s0 s"
  have "journaled s0 (s\<lparr> in_clock := c, in_reads := r \<rparr>)" for c r
    using undoable_stepD [OF undoable_reads ok jd, of "\<lambda>_. r" "\<lambda>_. c"] .
  then show "journaled s0 (stamp_and_apply ns a s)"
    unfolding stamp_and_apply_def Let_def split_def
    by (intro undoable_stepD [OF undoable_apply_operation ok])
qed

lemmas undoable_writes [undoable_intros] =
  undoable_stamp [of "''set''" "SetField n f v" for n f v, folded set_field_def]
  undoable_stamp [of "''delete''" "DeleteField n f" for n f, folded delete_field_def]
  undoable_stamp [of "''set-add''" "AddSetMember n f m" for n f m, folded add_set_member_def]
  undoable_stamp [of "''set-remove''" "RemoveSetMember n f m" for n f m, folded remove_member_from_set_def]

lemma undoable_reserve [undoable_intros]:
  "undoable_step (\<lambda>s. snd (reserve_node_fetches ns k acc s))"
proof (induction ns arbitrary: acc)
  case Nil
  then show ?case by (simp add: undoable_step_id)
next
  case (Cons n ns)
  show ?case
    unfolding undoable_step_def
  proof (intro allI impI)
    fix s0 s assume ok: "engine_ok s0" and jd: "journaled s0 s"
    note w = undoable_stepD [OF undoable_write_scheduled ok jd, of n True, unfolded Let_def]
    note j = undoable_stepD [OF undoable_journal_scheduled ok jd, of n]
    show "journaled s0 (snd (reserve_node_fetches (n # ns) k acc s))"
      using jd w j undoable_stepD [OF Cons.IH ok] by (simp add: Let_def restore_set_membership_def)
  qed
qed

lemma undoable_release [undoable_intros]: "undoable_step (release_reserved_node_fetches ns)"
proof -
  have "undoable_step (fold (\<lambda>n s. let s1 = journal_scheduled_node_fetch n s
      in s1\<lparr> in_scheduled_node_fetches := in_scheduled_node_fetches s1 |-| {|n|} \<rparr>) ns)"
    using undoable_write_scheduled [of _ False]
    by (intro undoable_step_fold) (simp add: restore_set_membership_def)
  then show ?thesis by (simp add: release_reserved_node_fetches_def [abs_def])
qed

subsection \<open>Restoring\<close>

lemma queue_restored: "queue_inv q0 \<Longrightarrow> queue_undoes q0 u q \<Longrightarrow> queue_restore u q = q0"
  by (rule queue_log.undoes_restore)

lemma reindex_fold_unjournaled:
  "in_transaction_journal s = None \<Longrightarrow>
    fold reindex_node_relationships ns s =
      s\<lparr> in_relationship_index := fold (\<lambda>n. reindex n (in_nodes s)) ns (in_relationship_index s) \<rparr>"
  by (induction ns arbitrary: s) (simp_all add: reindex_node_relationships_def journal_defs Let_def)

lemma journaled_begin: "inner_inv s \<Longrightarrow> journaled s (s\<lparr> in_transaction_journal := Some (journal_begin s) \<rparr>)"
  by (auto simp: journaled_def journal_undoes_def journal_begin_def in_frame_def inner_inv_def
      map_undoes_def set_undoes_def index_undoes_def index_consistent_def
      intro: queue_log.undoes_start)

lemma journaled_restore:
  assumes inv: "inner_inv s0" and j: "in_transaction_journal s = Some j" and u: "journal_undoes s0 j s"
  shows "journal_restore j (s\<lparr> in_transaction_journal := None \<rparr>) = s0\<lparr> in_reads := in_reads s \<rparr>"
proof -
  have nodes: "fold (\<lambda>(n, previous). put_entry n previous) (sorted_list_of_fmap (tj_nodes j)) (in_nodes s) = in_nodes s0"
    using u by (intro map_undoes_restore) (simp add: journal_undoes_def)
  have idx: "fold (\<lambda>n. reindex n (in_nodes s0)) (sorted_list_of_fset (tj_relationship_index_sources j))
      (in_relationship_index s) = in_relationship_index s0"
    using u inv by (intro index_undoes_restore [of _ _ "tj_relationship_index_pending j"])
      (simp_all add: journal_undoes_def inner_inv_def)
  have rest: "queue_restore (tj_pending_ops j) (in_pending_ops s) = in_pending_ops s0"
      "queue_restore (tj_unflushed_ops j) (in_unflushed_ops s) = in_unflushed_ops s0"
      "fold (\<lambda>(n, was). restore_set_membership n was) (sorted_list_of_fmap (tj_missing_nodes j)) (in_missing_nodes s) = in_missing_nodes s0"
      "fold (\<lambda>(n, was). restore_set_membership n was) (sorted_list_of_fmap (tj_scheduled_node_fetches j))
        (in_scheduled_node_fetches s) = in_scheduled_node_fetches s0"
    using u inv by (simp_all add: journal_undoes_def queue_restored set_undoes_restore inner_inv_def)
  have "in_transaction_journal s0 = None" using inv by (simp add: inner_inv_def)
  then show ?thesis
    using u unfolding journal_restore_def Let_def nodes rest
    by (subst reindex_fold_unjournaled) (auto simp: nodes rest idx journal_undoes_def in_frame_def intro: inner.equality)
qed

lemma rollback:
  assumes "inner_inv s" "engine_ok s" "undoable body" "run_local_transaction body s = (Inl e, s')"
  shows "s' = s\<lparr> in_reads := in_reads s' \<rparr>"
proof -
  let ?b = "s\<lparr> in_transaction_journal := Some (journal_begin s) \<rparr>"
  have "journaled s (snd (body ?b))"
    using undoable_stepD [OF assms(3) [unfolded undoable_def] assms(2) journaled_begin [OF assms(1)]] .
  then obtain j where j: "in_transaction_journal (snd (body ?b)) = Some j" "journal_undoes s j (snd (body ?b))"
    by (auto simp: journaled_def)
  from assms(4) have "s' = journal_restore j ((snd (body ?b))\<lparr> in_transaction_journal := None \<rparr>)"
    using j(1) by (auto simp: run_local_transaction_def Let_def split_def split: sum.splits)
  also have "\<dots> = s\<lparr> in_reads := in_reads (snd (body ?b)) \<rparr>"
    by (rule journaled_restore [OF assms(1) j])
  finally show ?thesis by simp
qed

section \<open>What a transaction keeps\<close>

text \<open>
  Inside a transaction the index may lag behind the nodes, but only for the sources that wait
  to be reindexed; outside, it is exact.
\<close>

definition pending_sources :: "inner \<Rightarrow> node_id fset" where
  "pending_sources s =
    (case in_transaction_journal s of None \<Rightarrow> {||} | Some j \<Rightarrow> tj_relationship_index_pending j)"

definition live_upto :: "node_id set \<Rightarrow> inner \<Rightarrow> bool" where
  "live_upto A s \<longleftrightarrow>
    queue_inv (in_pending_ops s) \<and> queue_inv (in_unflushed_ops s) \<and> rel_inv (in_relationship_index s) \<and>
    (\<forall>e. te_source e |\<notin>| pending_sources s \<longrightarrow> te_source e \<notin> A \<longrightarrow>
      (e \<in> rel_edges (in_relationship_index s) \<longleftrightarrow> e \<in> denoted_edges (in_nodes s) (te_source e)))"

definition live :: "inner \<Rightarrow> bool" where
  "live s \<longleftrightarrow> live_upto {} s \<and> engine_ok s"

text \<open>An operation that keeps the state live and neither opens nor closes a transaction.\<close>
definition keeps_live :: "(inner \<Rightarrow> inner) \<Rightarrow> bool" where
  "keeps_live f \<longleftrightarrow> (\<forall>s. live s \<longrightarrow> live (f s) \<and> in_limits (f s) = in_limits s \<and>
    (in_transaction_journal (f s) = None \<longleftrightarrow> in_transaction_journal s = None))"

definition keeps_liveM :: "(inner, primadb_error, 'a) fallible \<Rightarrow> bool" where
  "keeps_liveM m \<longleftrightarrow> keeps_live (\<lambda>s. snd (m s))"

named_theorems live_intros \<open>operations that keep a state live\<close>

lemma keeps_live_comp: "keeps_live f \<Longrightarrow> keeps_live g \<Longrightarrow> keeps_live (\<lambda>s. f (g s))"
  by (simp add: keeps_live_def)

lemma keeps_live_id [live_intros]: "keeps_live (\<lambda>s. s)"
  by (simp add: keeps_live_def)

lemma keeps_live_if [live_intros]:
  "keeps_live f \<Longrightarrow> keeps_live g \<Longrightarrow> keeps_live (\<lambda>s. if P s then f s else g s)"
  by (simp add: keeps_live_def)

lemma keeps_live_fold [live_intros]: "(\<And>x. keeps_live (f x)) \<Longrightarrow> keeps_live (fold f xs)"
proof (induction xs)
  case (Cons x xs)
  then show ?case using keeps_live_comp [of "fold f xs" "f x"] by (simp add: comp_def)
qed (simp add: id_def keeps_live_id)

lemma keeps_liveM_okS [live_intros]: "keeps_liveM (okS a)"
  by (simp add: keeps_liveM_def keeps_live_id okS_def)

lemma keeps_liveM_errS [live_intros]: "keeps_liveM (errS e)"
  by (simp add: keeps_liveM_def keeps_live_id errS_def)

lemma keeps_liveM_modifyS [live_intros]: "keeps_live f \<Longrightarrow> keeps_liveM (modifyS f)"
  by (simp add: keeps_liveM_def modifyS_def)

lemma keeps_liveM_readS [live_intros]: "keeps_liveM (readS f)"
  by (simp add: keeps_liveM_def keeps_live_id)

lemma keeps_liveM_checkS [live_intros]: "keeps_liveM (checkS f)"
  by (simp add: keeps_liveM_def keeps_live_id)

lemma keeps_liveM_stateS [live_intros]: "keeps_live (\<lambda>s. snd (f s)) \<Longrightarrow> keeps_liveM (stateS f)"
  by (simp add: keeps_liveM_def)

lemma keeps_liveM_bindS [live_intros]:
  assumes "keeps_liveM m" "\<And>a. keeps_liveM (f a)"
  shows "keeps_liveM (bindS m f)"
proof -
  have "keeps_live (\<lambda>s. snd (f a s))" for a using assms(2) by (simp add: keeps_liveM_def)
  with assms(1) show ?thesis
    unfolding keeps_liveM_def keeps_live_def bindS_def split_def by (auto split: sum.splits)
qed

lemma live_upto_cong:
  "in_pending_ops t = in_pending_ops s \<Longrightarrow> in_unflushed_ops t = in_unflushed_ops s \<Longrightarrow>
   in_relationship_index t = in_relationship_index s \<Longrightarrow> in_nodes t = in_nodes s \<Longrightarrow>
   pending_sources t = pending_sources s \<Longrightarrow> live_upto A t = live_upto A s"
  by (simp add: live_upto_def)

lemma live_upto_mono: "live_upto A s \<Longrightarrow> A \<subseteq> B \<Longrightarrow> live_upto B s"
  by (auto simp: live_upto_def)

text \<open>Noting changes the journal only, and not the sources that wait.\<close>
lemma with_journal_simps [simp]:
  "in_nodes (with_journal f s) = in_nodes s" "in_pending_ops (with_journal f s) = in_pending_ops s"
  "in_unflushed_ops (with_journal f s) = in_unflushed_ops s"
  "in_relationship_index (with_journal f s) = in_relationship_index s"
  "in_storage_engine (with_journal f s) = in_storage_engine s" "in_limits (with_journal f s) = in_limits s"
  "in_missing_nodes (with_journal f s) = in_missing_nodes s"
  "in_scheduled_node_fetches (with_journal f s) = in_scheduled_node_fetches s"
  "(in_transaction_journal (with_journal f s) = None) = (in_transaction_journal s = None)"
  by (simp_all add: with_journal_def split: option.splits)

lemma pending_with_journal [simp]:
  "(\<And>j. tj_relationship_index_pending (f j) = tj_relationship_index_pending j) \<Longrightarrow>
    pending_sources (with_journal f s) = pending_sources s"
  by (simp add: pending_sources_def with_journal_def split: option.splits)

lemma pending_sources_cong [simp]:
  "pending_sources (s\<lparr> in_nodes := a \<rparr>) = pending_sources s"
  "pending_sources (s\<lparr> in_clock := b \<rparr>) = pending_sources s"
  "pending_sources (s\<lparr> in_reads := b' \<rparr>) = pending_sources s"
  "pending_sources (s\<lparr> in_missing_nodes := c \<rparr>) = pending_sources s"
  "pending_sources (s\<lparr> in_scheduled_node_fetches := d \<rparr>) = pending_sources s"
  "pending_sources (s\<lparr> in_relationship_index := e \<rparr>) = pending_sources s"
  "pending_sources (s\<lparr> in_unflushed_ops := g \<rparr>) = pending_sources s"
  "pending_sources (s\<lparr> in_pending_ops := h \<rparr>) = pending_sources s"
  "pending_sources (s\<lparr> in_record_overlay := i \<rparr>) = pending_sources s"
  "pending_sources (s\<lparr> in_record_overlay_node_keys := k \<rparr>) = pending_sources s"
  by (simp_all add: pending_sources_def)

lemma live_upto_put_entry:
  "live_upto A s \<Longrightarrow> live_upto (insert n A) (s\<lparr> in_nodes := put_entry n v (in_nodes s) \<rparr>)"
  by (auto simp: live_upto_def denoted_edges_def)

lemma live_upto_same_edges:
  "live_upto A s \<Longrightarrow> (\<And>n. denoted_edges nodes n = denoted_edges (in_nodes s) n) \<Longrightarrow>
    live_upto A (s\<lparr> in_nodes := nodes \<rparr>)"
  by (simp add: live_upto_def)

lemma live_upto_reindex:
  assumes "live_upto A s"
  shows "live_upto (A - {n}) (reindex_node_relationships n s)"
proof -
  have "rel_inv (in_relationship_index s)" using assms by (simp add: live_upto_def)
  note r = reindex_edges [OF this, of n "in_nodes s"]
  have "te_source e = n" if "e \<in> denoted_edges (in_nodes s) n" for e using denoted_edges_source that .
  with r assms show ?thesis
    by (auto simp: live_upto_def reindex_node_relationships_def Let_def journal_node_def)
qed

lemma live_upto_request:
  assumes "live_upto A s"
  shows "live_upto (A - {n}) (request_reindex_node_relationships n s)"
proof (cases "in_transaction_journal s")
  case None
  then show ?thesis using live_upto_reindex [OF assms] by (simp add: request_reindex_node_relationships_def)
next
  case (Some j)
  then show ?thesis
    using assms by (auto simp: request_reindex_node_relationships_def live_upto_def pending_sources_def)
qed

lemma keeps_liveI:
  "(\<And>s. live_upto {} s \<Longrightarrow> engine_ok s \<Longrightarrow> live_upto {} (f s)) \<Longrightarrow>
   (\<And>s. in_storage_engine (f s) = in_storage_engine s \<and> in_limits (f s) = in_limits s) \<Longrightarrow>
   (\<And>s. (in_transaction_journal (f s) = None) = (in_transaction_journal s = None)) \<Longrightarrow> keeps_live f"
  by (simp add: keeps_live_def live_def engine_ok_def)

lemma overlay_simps [simp]:
  "in_nodes (refresh_record_overlay n s) = in_nodes s"
  "in_pending_ops (refresh_record_overlay n s) = in_pending_ops s"
  "in_unflushed_ops (refresh_record_overlay n s) = in_unflushed_ops s"
  "in_relationship_index (refresh_record_overlay n s) = in_relationship_index s"
  "in_storage_engine (refresh_record_overlay n s) = in_storage_engine s"
  "in_limits (refresh_record_overlay n s) = in_limits s"
  "in_clock (refresh_record_overlay n s) = in_clock s"
  "in_scope_policies (refresh_record_overlay n s) = in_scope_policies s"
  "in_transaction_journal (refresh_record_overlay n s) = in_transaction_journal s"
  by (simp_all add: refresh_record_overlay_def Let_def split: option.splits)

lemma pending_overlay [simp]: "pending_sources (refresh_record_overlay n s) = pending_sources s"
  by (simp add: pending_sources_def)

lemma request_simps [simp]:
  "in_nodes (request_reindex_node_relationships n s) = in_nodes s"
  "in_pending_ops (request_reindex_node_relationships n s) = in_pending_ops s"
  "in_unflushed_ops (request_reindex_node_relationships n s) = in_unflushed_ops s"
  "in_storage_engine (request_reindex_node_relationships n s) = in_storage_engine s"
  "in_limits (request_reindex_node_relationships n s) = in_limits s"
  "in_missing_nodes (request_reindex_node_relationships n s) = in_missing_nodes s"
  "(in_transaction_journal (request_reindex_node_relationships n s) = None) = (in_transaction_journal s = None)"
  by (simp_all add: request_reindex_node_relationships_def reindex_node_relationships_def journal_node_def Let_def
      split: option.splits)

lemma keeps_live_clock [live_intros]: "keeps_live (\<lambda>s. s\<lparr> in_clock := f s, in_reads := g s \<rparr>)"
  by (rule keeps_liveI) (simp_all add: live_upto_def)

lemma keeps_live_scheduled [live_intros]:
  "keeps_live (\<lambda>s. let s1 = journal_scheduled_node_fetch n s in s1\<lparr> in_scheduled_node_fetches := f s1 \<rparr>)"
  by (rule keeps_liveI) (simp_all add: live_upto_def journal_scheduled_node_fetch_def Let_def)

lemma keeps_live_journal_scheduled [live_intros]: "keeps_live (journal_scheduled_node_fetch n)"
  by (rule keeps_liveI) (simp_all add: live_upto_def journal_scheduled_node_fetch_def)

lemma keeps_live_release [live_intros]: "keeps_live (release_reserved_node_fetches ns)"
  unfolding release_reserved_node_fetches_def [abs_def]
  by (intro keeps_live_fold keeps_live_scheduled)

lemma keeps_live_reserve [live_intros]: "keeps_live (\<lambda>s. snd (reserve_node_fetches ns k acc s))"
proof (induction ns arbitrary: acc)
  case (Cons n ns)
  have w: "keeps_live (\<lambda>s. let s1 = journal_scheduled_node_fetch n s
      in s1\<lparr> in_scheduled_node_fetches := finsert n (in_scheduled_node_fetches s1) \<rparr>)"
    by (rule keeps_live_scheduled)
  have "keeps_live (\<lambda>s. if length acc \<ge> k then s
      else if n |\<in>| in_scheduled_node_fetches s then snd (reserve_node_fetches ns k acc (journal_scheduled_node_fetch n s))
      else snd (reserve_node_fetches ns k (acc @ [n]) (let s1 = journal_scheduled_node_fetch n s
        in s1\<lparr> in_scheduled_node_fetches := finsert n (in_scheduled_node_fetches s1) \<rparr>)))"
    by (intro keeps_live_if keeps_live_id keeps_live_comp [OF Cons.IH] keeps_live_journal_scheduled w)
  moreover have "(\<lambda>s. snd (reserve_node_fetches (n # ns) k acc s)) = (\<lambda>s. if length acc \<ge> k then s
      else if n |\<in>| in_scheduled_node_fetches s then snd (reserve_node_fetches ns k acc (journal_scheduled_node_fetch n s))
      else snd (reserve_node_fetches ns k (acc @ [n]) (let s1 = journal_scheduled_node_fetch n s
        in s1\<lparr> in_scheduled_node_fetches := finsert n (in_scheduled_node_fetches s1) \<rparr>)))"
    by (auto simp: fun_eq_iff Let_def journal_scheduled_node_fetch_def)
  ultimately show ?case by simp
qed (simp add: keeps_live_id)

lemma denoted_edges_empty_node: "set (node_edges n (node_state_new n)) = {}"
  by (simp add: node_edges_def node_state_new_def sorted_list_of_fmap_def)

lemma denoted_edges_node_or_new: "denoted_edges (put_entry m (Some (node_or_new nodes m)) nodes) n = denoted_edges nodes n"
  by (simp add: denoted_edges_def node_or_new_def denoted_edges_empty_node split: option.splits)

lemma keeps_live_write_missing [live_intros]:
  "keeps_live (\<lambda>s. let s1 = journal_missing_node n s in s1\<lparr> in_missing_nodes := f s1 \<rparr>)"
  by (rule keeps_liveI) (simp_all add: live_upto_def journal_missing_node_def Let_def)

lemma keeps_live_touch_node [live_intros]:
  "keeps_live (\<lambda>s. let s1 = journal_node n s
    in s1\<lparr> in_nodes := put_entry n (Some (node_or_new (in_nodes s1) n)) (in_nodes s1) \<rparr>)"
  by (rule keeps_liveI) (simp_all add: live_upto_def journal_node_def Let_def denoted_edges_node_or_new)

lemma keeps_live_ensure_node [live_intros]: "keeps_live (ensure_node n)"
  unfolding ensure_node_eq by (rule keeps_live_comp [OF keeps_live_write_missing keeps_live_touch_node])

lemma maybe_load_frame:
  "in_storage_engine (snd (maybe_load_node n s)) = in_storage_engine s \<and>
   in_limits (snd (maybe_load_node n s)) = in_limits s \<and>
   (in_transaction_journal (snd (maybe_load_node n s)) = None) = (in_transaction_journal s = None)"
  by (cases rule: maybe_load_cases [where n = n and s = s])
    (simp_all add: loaded_node_def marked_missing_def Let_def journal_missing_node_def journal_node_def)

lemma keeps_live_maybe_load [live_intros]: "keeps_liveM (maybe_load_node n)"
  unfolding keeps_liveM_def
proof (rule keeps_liveI)
  fix s assume l: "live_upto {} s" and ok: "engine_ok s"
  show "live_upto {} (snd (maybe_load_node n s))"
  proof (cases rule: maybe_load_cases [where n = n and s = s])
    case (3 engine st)
    with ok have "nst_id st = n" unfolding engine_ok_def by metis
    then obtain v where v: "merge_node_state (in_nodes s) st = put_entry n (Some v) (in_nodes s)"
      using loaded_node_put by blast
    let ?s1 = "journal_node n s"
    let ?s3 = "journal_missing_node n (?s1\<lparr> in_nodes := merge_node_state (in_nodes ?s1) st \<rparr>)"
    have "live_upto {n} (?s3\<lparr> in_missing_nodes := M \<rparr>)" for M
      using live_upto_put_entry [OF l, of n "Some v"] v
      by (simp add: live_upto_def journal_missing_node_def journal_node_def)
    from live_upto_request [OF this, of n] 3 show ?thesis by (simp add: loaded_node_def Let_def)
  next
    case 2
    with l show ?thesis by (simp add: marked_missing_def Let_def live_upto_def journal_missing_node_def)
  qed (use l in simp)
qed (simp_all add: maybe_load_frame)

lemma rejected_keeps_edges:
  assumes "\<not> fst (apply_action op nodes)"
  shows "denoted_edges (snd (apply_action op nodes)) n = denoted_edges nodes n"
proof -
  let ?n = "action_node (action op)"
  have "snd (apply_to_node m a st) = st" if "\<not> fst (apply_to_node m a st)" for m a st
    using that by (cases a)
      (auto simp: apply_set_field_def apply_add_member_def apply_remove_member_def apply_delete_field_def
        split: option.splits field_value.splits if_splits)
  with assms have "snd (apply_action op nodes) = put_entry ?n (Some (node_or_new nodes ?n)) nodes"
    by (simp add: apply_action_def node_or_new_def Let_def split_def fmupd_put_entry)
  then show ?thesis by (simp add: denoted_edges_node_or_new)
qed

lemma keeps_live_push_unflushed:
  "keeps_live (\<lambda>s. let c = journal_operation_queue Unflushed op s
    in c\<lparr> in_unflushed_ops := queue_push op (in_unflushed_ops c) \<rparr>)"
  by (rule keeps_liveI) (simp_all add: live_upto_def Let_def queue_inv_push)

lemma keeps_live_push_pending:
  "keeps_live (\<lambda>s. let c = journal_operation_queue Pending op s
    in c\<lparr> in_pending_ops := queue_push op (in_pending_ops c) \<rparr>)"
  by (rule keeps_liveI) (simp_all add: live_upto_def Let_def queue_inv_push)

text \<open>The state after the node has been written, and after the accepted operation is indexed and queued.\<close>
definition written_state :: "operation \<Rightarrow> inner \<Rightarrow> inner" where
  "written_state op s =
    (let s2 = journal_node (action_node (action op)) (s\<lparr> in_clock := observe (op_revision op) (in_clock s) \<rparr>)
     in s2\<lparr> in_nodes := snd (apply_action op (in_nodes s)) \<rparr>)"

definition indexed_state :: "operation \<Rightarrow> inner \<Rightarrow> inner" where
  "indexed_state op s =
    request_reindex_node_relationships (action_node (action op))
      (refresh_record_overlay (action_node (action op)) (written_state op s))"

definition queued :: "operation \<Rightarrow> inner \<Rightarrow> inner" where
  "queued op s =
    (let c = journal_operation_queue Unflushed op s in c\<lparr> in_unflushed_ops := queue_push op (in_unflushed_ops c) \<rparr>)"

definition enqueued :: "operation \<Rightarrow> inner \<Rightarrow> inner" where
  "enqueued op s =
    (let c = journal_operation_queue Pending op s in c\<lparr> in_pending_ops := queue_push op (in_pending_ops c) \<rparr>)"

lemma apply_operation_cases:
  "apply_operation_internal op origin s =
    (if origin = Local \<and> queue_len (in_pending_ops s) \<ge> max_pending_ops (in_limits s) \<or>
        origin = Remote \<and> \<not> remote_operation_allowed op s then (False, s)
     else if \<not> fst (apply_action op (in_nodes s)) then (False, written_state op s)
     else (True, (if origin = Local then enqueued op else id) (queued op (indexed_state op s))))"
  by (simp add: apply_operation_internal_def written_state_def indexed_state_def queued_def enqueued_def
      Let_def split_def journal_node_def)

lemma keeps_live_indexed: "keeps_live (indexed_state op)"
proof (rule keeps_liveI)
  fix s assume l: "live_upto {} s"
  let ?n = "action_node (action op)"
  have "live_upto {?n} (written_state op s)"
    using live_upto_put_entry [OF l, of ?n "Some (node_apply op (node_or_new (in_nodes s) ?n))"]
    by (simp add: written_state_def Let_def journal_node_def live_upto_def apply_action_put)
  then have "live_upto {?n} (refresh_record_overlay ?n (written_state op s))" by (simp add: live_upto_def)
  from live_upto_request [OF this, of ?n] show "live_upto {} (indexed_state op s)" by (simp add: indexed_state_def)
qed (simp_all add: indexed_state_def written_state_def Let_def journal_node_def)

lemma keeps_live_rejected: "keeps_live (\<lambda>s. if fst (apply_action op (in_nodes s)) then s else written_state op s)"
  by (rule keeps_liveI)
    (simp_all add: written_state_def Let_def journal_node_def live_upto_def rejected_keeps_edges)

lemma keeps_live_apply [live_intros]: "keeps_live (\<lambda>s. snd (apply_operation_internal op origin s))"
proof -
  have q: "keeps_live (\<lambda>s. queued op (indexed_state op s))"
    using keeps_live_comp [OF keeps_live_push_unflushed keeps_live_indexed] by (simp add: queued_def)
  have e: "keeps_live (\<lambda>s. enqueued op (queued op (indexed_state op s)))"
    using keeps_live_comp [OF keeps_live_push_pending q] by (simp add: enqueued_def)
  have "snd (apply_operation_internal op origin s) =
      (if origin = Local \<and> queue_len (in_pending_ops s) \<ge> max_pending_ops (in_limits s) \<or>
        origin = Remote \<and> \<not> remote_operation_allowed op s then s
      else if \<not> fst (apply_action op (in_nodes s))
        then (if fst (apply_action op (in_nodes s)) then s else written_state op s)
      else if origin = Local then enqueued op (queued op (indexed_state op s)) else queued op (indexed_state op s))" for s
    by (simp add: apply_operation_cases)
  then show ?thesis
    using keeps_live_if [OF keeps_live_id keeps_live_if [OF keeps_live_rejected keeps_live_if [OF e q]]]
    by (simp only:)
qed

lemma keeps_live_stamp [live_intros]: "keeps_live (stamp_and_apply ns a)"
  unfolding keeps_live_def
proof (intro allI impI)
  fix s assume l: "live s"
  obtain r c1 where r: "next_revision (in_time s (in_reads s)) (in_clock s) = (r, c1)" by fastforce
  obtain i c2 where i: "next_op_id ns c1 = (i, c2)" by fastforce
  let ?op = "\<lparr> op_id = i, author = clk_actor c2, op_revision = r, action = a \<rparr>"
  have "live (s\<lparr> in_clock := c2, in_reads := Suc (in_reads s) \<rparr>)"
    using l by (simp add: live_def live_upto_def engine_ok_def)
  with keeps_live_apply [of ?op Local]
  show "live (stamp_and_apply ns a s) \<and> in_limits (stamp_and_apply ns a s) = in_limits s \<and>
      (in_transaction_journal (stamp_and_apply ns a s) = None) = (in_transaction_journal s = None)"
    by (simp add: stamp_and_apply_def r i keeps_live_def)
qed

lemmas keeps_live_writes [live_intros] =
  keeps_live_stamp [of "''set''" "SetField n f v" for n f v, folded set_field_def]
  keeps_live_stamp [of "''delete''" "DeleteField n f" for n f, folded delete_field_def]
  keeps_live_stamp [of "''set-add''" "AddSetMember n f m" for n f m, folded add_set_member_def]
  keeps_live_stamp [of "''set-remove''" "RemoveSetMember n f m" for n f m, folded remove_member_from_set_def]

lemma live_begin: "inner_inv s \<Longrightarrow> engine_ok s \<Longrightarrow> live (s\<lparr> in_transaction_journal := Some (journal_begin s) \<rparr>)"
  using denoted_edges_source
  by (auto simp: live_def live_upto_def inner_inv_def engine_ok_def journal_begin_def index_consistent_def
      pending_sources_def)

lemma live_flush:
  assumes "live s"
  shows "inner_inv ((flush_pending_relationship_index s)\<lparr> in_transaction_journal := None \<rparr>)"
proof -
  have fold_upto: "live_upto (A - set ns) (fold reindex_node_relationships ns t)" if "live_upto A t" for A ns t
    using that
  proof (induction ns arbitrary: A t)
    case (Cons n ns)
    from Cons.IH [OF live_upto_reindex [OF Cons.prems, of n]] show ?case
      by (simp add: Diff_insert2 [symmetric])
  qed simp
  have exact: "inner_inv (t\<lparr> in_transaction_journal := None \<rparr>)"
    if "live_upto {} t" "pending_sources t = {||}" for t
  proof -
    have "e \<in> (\<Union>n. denoted_edges (in_nodes t) n) \<longleftrightarrow> e \<in> denoted_edges (in_nodes t) (te_source e)" for e
      using denoted_edges_Union [of e "in_nodes t" UNIV] by simp
    with that show ?thesis
      by (auto simp: live_upto_def inner_inv_def index_consistent_def set_eq_iff)
  qed
  show ?thesis
  proof (cases "in_transaction_journal s")
    case None
    with assms show ?thesis
      using exact [of s] by (simp add: flush_pending_relationship_index_def live_def pending_sources_def)
  next
    case (Some j)
    let ?ns = "sorted_list_of_fset (tj_relationship_index_pending j)"
    let ?t = "s\<lparr> in_transaction_journal := Some (j\<lparr> tj_relationship_index_pending := {||} \<rparr>) \<rparr>"
    have "live_upto (fset (tj_relationship_index_pending j)) ?t"
      using assms Some by (simp add: live_def live_upto_def pending_sources_def)
    from fold_upto [OF this, of ?ns] have "live_upto {} (fold reindex_node_relationships ?ns ?t)" by simp
    moreover have "pending_sources (fold reindex_node_relationships ns t) = pending_sources t" for ns t
      by (induction ns arbitrary: t) (simp_all add: reindex_node_relationships_def journal_node_def Let_def)
    ultimately show ?thesis
      using exact [of "fold reindex_node_relationships ?ns ?t"] Some
      by (simp add: flush_pending_relationship_index_def pending_sources_def)
  qed
qed

lemma commit_keeps_inv:
  assumes "inner_inv s" "engine_ok s" "keeps_liveM body" "run_local_transaction body s = (Inr r, s')"
  shows "inner_inv s'"
proof -
  let ?b = "s\<lparr> in_transaction_journal := Some (journal_begin s) \<rparr>"
  have "live (snd (body ?b))"
    using live_begin [OF assms(1,2)] assms(3) by (simp add: keeps_liveM_def keeps_live_def)
  from live_flush [OF this] assms(4) show ?thesis
    by (auto simp: run_local_transaction_def Let_def split_def split: sum.splits option.splits)
qed

section \<open>Scope policies\<close>

lemma max_by_key_SomeD:
  "max_by_key f xs = Some x \<Longrightarrow> x \<in> set xs \<and> (\<forall>y \<in> set xs. f y \<le> f x)"
proof (induction xs arbitrary: x)
  case (Cons a xs)
  show ?case
  proof (cases "max_by_key f xs")
    case None
    with Cons.prems show ?thesis by (cases xs) (auto split: option.splits if_splits)
  next
    case (Some y)
    with Cons.IH [OF Some] Cons.prems show ?thesis by (auto split: if_splits)
  qed
qed simp

lemma max_by_key_None: "max_by_key f xs = None \<longleftrightarrow> xs = []"
  by (cases xs) (auto split: option.splits)

lemma matching_scope_prefix: "node_matches_root path scope \<Longrightarrow> take (length scope) path = scope"
  by (auto simp: node_matches_root_def starts_with_iff_prefix prefix_def)

lemma matching_scope_unique:
  "node_matches_root path a \<Longrightarrow> node_matches_root path b \<Longrightarrow> length a = length b \<Longrightarrow> a = b"
  using matching_scope_prefix by metis

lemma governing_policy:
  "policy_for_path policies path = Some (scope, p) \<longleftrightarrow>
    fmlookup policies scope = Some p \<and> node_matches_root path scope \<and>
    (\<forall>other. other |\<in>| fmdom policies \<longrightarrow> node_matches_root path other \<longrightarrow> length other \<le> length scope)"
  (is "_ \<longleftrightarrow> ?spec scope p")
proof -
  let ?xs = "filter (\<lambda>(scope, _). node_matches_root path scope) (sorted_list_of_fmap policies)"
  have mem: "(t, q) \<in> set ?xs \<longleftrightarrow> fmlookup policies t = Some q \<and> node_matches_root path t" for t q
    by (auto simp: set_sorted_list_of_fmap)
  have sound: "?spec t q" if m: "max_by_key (\<lambda>(scope, _). length scope) ?xs = Some (t, q)" for t q
  proof -
    have in_xs: "(t, q) \<in> set ?xs" by (rule max_by_key_SomeD [OF m, THEN conjunct1])
    note le = max_by_key_SomeD [OF m, THEN conjunct2, THEN bspec]
    have "length other \<le> length t" if "other |\<in>| fmdom policies" "node_matches_root path other" for other
    proof -
      from that(1) obtain r where "fmlookup policies other = Some r" by (auto simp: fmlookup_dom_iff)
      with that(2) have "(other, r) \<in> set ?xs" using mem by blast
      from le [OF this] show ?thesis by simp
    qed
    with in_xs mem show ?thesis by blast
  qed
  show ?thesis
  proof
    assume "policy_for_path policies path = Some (scope, p)"
    then show "?spec scope p" unfolding policy_for_path_def by (rule sound)
  next
    assume spec: "?spec scope p"
    then have "(scope, p) \<in> set ?xs" using mem by blast
    then have "?xs \<noteq> []" by (rule list.set_cases) simp_all
    then obtain tq where "max_by_key (\<lambda>(scope, _). length scope) ?xs = Some tq"
      using max_by_key_None [of "\<lambda>(scope, _). length scope" ?xs] by (auto simp only: not_None_eq [symmetric])
    then obtain t q where tq: "max_by_key (\<lambda>(scope, _). length scope) ?xs = Some (t, q)"
      by (cases tq) simp
    note st = sound [OF tq]
    have "length scope \<le> length t" using st spec fmdomI [of policies scope p] by simp
    moreover have "length t \<le> length scope" using st spec fmdomI [of policies t q] by simp
    ultimately have "t = scope" using st spec matching_scope_unique [of path t scope] by simp
    with st spec tq show "policy_for_path policies path = Some (scope, p)" by (simp add: policy_for_path_def)
  qed
qed

text \<open>
  C27: The policy of a path is that of its most specific scope.  The lookup returns exactly the
  policy registered for the longest scope that covers the path, where a scope covers itself and
  everything below it, and there is at most one such scope.
\<close>
theorem policy_is_most_specific:
  "policy_for_path policies path = Some (scope, p) \<longleftrightarrow>
    fmlookup policies scope = Some p \<and> node_matches_root path scope \<and>
    (\<forall>other. other |\<in>| fmdom policies \<longrightarrow> node_matches_root path other \<longrightarrow> length other \<le> length scope)"
  by (rule governing_policy)

definition coordinated_by :: "string \<Rightarrow> scope_policy" where
  "coordinated_by peer = scope_policy_default\<lparr> sp_consistency := Coordinated, sp_authority := Some (APeer peer) \<rparr>"

theorem policy_is_most_specific_witness:
  "policy_for_path (fmap_of_list [(''app'', scope_policy_default), (''app/bank'', coordinated_by ''p'')]) ''app/bank/x'' =
    Some (''app/bank'', coordinated_by ''p'')"
  unfolding policy_is_most_specific
  by (simp add: fmdom'_alt_def [symmetric] node_matches_root_def starts_with_def fmlookup_of_list)

text \<open>Operations received from other replicas, in the order they arrive.\<close>
definition receive_operations :: "operation list \<Rightarrow> inner \<Rightarrow> inner" where
  "receive_operations ops s = fold (\<lambda>op s. snd (apply_operation_internal op Remote s)) ops s"

lemma policies_simps [simp]:
  "in_scope_policies (request_reindex_node_relationships n s) = in_scope_policies s"
  "in_scope_policies (with_journal f s) = in_scope_policies s"
  by (simp_all add: request_reindex_node_relationships_def reindex_node_relationships_def journal_node_def
      Let_def with_journal_def split: option.splits)

lemma apply_operation_policies: "in_scope_policies (snd (apply_operation_internal op origin s)) = in_scope_policies s"
  by (simp add: apply_operation_cases written_state_def indexed_state_def queued_def enqueued_def Let_def
      journal_node_def)

lemma apply_operation_nodes:
  "in_nodes (snd (apply_operation_internal op origin s)) = in_nodes s \<or>
   in_nodes (snd (apply_operation_internal op origin s)) = apply_step op (in_nodes s)"
  by (simp add: apply_operation_cases written_state_def indexed_state_def queued_def enqueued_def Let_def
      journal_node_def apply_step_def)

text \<open>
  C12: A coordinated scope is closed to other authors.  If the policy that governs a field is
  coordinated and no operation of a received batch that touches the field is by its authority,
  then the batch leaves the value and the tombstone of the field as they were, whatever else
  the batch does and in whatever order it arrives.
\<close>
theorem coordinated_scope_is_closed:
  assumes "policy_for_path (in_scope_policies s) (n @ ''/'' @ f) = Some (scope, p)" "sp_consistency p = Coordinated"
    and "\<forall>op \<in> set ops. targets n f op \<longrightarrow> \<not> scope_policy_matches_authority_actor p (author op)"
  shows "cell_at (in_nodes (receive_operations ops s)) n f = cell_at (in_nodes s) n f"
  using assms
proof (induction ops arbitrary: s)
  case (Cons op ops)
  let ?s = "snd (apply_operation_internal op Remote s)"
  have "cell_at (in_nodes ?s) n f = cell_at (in_nodes s) n f"
  proof (cases "targets n f op")
    case True
    then have "\<not> remote_operation_allowed op s"
      using Cons.prems by (auto simp: remote_operation_allowed_def operation_touched_path_def targets_def)
    then show ?thesis by (simp add: apply_operation_cases)
  next
    case False
    with apply_operation_nodes [of op Remote s] show ?thesis by (auto simp: cell_at_step)
  qed
  with Cons.IH [of ?s] Cons.prems show ?case
    by (simp add: receive_operations_def apply_operation_policies)
qed (simp add: receive_operations_def)

theorem coordinated_scope_is_closed_witness:
  "cell_at (in_nodes (receive_operations
      [demo_op 5 (SetField ''app/bank'' ''x'' (OScalar JNull)), demo_op 6 (SetField ''app/log'' ''x'' (OScalar JNull))]
      ((with_replica_id (\<lambda>_. 1) ''r'')\<lparr> in_scope_policies := fmap_of_list [(''app/bank'', coordinated_by ''p'')] \<rparr>)))
      ''app/bank'' ''x'' = (None, None)"
proof -
  let ?s = "(with_replica_id (\<lambda>_. 1) ''r'')\<lparr> in_scope_policies := fmap_of_list [(''app/bank'', coordinated_by ''p'')] \<rparr>"
  let ?ops = "[demo_op 5 (SetField ''app/bank'' ''x'' (OScalar JNull)), demo_op 6 (SetField ''app/log'' ''x'' (OScalar JNull))]"
  have "policy_for_path (in_scope_policies ?s) (''app/bank'' @ ''/'' @ ''x'') = Some (''app/bank'', coordinated_by ''p'')"
    unfolding governing_policy by (simp add: node_matches_root_def starts_with_def fmlookup_of_list)
  moreover have "sp_consistency (coordinated_by ''p'') = Coordinated" by (simp add: coordinated_by_def)
  moreover have "\<forall>op \<in> set ?ops. targets ''app/bank'' ''x'' op \<longrightarrow>
      \<not> scope_policy_matches_authority_actor (coordinated_by ''p'') (author op)"
    by (simp add: demo_op_def coordinated_by_def scope_policy_matches_authority_actor_def actor_names_def)
  ultimately have "cell_at (in_nodes (receive_operations ?ops ?s)) ''app/bank'' ''x'' = cell_at (in_nodes ?s) ''app/bank'' ''x''"
    by (rule coordinated_scope_is_closed)
  then show ?thesis by (simp add: with_replica_id_def)
qed

section \<open>Local writes take effect\<close>

text \<open>The states of a replica: it starts empty, stamps and applies local actions, and receives operations.\<close>
inductive reachable :: "inner \<Rightarrow> bool" where
  start: "reachable ((with_replica_id time r)\<lparr> in_limits := l, in_scope_policies := p \<rparr>)"
| local_action: "reachable s \<Longrightarrow> reachable (stamp_and_apply ns a s)"
| received: "reachable s \<Longrightarrow> reachable (snd (apply_operation_internal op Remote s))"

definition marker_covered :: "hybrid_clock \<Rightarrow> version_marker \<Rightarrow> bool" where
  "marker_covered c m = clock_covers c (rev_millis (vm_revision m)) (rev_counter (vm_revision m))"

definition cell_covered :: "hybrid_clock \<Rightarrow> cell \<Rightarrow> bool" where
  "cell_covered c cl \<longleftrightarrow>
    (\<forall>fs. fst cl = Some fs \<longrightarrow> marker_covered c (fld_version fs)) \<and> (\<forall>t. snd cl = Some t \<longrightarrow> marker_covered c t)"

definition nodes_covered :: "inner \<Rightarrow> bool" where
  "nodes_covered s \<longleftrightarrow> (\<forall>n f. cell_covered (in_clock s) (cell_at (in_nodes s) n f))"

lemma cell_covered_mono:
  "cell_covered c cl \<Longrightarrow> clock_covers d (clk_last_millis c) (clk_counter c) \<Longrightarrow> cell_covered d cl"
  by (auto simp: cell_covered_def marker_covered_def intro: clock_covers_trans)

lemma cell_covered_apply: "cell_covered c cl \<Longrightarrow> marker_covered c m \<Longrightarrow> cell_covered c (cell_apply m a cl)"
  by (cases a)
    (auto simp: cell_covered_def cell_write_def cell_member_def max_def split: option.splits field_value.splits if_splits)

lemma apply_operation_clock:
  "in_clock (snd (apply_operation_internal op origin s)) = in_clock s \<and>
     in_nodes (snd (apply_operation_internal op origin s)) = in_nodes s \<or>
   in_clock (snd (apply_operation_internal op origin s)) = observe (op_revision op) (in_clock s) \<and>
     in_nodes (snd (apply_operation_internal op origin s)) = apply_step op (in_nodes s)"
  by (simp add: apply_operation_cases written_state_def indexed_state_def queued_def enqueued_def Let_def
      journal_node_def apply_step_def with_journal_def request_reindex_node_relationships_def
      reindex_node_relationships_def split: option.split)

lemma nodes_covered_apply:
  assumes "nodes_covered s"
  shows "nodes_covered (snd (apply_operation_internal op origin s))"
proof -
  let ?c = "observe (op_revision op) (in_clock s)"
  have "cell_covered ?c (cell_at (in_nodes s) n f)" for n f
    using assms by (auto simp: nodes_covered_def intro: cell_covered_mono observe_keeps)
  moreover have "marker_covered ?c (marker_of op)"
    by (simp add: marker_covered_def marker_of_def observe_covers)
  ultimately have "cell_covered ?c (cell_at (apply_step op (in_nodes s)) n f)" for n f
    by (simp add: cell_at_step cell_covered_apply)
  with assms apply_operation_clock [of op origin s] show ?thesis by (auto simp: nodes_covered_def)
qed

lemma nodes_covered_stamp:
  assumes "nodes_covered s"
  shows "nodes_covered (stamp_and_apply ns a s)"
proof -
  obtain r c1 where r: "next_revision (in_time s (in_reads s)) (in_clock s) = (r, c1)" by fastforce
  obtain i c2 where i: "next_op_id ns c1 = (i, c2)" by fastforce
  have "clock_covers c2 (clk_last_millis (in_clock s)) (clk_counter (in_clock s))"
    using next_revision_keeps [OF r] next_op_id_keeps [OF i] by (simp add: clock_covers_def)
  then have "nodes_covered (s\<lparr> in_clock := c2, in_reads := Suc (in_reads s) \<rparr>)"
    using assms by (auto simp: nodes_covered_def intro: cell_covered_mono)
  from nodes_covered_apply [OF this] show ?thesis by (simp add: stamp_and_apply_def r i)
qed

lemma reachable_covered: "reachable s \<Longrightarrow> nodes_covered s"
proof (induction rule: reachable.induct)
  case (start time r l p)
  then show ?case by (simp add: nodes_covered_def cell_covered_def with_replica_id_def)
qed (simp_all add: nodes_covered_stamp nodes_covered_apply)

text \<open>A stamped action is applied and not blocked, and touches its own cell only.\<close>
lemma stamp_effect:
  assumes "reachable s" "queue_len (in_pending_ops s) < max_pending_ops (in_limits s)"
    and "unat (clk_counter (in_clock s)) + 2 < 2 ^ 32"
  shows "\<exists>m. \<not> cell_blocks (cell_at (in_nodes s) (action_node a) (action_field a)) m \<and>
    (\<forall>n f. cell_at (in_nodes (stamp_and_apply ns a s)) n f =
      (if n = action_node a \<and> f = action_field a then cell_apply m a (cell_at (in_nodes s) n f) else cell_at (in_nodes s) n f))"
proof -
  obtain r c1 where r: "next_revision (in_time s (in_reads s)) (in_clock s) = (r, c1)" by fastforce
  obtain i c2 where i: "next_op_id ns c1 = (i, c2)" by fastforce
  let ?op = "\<lparr> op_id = i, author = clk_actor c2, op_revision = r, action = a \<rparr>"
  let ?s = "s\<lparr> in_clock := c2, in_reads := Suc (in_reads s) \<rparr>"
  have "rev_counter r \<noteq> - 1"
  proof
    assume max: "rev_counter r = - 1"
    have "rev_counter r = 0 \<or> rev_counter r = sat_add (clk_counter (in_clock s)) 1"
      using r by (auto simp: next_revision_def Let_def split: if_splits)
    then have "unat (rev_counter r) \<le> unat (clk_counter (in_clock s)) + 1"
      by (auto simp: unat_sat_add)
    with max assms(3) show False by (simp add: unsigned_minus_1_eq_mask mask_eq_exp_minus_1)
  qed
  from next_revision_above [OF _ r this] have above: "m < marker_of ?op" if "marker_covered (in_clock s) m" for m
    using that by (fastforce simp: marker_covered_def marker_of_def marker_order revision_order)
  have "cell_covered (in_clock s) (cell_at (in_nodes s) (action_node a) (action_field a))"
    using reachable_covered [OF assms(1)] by (simp add: nodes_covered_def)
  then have "\<not> cell_blocks (cell_at (in_nodes s) (action_node a) (action_field a)) (marker_of ?op)"
    using above by (fastforce simp: cell_covered_def cell_blocks_def blocks_def split: option.splits)
  moreover have "in_nodes (snd (apply_operation_internal ?op Local ?s)) = apply_step ?op (in_nodes s)"
    using assms(2)
    by (simp add: apply_operation_cases written_state_def indexed_state_def queued_def enqueued_def Let_def
        journal_node_def apply_step_def)
  then have "cell_at (in_nodes (stamp_and_apply ns a s)) n f =
      (if n = action_node a \<and> f = action_field a then cell_apply (marker_of ?op) a (cell_at (in_nodes s) n f)
       else cell_at (in_nodes s) n f)" for n f
    by (auto simp: stamp_and_apply_def r i cell_at_step targets_def)
  ultimately show ?thesis by blast
qed

text \<open>
  C5: A local write takes effect.  In every state a replica can reach, with room in the pending
  queue and the clock's counter short of its maximum, a write to a field leaves exactly the
  written value there and a deletion leaves the field empty: the fresh stamp is above the
  version of whatever the replica has received or written before.
\<close>
theorem local_write_takes_effect:
  assumes "reachable s" "queue_len (in_pending_ops s) < max_pending_ops (in_limits s)"
    and "unat (clk_counter (in_clock s)) + 2 < 2 ^ 32"
  shows "(\<exists>m. cell_at (in_nodes (set_field n f v s)) n f = (Some \<lparr> fld_value = stored_value m v, fld_version = m \<rparr>, None)) \<and>
    (\<exists>m. cell_at (in_nodes (delete_field n f s)) n f = (None, Some m))"
  using stamp_effect [OF assms, of "SetField n f v" "''set''"] stamp_effect [OF assms, of "DeleteField n f" "''delete''"]
  by (auto simp: set_field_def delete_field_def cell_write_def)

theorem local_write_takes_effect_witness:
  "\<exists>m. cell_at (in_nodes (set_field ''n'' ''f'' (OLink ''t'') (demo_db ''r''))) ''n'' ''f'' =
    (Some \<lparr> fld_value = stored_value m (OLink ''t''), fld_version = m \<rparr>, None)"
proof -
  have "reachable (demo_db ''r'')"
    using reachable.start [where time = "\<lambda>_. 7" and r = "''r''" and l = demo_limits and p = fmempty]
    by (simp add: demo_db_def with_replica_id_def)
  moreover have "queue_len (in_pending_ops (demo_db ''r'')) < max_pending_ops (in_limits (demo_db ''r''))"
    by (simp add: demo_db_def demo_limits_def queue_empty_def queue_len_def)
  moreover have "unat (clk_counter (in_clock (demo_db ''r''))) + 2 < 2 ^ 32"
    by (simp add: demo_db_def with_actor_def)
  ultimately show ?thesis
    using local_write_takes_effect [of "demo_db ''r''" "''n''" "''f''" "OLink ''t''"] by blast
qed

end
