(* ===== verification/Writes.thy ===== *)
theory Writes
  imports DbCore
begin

text \<open>
  Writing and reading JSON along paths (\<open>src/src/db.rs\<close>): parsing the input markers, resolving
  a path to a field, writing a value with the nodes it spreads over, materialising a node back
  into JSON, and the steps of a transaction built from these.

  Every write is a fallible state transformer; the lemmas show that the journal undoes all of
  them and that they keep the relationship index and the queues consistent, so a list of
  transaction steps is applied completely or not at all.

  A read may load nodes and follows links without a static bound, so materialisation takes fuel;
  the number of known and stored nodes is enough, which is proved for every state whose storage
  engine exports what it serves.
\<close>

section \<open>Parsing input\<close>

(* src: src/src/db.rs:791-794 SetMember *)
datatype set_member = MLink node_id | MObject "(string \<times> json) list"

(* src: src/src/db.rs:782-789 ParsedInput *)
datatype parsed_input =
    PScalar json
  | PBytes binary_bytes
  | PBlob blob_ref
  | PLink node_id
  | PSet "set_member list"
  | PObject "(string \<times> json) list"

(* src: src/src/db.rs:7943-7954 parse_link_marker *)
definition parse_link_marker :: "(string \<times> json) list \<Rightarrow> string option" where
  "parse_link_marker obj =
    (if length obj \<noteq> 1 then None
     else case (case obj_get obj ''$link'' of Some v \<Rightarrow> Some v | None \<Rightarrow> obj_get obj ''#'') of
            Some (JString target) \<Rightarrow> Some target
          | _ \<Rightarrow> None)"

(* src: src/src/db.rs:7956-7973 parse_bytes_marker *)
definition parse_bytes_marker ::
    "externs \<Rightarrow> (string \<times> json) list \<Rightarrow> string \<Rightarrow> binary_bytes option primadb_result" where
  "parse_bytes_marker ext obj path =
    (if length obj \<noteq> 1 then Inr None
     else case obj_get obj ''$bytes'' of
            None \<Rightarrow> Inr None
          | Some (JString encoded) \<Rightarrow>
              (case from_base64 ext encoded of
                 Some b \<Rightarrow> Inr (Some b)
               | None \<Rightarrow> Inl (InvalidBinaryMarker path))
          | Some _ \<Rightarrow> Inl (InvalidBinaryMarker path))"

(* src: src/src/db.rs:7975-7987 parse_blob_marker *)
definition parse_blob_marker ::
    "externs \<Rightarrow> (string \<times> json) list \<Rightarrow> string \<Rightarrow> blob_ref option primadb_result" where
  "parse_blob_marker ext obj path =
    (if length obj \<noteq> 1 then Inr None
     else case obj_get obj ''$blob'' of
            None \<Rightarrow> Inr None
          | Some v \<Rightarrow>
              (case blob_ref_from_json ext v of
                 Some r \<Rightarrow> Inr (Some r)
               | None \<Rightarrow> Inl (InvalidBlobMarker path)))"

(* src: src/src/db.rs:7989-7997 parse_set_marker *)
definition parse_set_marker :: "(string \<times> json) list \<Rightarrow> json list option" where
  "parse_set_marker obj =
    (if length obj \<noteq> 1 then None
     else case obj_get obj ''$set'' of
            Some (JArray items) \<Rightarrow> Some items
          | _ \<Rightarrow> None)"

(* src: src/src/db.rs:7909-7926 parse_input (set members) *)
fun parse_set_items :: "json list \<Rightarrow> string \<Rightarrow> set_member list primadb_result" where
  "parse_set_items [] path = Inr []"
| "parse_set_items (JObject obj # items) path =
    (case parse_set_items items path of
       Inl e \<Rightarrow> Inl e
     | Inr ms \<Rightarrow>
         Inr ((case parse_link_marker obj of Some target \<Rightarrow> MLink target | None \<Rightarrow> MObject obj) # ms))"
| "parse_set_items (_ # items) path = Inl (InvalidSetMember path)"

(* src: src/src/db.rs:7896-7941 parse_input *)
fun parse_input :: "externs \<Rightarrow> json \<Rightarrow> string \<Rightarrow> parsed_input primadb_result" where
  "parse_input ext (JObject obj) path =
    (case parse_bytes_marker ext obj path of
       Inl e \<Rightarrow> Inl e
     | Inr (Some b) \<Rightarrow> Inr (PBytes b)
     | Inr None \<Rightarrow>
         (case parse_blob_marker ext obj path of
            Inl e \<Rightarrow> Inl e
          | Inr (Some r) \<Rightarrow> Inr (PBlob r)
          | Inr None \<Rightarrow>
              (case parse_link_marker obj of
                 Some target \<Rightarrow> Inr (PLink target)
               | None \<Rightarrow>
                   (case parse_set_marker obj of
                      Some items \<Rightarrow>
                        (case parse_set_items items path of Inl e \<Rightarrow> Inl e | Inr ms \<Rightarrow> Inr (PSet ms))
                    | None \<Rightarrow> Inr (PObject obj)))))"
| "parse_input ext (JArray items) path =
    (if (\<exists>x \<in> set items. is_object x) then Inl (ArrayOfObjectsUnsupported path)
     else Inr (PScalar (JArray items)))"
| "parse_input ext scalar path = Inr (PScalar scalar)"

(* src: src/src/db.rs:7999-8004 bytes_marker_value *)
definition bytes_marker_value :: "externs \<Rightarrow> binary_bytes \<Rightarrow> json" where
  "bytes_marker_value ext b = JObject [(''$bytes'', JString (to_base64 ext b))]"

(* src: src/src/db.rs:8006-8011 blob_marker_value *)
definition blob_marker_value :: "externs \<Rightarrow> blob_ref \<Rightarrow> json" where
  "blob_marker_value ext r = JObject [(''$blob'', blob_ref_to_json ext r)]"

(* src: src/src/db.rs:8013-8031 parse_member_reference *)
fun parse_member_reference :: "json \<Rightarrow> string \<Rightarrow> string primadb_result" where
  "parse_member_reference (JString member) path = Inr member"
| "parse_member_reference (JObject obj) path =
    (case parse_link_marker obj of
       Some link \<Rightarrow> Inr link
     | None \<Rightarrow>
         (case obj_get obj ''$id'' of
            Some (JString i) \<Rightarrow> Inr i
          | _ \<Rightarrow> Inl (InvalidMemberReference path)))"
| "parse_member_reference _ path = Inl (InvalidMemberReference path)"

section \<open>Paths\<close>

(* src: src/src/db.rs:7751-7757 display_path *)
definition display_path :: "string \<Rightarrow> string list \<Rightarrow> string" where
  "display_path anchor segments = (if segments = [] then anchor else anchor @ ''.'' @ join ''.'' segments)"

(* src: src/src/db.rs:8195-8197 derived_child_id *)
definition derived_child_id :: "string \<Rightarrow> string \<Rightarrow> node_id" where
  "derived_child_id parent field = parent @ ''/'' @ field"

definition field_at :: "node_id \<Rightarrow> string \<Rightarrow> inner \<Rightarrow> field_value option" where
  "field_at n f s =
    Option.bind (fmlookup (in_nodes s) n) (\<lambda>st. map_option fld_value (fmlookup (nst_fields st) f))"

(* src: src/src/db.rs:6542-6590 Inner::ensure_field_cursor (loop) *)
fun ensure_field_walk :: "node_id \<Rightarrow> string list \<Rightarrow> (inner, primadb_error, node_id) fallible" where
  "ensure_field_walk current [] = okS current"
| "ensure_field_walk current (segment # segments) =
    bindS (maybe_load_node current) (\<lambda>_.
    bindS (readS (field_at current segment)) (\<lambda>v.
      case v of
        Some (FLink target) \<Rightarrow>
          bindS (modifyS (ensure_node target)) (\<lambda>_. ensure_field_walk target segments)
      | Some (FScalar _) \<Rightarrow> errS (TraversalIntoScalar current segment)
      | Some (FBytes _) \<Rightarrow> errS (TraversalIntoScalar current segment)
      | Some (FBlob _) \<Rightarrow> errS (TraversalIntoScalar current segment)
      | Some (FSet _) \<Rightarrow> errS (TraversalIntoSet current segment)
      | None \<Rightarrow>
          bindS (modifyS (set_field current segment (OLink (derived_child_id current segment)))) (\<lambda>_.
          bindS (modifyS (ensure_node (derived_child_id current segment))) (\<lambda>_.
            ensure_field_walk (derived_child_id current segment) segments))))"

(* src: src/src/db.rs:6533-6597 Inner::ensure_field_cursor *)
definition ensure_field_cursor :: "string \<Rightarrow> string list \<Rightarrow> (inner, primadb_error, cursor) fallible" where
  "ensure_field_cursor anchor segments =
    (if segments = [] then okS (CNode anchor)
     else
       bindS (maybe_load_node anchor) (\<lambda>loaded.
       bindS (if loaded then okS () else modifyS (ensure_node anchor)) (\<lambda>_.
       bindS (ensure_field_walk anchor (butlast segments)) (\<lambda>current.
         okS (CField current (last segments))))))"

(* src: src/src/db.rs:6610-6636 Inner::resolve_cursor (loop) *)
fun resolve_walk :: "node_id \<Rightarrow> string list \<Rightarrow> (inner, primadb_error, node_id option) fallible" where
  "resolve_walk current [] =
    bindS (maybe_load_node current) (\<lambda>loaded. okS (if loaded then Some current else None))"
| "resolve_walk current (segment # segments) =
    bindS (maybe_load_node current) (\<lambda>loaded.
      if \<not> loaded then okS None
      else
        bindS (readS (field_at current segment)) (\<lambda>v.
          case v of
            None \<Rightarrow> okS None
          | Some (FLink target) \<Rightarrow> resolve_walk target segments
          | Some (FScalar _) \<Rightarrow> errS (TraversalIntoScalar current segment)
          | Some (FBytes _) \<Rightarrow> errS (TraversalIntoScalar current segment)
          | Some (FBlob _) \<Rightarrow> errS (TraversalIntoScalar current segment)
          | Some (FSet _) \<Rightarrow> errS (TraversalIntoSet current segment)))"

(* src: src/src/db.rs:6599-6645 Inner::resolve_cursor *)
definition resolve_cursor :: "string \<Rightarrow> string list \<Rightarrow> (inner, primadb_error, cursor option) fallible" where
  "resolve_cursor anchor segments =
    (if segments = []
     then bindS (maybe_load_node anchor) (\<lambda>loaded. okS (if loaded then Some (CNode anchor) else None))
     else
       bindS (maybe_load_node anchor) (\<lambda>loaded.
         if \<not> loaded then okS None
         else bindS (resolve_walk anchor (butlast segments)) (\<lambda>current.
           okS (map_option (\<lambda>n. CField n (last segments)) current))))"

section \<open>Writing values\<close>

text \<open>Weights of parsed input, for termination.\<close>
definition object_weight :: "(string \<times> json) list \<Rightarrow> nat" where
  "object_weight obj = size_list (size_prod (\<lambda>_. 0) size) obj"

fun members_weight :: "set_member list \<Rightarrow> nat" where
  "members_weight [] = 0"
| "members_weight (MLink _ # ms) = Suc (members_weight ms)"
| "members_weight (MObject obj # ms) = 3 * object_weight obj + 3 + members_weight ms"

lemma parse_input_object: "parse_input ext v path = Inr (PObject obj) \<Longrightarrow> v = JObject obj"
  by (cases "(ext, v, path)" rule: parse_input.cases)
    (auto split: sum.splits option.splits if_splits)

lemma parse_set_items_weight:
  "parse_set_items items path = Inr ms \<Longrightarrow> members_weight ms \<le> 3 * size_list size items"
  by (induction items path arbitrary: ms rule: parse_set_items.induct)
    (auto simp: object_weight_def split: sum.splits option.splits)

lemma parse_set_marker_weight:
  "parse_set_marker obj = Some items \<Longrightarrow> size_list size items < object_weight obj"
  by (cases obj) (auto simp: parse_set_marker_def obj_get_def object_weight_def
      split: option.splits json.splits if_splits)

lemma parse_input_set:
  assumes "parse_input ext v path = Inr (PSet ms)"
  shows "members_weight ms < 3 * size v"
proof -
  from assms obtain obj items where "v = JObject obj" "parse_set_marker obj = Some items"
      "parse_set_items items path = Inr ms"
    by (cases "(ext, v, path)" rule: parse_input.cases) (auto split: sum.splits option.splits if_splits)
  with parse_set_items_weight parse_set_marker_weight show ?thesis
    by (fastforce simp: object_weight_def)
qed

text \<open>A fresh node for a member of a set.\<close>
definition new_member_id :: "string \<Rightarrow> inner \<Rightarrow> node_id \<times> inner" where
  "new_member_id field s =
    (let (i, c) = next_node_id (field @ ''-member'') (in_clock s) in (i, s\<lparr> in_clock := c \<rparr>))"

(* src: src/src/db.rs:6685-6760 Inner::write_value_to_field -> write_value_to_field *)
(* src: src/src/db.rs:6647-6663 Inner::write_object_to_node -> write_object_to_node *)
(* src: src/src/db.rs:6653-6661 Inner::write_object_to_node (fields) -> write_object_fields *)
(* src: src/src/db.rs:6736-6754 Inner::write_value_to_field (set members) -> write_set_members *)
function
  write_value_to_field :: "externs \<Rightarrow> node_id \<Rightarrow> string \<Rightarrow> json \<Rightarrow> string \<Rightarrow> (inner, primadb_error, unit) fallible"
  and write_object_to_node ::
    "externs \<Rightarrow> node_id \<Rightarrow> (string \<times> json) list \<Rightarrow> string \<Rightarrow> (inner, primadb_error, unit) fallible"
  and write_object_fields ::
    "externs \<Rightarrow> node_id \<Rightarrow> (string \<times> json) list \<Rightarrow> string \<Rightarrow> (inner, primadb_error, unit) fallible"
  and write_set_members ::
    "externs \<Rightarrow> string \<Rightarrow> string \<Rightarrow> nat \<Rightarrow> set_member list \<Rightarrow> (inner, primadb_error, node_id list) fallible"
where
  "write_value_to_field ext node field v path =
    (case parse_input ext v path of
       Inl e \<Rightarrow> errS e
     | Inr (PScalar scalar) \<Rightarrow> modifyS (set_field node field (OScalar scalar))
     | Inr (PBytes b) \<Rightarrow> modifyS (set_field node field (OBytes b))
     | Inr (PBlob r) \<Rightarrow> modifyS (set_field node field (OBlob r))
     | Inr (PLink target) \<Rightarrow> modifyS (set_field node field (OLink target))
     | Inr (PObject obj) \<Rightarrow>
         bindS (readS (\<lambda>s. case field_at node field s of
                             Some (FLink target) \<Rightarrow> target
                           | _ \<Rightarrow> derived_child_id node field)) (\<lambda>child.
         bindS (modifyS (ensure_node child)) (\<lambda>_.
         bindS (modifyS (set_field node field (OLink child))) (\<lambda>_.
           write_object_to_node ext child obj path)))
     | Inr (PSet ms) \<Rightarrow>
         bindS (write_set_members ext field path 0 ms) (\<lambda>ids.
           modifyS (set_field node field (OSet ids))))"
| "write_object_to_node ext node obj path =
    bindS (modifyS (ensure_node node)) (\<lambda>_. write_object_fields ext node obj path)"
| "write_object_fields ext node [] path = okS ()"
| "write_object_fields ext node ((field, v) # obj) path =
    bindS (write_value_to_field ext node field v (if path = [] then field else path @ ''.'' @ field)) (\<lambda>_.
      write_object_fields ext node obj path)"
| "write_set_members ext field path i [] = okS []"
| "write_set_members ext field path i (MLink target # ms) =
    bindS (write_set_members ext field path (Suc i) ms) (\<lambda>ids. okS (target # ids))"
| "write_set_members ext field path i (MObject obj # ms) =
    bindS (stateS (new_member_id field)) (\<lambda>member_id.
    bindS (modifyS (ensure_node member_id)) (\<lambda>_.
    bindS (write_object_to_node ext member_id obj (path @ ''.$set['' @ decimal i @ '']'')) (\<lambda>_.
    bindS (write_set_members ext field path (Suc i) ms) (\<lambda>ids. okS (member_id # ids)))))"
  by pat_completeness auto

termination
  by (relation "measure (\<lambda>x. case x of
        Inl (Inl (_, _, _, v, _)) \<Rightarrow> 3 * size v
      | Inl (Inr (_, _, obj, _)) \<Rightarrow> 3 * object_weight obj + 2
      | Inr (Inl (_, _, obj, _)) \<Rightarrow> 3 * object_weight obj + 1
      | Inr (Inr (_, _, _, _, ms)) \<Rightarrow> members_weight ms)")
    (auto simp: object_weight_def dest: parse_input_object parse_input_set)

(* src: src/src/db.rs:6847-6874 Inner::add_member_to_set *)
definition add_member_to_set ::
    "externs \<Rightarrow> node_id \<Rightarrow> string \<Rightarrow> parsed_input \<Rightarrow> string \<Rightarrow> (inner, primadb_error, string) fallible" where
  "add_member_to_set ext node field parsed path =
    bindS (case parsed of
             PLink target \<Rightarrow> okS target
           | PObject obj \<Rightarrow>
               bindS (stateS (new_member_id field)) (\<lambda>member_id.
               bindS (modifyS (ensure_node member_id)) (\<lambda>_.
               bindS (write_object_to_node ext member_id obj path) (\<lambda>_. okS member_id)))
           | _ \<Rightarrow> errS (InvalidSetMember path)) (\<lambda>member_id.
    bindS (modifyS (add_set_member node field member_id)) (\<lambda>_. okS member_id))"

text \<open>The check of \<open>ensure_canonical_write_allowed\<close>, as the first step of a write.\<close>
definition guard_write :: "string \<Rightarrow> string list \<Rightarrow> (inner, primadb_error, unit) fallible" where
  "guard_write anchor segments =
    checkS (\<lambda>s. case ensure_canonical_write_allowed anchor segments s of Some e \<Rightarrow> Inl e | None \<Rightarrow> Inr ())"

(* src: src/src/db.rs:4243-4267 put_json_inner *)
definition put_json_inner ::
    "externs \<Rightarrow> string \<Rightarrow> string list \<Rightarrow> json \<Rightarrow> (inner, primadb_error, unit) fallible" where
  "put_json_inner ext anchor segments v =
    bindS (guard_write anchor segments) (\<lambda>_.
      if segments = []
      then (case parse_input ext v (display_path anchor segments) of
              Inl e \<Rightarrow> errS e
            | Inr (PObject obj) \<Rightarrow> write_object_to_node ext anchor obj (display_path anchor segments)
            | Inr _ \<Rightarrow> errS (ExpectedObject (display_path anchor segments)))
      else bindS (ensure_field_cursor anchor segments) (\<lambda>cursor.
        case cursor of
          CField node field \<Rightarrow> write_value_to_field ext node field v (display_path anchor segments)
        | CNode _ \<Rightarrow> errS (ExpectedFieldPath (display_path anchor segments))))"

text \<open>The common beginning of the operations on a field: the path, the policy, the cursor.\<close>
definition with_field ::
    "string \<Rightarrow> string list \<Rightarrow> (node_id \<Rightarrow> string \<Rightarrow> (inner, primadb_error, 'a) fallible) \<Rightarrow>
     (inner, primadb_error, 'a) fallible" where
  "with_field anchor segments f =
    (if segments = [] then errS (ExpectedFieldPath (display_path anchor segments))
     else bindS (guard_write anchor segments) (\<lambda>_.
       bindS (ensure_field_cursor anchor segments) (\<lambda>cursor.
         case cursor of
           CField node field \<Rightarrow> f node field
         | CNode _ \<Rightarrow> errS (ExpectedFieldPath (display_path anchor segments)))))"

(* src: src/src/db.rs:4981-4995 unset_inner *)
definition unset_inner :: "string \<Rightarrow> string list \<Rightarrow> (inner, primadb_error, unit) fallible" where
  "unset_inner anchor segments =
    with_field anchor segments (\<lambda>node field. modifyS (delete_field node field))"

(* src: src/src/db.rs:4997-5016 set_json_inner *)
definition set_json_inner ::
    "externs \<Rightarrow> string \<Rightarrow> string list \<Rightarrow> json \<Rightarrow> (inner, primadb_error, string) fallible" where
  "set_json_inner ext anchor segments v =
    with_field anchor segments (\<lambda>node field.
      case parse_input ext v (display_path anchor segments) of
        Inl e \<Rightarrow> errS e
      | Inr parsed \<Rightarrow> add_member_to_set ext node field parsed (display_path anchor segments))"

(* src: src/src/db.rs:5018-5038 remove_json_inner *)
definition remove_json_inner ::
    "string \<Rightarrow> string list \<Rightarrow> json \<Rightarrow> (inner, primadb_error, string) fallible" where
  "remove_json_inner anchor segments v =
    with_field anchor segments (\<lambda>node field.
      case parse_member_reference v (display_path anchor segments) of
        Inl e \<Rightarrow> errS e
      | Inr member_id \<Rightarrow>
          bindS (modifyS (remove_member_from_set node field member_id)) (\<lambda>_. okS member_id))"

section \<open>Reading values\<close>

(* src: src/src/db.rs:7287-7290 materialize_node (reference) *)
definition node_reference :: "node_id \<Rightarrow> json" where
  "node_reference n = JObject [(''$ref'', JString n)]"

text \<open>Apply a reader to the elements of a list in order, threading the state.\<close>
primrec thread :: "('x \<Rightarrow> 's \<Rightarrow> ('a \<times> 's) option) \<Rightarrow> 'x list \<Rightarrow> 's \<Rightarrow> ('a list \<times> 's) option" where
  "thread f [] s = Some ([], s)"
| "thread f (x # xs) s =
    (case f x s of
       None \<Rightarrow> None
     | Some (a, s1) \<Rightarrow>
         (case thread f xs s1 of None \<Rightarrow> None | Some (as, s2) \<Rightarrow> Some (a # as, s2)))"

(* src: src/src/db.rs:7316-7339 Inner::materialize_field *)
fun materialize_field ::
    "externs \<Rightarrow> (node_id \<Rightarrow> inner \<Rightarrow> (json \<times> inner) option) \<Rightarrow> field_value \<Rightarrow> inner \<Rightarrow> (json \<times> inner) option" where
  "materialize_field ext node_value (FScalar v) s = Some (v, s)"
| "materialize_field ext node_value (FBytes b) s = Some (bytes_marker_value ext b, s)"
| "materialize_field ext node_value (FBlob r) s = Some (blob_marker_value ext r, s)"
| "materialize_field ext node_value (FLink target) s = node_value target s"
| "materialize_field ext node_value (FSet st) s =
    (case thread node_value (sorted_list_of_fset (fmdom (members st))) s of
       None \<Rightarrow> None
     | Some (vs, s1) \<Rightarrow> Some (JObject [(''$set'', JArray vs)], s1))"

text \<open>\<open>None\<close>: the fuel ran out.  The fields are inserted into the object that holds \<open>$id\<close>.\<close>
(* src: src/src/db.rs:7280-7314 Inner::materialize_node *)
primrec materialize_node ::
    "nat \<Rightarrow> externs \<Rightarrow> node_id fset \<Rightarrow> node_id \<Rightarrow> inner \<Rightarrow> (json \<times> inner) option" where
  "materialize_node 0 ext visited n s = None"
| "materialize_node (Suc fuel) ext visited n s =
    (if n |\<in>| visited then Some (node_reference n, s)
     else
       let s1 = snd (maybe_load_node n s)
       in case fmlookup (in_nodes s1) n of
            None \<Rightarrow> Some (node_reference n, s1)
          | Some st \<Rightarrow>
              (case thread (\<lambda>(f, fst'). materialize_field ext
                      (\<lambda>m. materialize_node fuel ext (finsert n visited) m) (fld_value fst'))
                   (sorted_list_of_fmap (nst_fields st)) s1 of
                 None \<Rightarrow> None
               | Some (vs, s2) \<Rightarrow>
                   Some (JObject (fold (\<lambda>(f, v). obj_insert f v)
                     (zip (map fst (sorted_list_of_fmap (nst_fields st))) vs)
                     [(''$id'', JString (nst_id st))]), s2)))"

text \<open>Enough fuel: the nodes in memory and the nodes the storage engine exports.\<close>
definition node_fuel :: "inner \<Rightarrow> nat" where
  "node_fuel s =
    Suc (length (sorted_list_of_fset (fmdom (in_nodes s))) +
      (case in_storage_engine s of
         None \<Rightarrow> 0
       | Some engine \<Rightarrow>
           (case st_export_snapshot engine None of
              Inl _ \<Rightarrow> 0
            | Inr snap \<Rightarrow> length (sorted_list_of_fset (fmdom (snap_nodes snap))))))"

definition node_json :: "externs \<Rightarrow> node_id \<Rightarrow> inner \<Rightarrow> json \<times> inner" where
  "node_json ext n s =
    (case materialize_node (node_fuel s) ext {||} n s of Some r \<Rightarrow> r | None \<Rightarrow> (node_reference n, s))"

definition field_json :: "externs \<Rightarrow> field_value \<Rightarrow> inner \<Rightarrow> json \<times> inner" where
  "field_json ext v s =
    (case materialize_field ext (materialize_node (node_fuel s) ext {||}) v s of
       Some r \<Rightarrow> r
     | None \<Rightarrow> (JNull, s))"

(* src: src/src/db.rs:5040-5070 materialize_inner *)
definition materialize_inner ::
    "externs \<Rightarrow> string \<Rightarrow> string list \<Rightarrow> (inner, primadb_error, json option) fallible" where
  "materialize_inner ext anchor segments =
    bindS (resolve_cursor anchor segments) (\<lambda>cursor.
      case cursor of
        None \<Rightarrow> okS None
      | Some (CNode n) \<Rightarrow> bindS (stateS (node_json ext n)) (\<lambda>v. okS (Some v))
      | Some (CField n f) \<Rightarrow>
          bindS (readS (field_at n f)) (\<lambda>v.
            case v of
              None \<Rightarrow> okS None
            | Some fv \<Rightarrow> bindS (stateS (field_json ext fv)) (\<lambda>j. okS (Some j))))"

(* src: src/src/db.rs:5072-5082 path_exists_inner *)
definition path_exists_inner :: "string \<Rightarrow> string list \<Rightarrow> (inner, primadb_error, bool) fallible" where
  "path_exists_inner anchor segments =
    bindS (resolve_cursor anchor segments) (\<lambda>cursor.
      case cursor of
        None \<Rightarrow> okS False
      | Some (CNode n) \<Rightarrow> readS (\<lambda>s. n |\<in>| fmdom (in_nodes s))
      | Some (CField n f) \<Rightarrow> readS (\<lambda>s. field_at n f s \<noteq> None))"

(* src: src/src/db.rs:5105-5114 node_revision_marker *)
definition node_revision_marker :: "node_state \<Rightarrow> version_marker option" where
  "node_revision_marker st =
    fold (\<lambda>t m. max_marker m (Some t)) (map snd (sorted_list_of_fmap (nst_tombstones st)))
      (fold (\<lambda>f m. max_marker m (Some (fld_version f))) (map snd (sorted_list_of_fmap (nst_fields st))) None)"

(* src: src/src/db.rs:5084-5103 revision_at_inner *)
definition revision_at_inner ::
    "string \<Rightarrow> string list \<Rightarrow> (inner, primadb_error, version_marker option) fallible" where
  "revision_at_inner anchor segments =
    bindS (resolve_cursor anchor segments) (\<lambda>cursor.
      case cursor of
        None \<Rightarrow> okS None
      | Some (CNode n) \<Rightarrow> readS (\<lambda>s. Option.bind (fmlookup (in_nodes s) n) node_revision_marker)
      | Some (CField n f) \<Rightarrow>
          readS (\<lambda>s. Option.bind (fmlookup (in_nodes s) n) (\<lambda>st.
            case fmlookup (nst_fields st) f of
              Some fs \<Rightarrow> Some (fld_version fs)
            | None \<Rightarrow> fmlookup (nst_tombstones st) f)))"

section \<open>Transaction steps\<close>

text \<open>A boolean check that fails a transaction.\<close>
definition requireS :: "'e \<Rightarrow> bool \<Rightarrow> ('s, 'e, unit) fallible" where
  "requireS e b = (if b then okS () else errS e)"

(* src: src/src/db.rs:5445-5453 TransactionChain::assert_exists *)
definition assert_exists :: "string \<Rightarrow> string list \<Rightarrow> (inner, primadb_error, unit) fallible" where
  "assert_exists anchor segments =
    bindS (path_exists_inner anchor segments)
      (requireS (TransactionConflict (''expected `'' @ display_path anchor segments @ ''` to exist'')))"

(* src: src/src/db.rs:5455-5463 TransactionChain::assert_absent *)
definition assert_absent :: "string \<Rightarrow> string list \<Rightarrow> (inner, primadb_error, unit) fallible" where
  "assert_absent anchor segments =
    bindS (path_exists_inner anchor segments) (\<lambda>b.
      requireS (TransactionConflict (''expected `'' @ display_path anchor segments @ ''` to be absent'')) (\<not> b))"

(* src: src/src/db.rs:5465-5475 TransactionChain::assert_value *)
definition assert_value ::
    "externs \<Rightarrow> string \<Rightarrow> string list \<Rightarrow> json \<Rightarrow> (inner, primadb_error, unit) fallible" where
  "assert_value ext anchor segments expected =
    bindS (materialize_inner ext anchor segments) (\<lambda>current.
      requireS (TransactionConflict (''expected `'' @ display_path anchor segments @ ''` to equal `'' @
          json_display ext expected @ ''`''))
        (case current of Some v \<Rightarrow> json_eq v expected | None \<Rightarrow> False))"

(* src: src/src/db.rs:5477-5486 TransactionChain::assert_revision *)
definition assert_revision ::
    "string \<Rightarrow> string list \<Rightarrow> version_marker option \<Rightarrow> (inner, primadb_error, unit) fallible" where
  "assert_revision anchor segments expected =
    bindS (revision_at_inner anchor segments) (\<lambda>current.
      requireS (TransactionConflict (''revision conflict at `'' @ display_path anchor segments @ ''`''))
        (current = expected))"

(* src: src/src/db.rs:5488-5513 TransactionChain::increment *)
definition increment ::
    "externs \<Rightarrow> string \<Rightarrow> string list \<Rightarrow> f64 \<Rightarrow> (inner, primadb_error, f64) fallible" where
  "increment ext anchor segments by_amount =
    bindS (materialize_inner ext anchor segments) (\<lambda>current.
    bindS (case current of
             None \<Rightarrow> okS (F64 0)
           | Some (JNumber number) \<Rightarrow>
               (case number_as_f64 number of
                  Some x \<Rightarrow> okS x
                | None \<Rightarrow> errS (TransactionConflict (''`'' @ display_path anchor segments @ ''` is not a finite number'')))
           | Some _ \<Rightarrow> errS (TransactionConflict (''`'' @ display_path anchor segments @ ''` is not numeric''))) (\<lambda>base.
      let next = f64_add base by_amount
      in case number_from_f64 next of
           None \<Rightarrow> errS (TransactionConflict (''increment produced a non-finite value at `'' @
               display_path anchor segments @ ''`''))
         | Some number \<Rightarrow>
             bindS (put_json_inner ext anchor segments (JNumber number)) (\<lambda>_. okS next)))"

(* src: src/src/db.rs:5198-5216 scoped_anchor_segments *)
definition scoped_anchor_segments ::
    "string option \<Rightarrow> string \<Rightarrow> string list \<Rightarrow> string \<times> string list" where
  "scoped_anchor_segments scope anchor segments =
    (case scope of
       None \<Rightarrow> (anchor, segments)
     | Some root \<Rightarrow>
         if anchor = [] then (root, segments)
         else if node_matches_root anchor root then (anchor, segments)
         else (root, anchor # segments))"

(* src: src/src/db.rs:5193-5196 scope_remote_path *)
definition scope_remote_path :: "string \<Rightarrow> remote_path \<Rightarrow> remote_path" where
  "scope_remote_path scope p =
    (let (anchor, segments) = scoped_anchor_segments (Some scope) (rp_anchor p) (rp_segments p)
     in \<lparr> rp_anchor = anchor, rp_segments = segments \<rparr>)"

text \<open>
  One step of a transaction opened in a scope; the result is the list of identifiers of the
  members the step added to sets.
\<close>
(* src: src/src/db.rs:5120-5140 apply_transaction_steps (step) *)
fun apply_transaction_step ::
    "externs \<Rightarrow> string option \<Rightarrow> transaction_step \<Rightarrow> (inner, primadb_error, string list) fallible" where
  "apply_transaction_step ext scope (TPut p v) =
    (let (a, g) = scoped_anchor_segments scope (rp_anchor p) (rp_segments p)
     in bindS (put_json_inner ext a g v) (\<lambda>_. okS []))"
| "apply_transaction_step ext scope (TUnset p) =
    (let (a, g) = scoped_anchor_segments scope (rp_anchor p) (rp_segments p)
     in bindS (unset_inner a g) (\<lambda>_. okS []))"
| "apply_transaction_step ext scope (TSet p v) =
    (let (a, g) = scoped_anchor_segments scope (rp_anchor p) (rp_segments p)
     in bindS (set_json_inner ext a g v) (\<lambda>member_id. okS [member_id]))"
| "apply_transaction_step ext scope (TRemove p v) =
    (let (a, g) = scoped_anchor_segments scope (rp_anchor p) (rp_segments p)
     in bindS (remove_json_inner a g v) (\<lambda>_. okS []))"
| "apply_transaction_step ext scope (TAssertExists p) =
    (let (a, g) = scoped_anchor_segments scope (rp_anchor p) (rp_segments p)
     in bindS (assert_exists a g) (\<lambda>_. okS []))"
| "apply_transaction_step ext scope (TAssertAbsent p) =
    (let (a, g) = scoped_anchor_segments scope (rp_anchor p) (rp_segments p)
     in bindS (assert_absent a g) (\<lambda>_. okS []))"
| "apply_transaction_step ext scope (TAssertValue p v) =
    (let (a, g) = scoped_anchor_segments scope (rp_anchor p) (rp_segments p)
     in bindS (assert_value ext a g v) (\<lambda>_. okS []))"
| "apply_transaction_step ext scope (TAssertRevision p r) =
    (let (a, g) = scoped_anchor_segments scope (rp_anchor p) (rp_segments p)
     in bindS (assert_revision a g r) (\<lambda>_. okS []))"
| "apply_transaction_step ext scope (TIncrement p x) =
    (let (a, g) = scoped_anchor_segments scope (rp_anchor p) (rp_segments p)
     in bindS (increment ext a g x) (\<lambda>_. okS []))"

(* src: src/src/db.rs:5116-5139 apply_transaction_steps -> apply_transaction_steps *)
fun apply_transaction_steps ::
    "externs \<Rightarrow> string option \<Rightarrow> transaction_step list \<Rightarrow> (inner, primadb_error, string list) fallible" where
  "apply_transaction_steps ext scope [] = okS []"
| "apply_transaction_steps ext scope (step # steps) =
    bindS (apply_transaction_step ext scope step) (\<lambda>ids.
    bindS (apply_transaction_steps ext scope steps) (\<lambda>ids'. okS (ids @ ids')))"

section \<open>What every write keeps\<close>

text \<open>
  The writes are built from five primitives.  A reflexive and transitive relation between states
  that each primitive respects is respected by every write, read and transaction step.
\<close>

definition moves :: "('s \<Rightarrow> 's \<Rightarrow> bool) \<Rightarrow> ('s, 'e, 'a) fallible \<Rightarrow> bool" where
  "moves rel m \<longleftrightarrow> (\<forall>s. rel s (snd (m s)))"

locale write_primitives =
  fixes rel :: "inner \<Rightarrow> inner \<Rightarrow> bool"
  assumes rel_refl: "rel s s"
    and rel_trans: "rel s t \<Longrightarrow> rel t u \<Longrightarrow> rel s u"
    and rel_load: "rel s (snd (maybe_load_node n s))"
    and rel_ensure: "rel s (ensure_node n s)"
    and rel_stamp: "rel s (stamp_and_apply ns a s)"
    and rel_clock: "rel s (s\<lparr> in_clock := c \<rparr>)"
begin

lemma moves_okS: "moves rel (okS a)" by (simp add: moves_def rel_refl)

lemma moves_errS: "moves rel (errS e)" by (simp add: moves_def rel_refl)

lemma moves_readS: "moves rel (readS f)" by (simp add: moves_def rel_refl)

lemma moves_checkS: "moves rel (checkS f)" by (simp add: moves_def rel_refl)

lemma moves_requireS: "moves rel (requireS e b)" by (simp add: moves_def rel_refl requireS_def)

lemma moves_modifyS: "(\<And>s. rel s (f s)) \<Longrightarrow> moves rel (modifyS f)" by (simp add: moves_def)

lemma moves_stateS: "(\<And>s. rel s (snd (f s))) \<Longrightarrow> moves rel (stateS f)" by (simp add: moves_def)

lemma moves_load: "moves rel (maybe_load_node n)" by (simp add: moves_def rel_load)

lemma moves_bindS:
  assumes "moves rel m" "\<And>a. moves rel (f a)"
  shows "moves rel (bindS m f)"
proof -
  have "rel s (snd (bindS m f s))" for s
  proof (cases "m s")
    case (Pair r t)
    then have "rel s t" using assms(1) by (auto simp: moves_def dest: spec [of _ s])
    with Pair assms(2) rel_trans show ?thesis
      by (cases r) (auto simp: bindS_def moves_def)
  qed
  then show ?thesis by (simp add: moves_def)
qed

lemma rel_writes:
  "rel s (set_field n f v s)" "rel s (delete_field n f s)" "rel s (add_set_member n f m s)"
  "rel s (remove_member_from_set n f m s)" "rel s (snd (new_member_id f s))"
  by (simp_all add: set_field_def delete_field_def add_set_member_def remove_member_from_set_def
      new_member_id_def rel_stamp rel_clock split_def Let_def)

lemmas moves_intros = moves_okS moves_errS moves_readS moves_checkS moves_requireS moves_load
  moves_bindS moves_modifyS moves_stateS rel_writes rel_ensure

lemma moves_writes:
  "moves rel (write_value_to_field ext node field v path)"
  "moves rel (write_object_to_node ext node obj path)"
  "moves rel (write_object_fields ext node obj path)"
  "moves rel (write_set_members ext field path i ms)"
proof (induction ext node field v path and ext node obj path and ext node obj path and ext field path i ms
    rule: write_value_to_field_write_object_to_node_write_object_fields_write_set_members.induct)
  case (1 ext node field v path)
  show ?case
    by (subst write_value_to_field.simps)
      (auto intro!: moves_intros 1 simp del: write_object_to_node.simps split: sum.split parsed_input.split)
next
  case (2 ext node obj path)
  then show ?case unfolding write_object_to_node.simps by (intro moves_intros)
next
  case (7 ext field path i obj ms)
  show ?case unfolding write_set_members.simps by (intro moves_intros 7)
qed (simp_all only: write_object_fields.simps write_set_members.simps, (intro moves_intros | assumption)+)

lemma moves_ensure_walk: "moves rel (ensure_field_walk n segments)"
  by (induction segments arbitrary: n) (auto intro!: moves_intros split: option.split field_value.split)

lemma moves_resolve_walk: "moves rel (resolve_walk n segments)"
  by (induction segments arbitrary: n) (auto intro!: moves_intros split: option.split field_value.split)

lemma moves_cursors: "moves rel (ensure_field_cursor a g)" "moves rel (resolve_cursor a g)"
  by (auto simp: ensure_field_cursor_def resolve_cursor_def
      intro!: moves_intros moves_ensure_walk moves_resolve_walk)

lemma moves_add_member: "moves rel (add_member_to_set ext n f parsed path)"
  by (auto simp: add_member_to_set_def intro!: moves_intros moves_writes split: parsed_input.split)

lemma moves_guard: "moves rel (guard_write a g)"
  by (simp add: guard_write_def moves_checkS)

lemma moves_put: "moves rel (put_json_inner ext a g v)"
  by (auto simp: put_json_inner_def intro!: moves_intros moves_guard moves_cursors moves_writes
      split: sum.split parsed_input.split cursor.split)

lemma moves_with_field: "(\<And>n f. moves rel (m n f)) \<Longrightarrow> moves rel (with_field a g m)"
  by (auto simp: with_field_def intro!: moves_intros moves_guard moves_cursors split: cursor.split)

lemma moves_field_writes:
  "moves rel (unset_inner a g)" "moves rel (set_json_inner ext a g v)" "moves rel (remove_json_inner a g v)"
  by (auto simp: unset_inner_def set_json_inner_def remove_json_inner_def
      intro!: moves_with_field moves_intros moves_add_member split: sum.split)

lemma rel_thread:
  assumes "\<And>x s r t. f x s = Some (r, t) \<Longrightarrow> rel s t"
  shows "thread f xs s = Some (rs, t) \<Longrightarrow> rel s t"
proof (induction xs arbitrary: s rs)
  case (Cons x xs)
  from Cons.prems obtain r u rs' where "f x s = Some (r, u)" "thread f xs u = Some (rs', t)"
    by (auto split: option.splits)
  then show ?case using assms Cons.IH rel_trans by blast
qed (simp add: rel_refl)

lemma rel_materialize_field:
  assumes "\<And>m s r t. g m s = Some (r, t) \<Longrightarrow> rel s t"
  shows "materialize_field ext g v s = Some (r, t) \<Longrightarrow> rel s t"
  by (cases v) (auto simp: rel_refl assms split: option.splits intro: rel_thread [OF assms])

lemma rel_materialize_node: "materialize_node fuel ext visited n s = Some (r, t) \<Longrightarrow> rel s t"
proof (induction fuel arbitrary: visited n s r t)
  case (Suc fuel)
  let ?g = "\<lambda>(f :: string, st). materialize_field ext (\<lambda>m. materialize_node fuel ext (finsert n visited) m) (fld_value st)"
  have fields: "rel s' t'" if "thread ?g xs s' = Some (rs, t')" for xs s' rs t'
    using that by (rule rel_thread [rotated])
      (auto split: prod.splits intro: rel_materialize_field [OF Suc.IH])
  show ?case
    using Suc.prems fields
    by (auto simp: Let_def rel_refl rel_load split: if_splits option.splits intro: rel_trans [OF rel_load fields])
qed simp

lemma moves_json: "moves rel (stateS (node_json ext n))" "moves rel (stateS (field_json ext v))"
  by (auto simp: node_json_def field_json_def rel_refl split: option.split
      intro!: moves_stateS intro: rel_materialize_node rel_materialize_field [OF rel_materialize_node])

lemma moves_reads:
  "moves rel (materialize_inner ext a g)" "moves rel (path_exists_inner a g)" "moves rel (revision_at_inner a g)"
  by (auto simp: materialize_inner_def path_exists_inner_def revision_at_inner_def
      intro!: moves_intros moves_cursors moves_json split: option.split cursor.split)

lemma moves_asserts:
  "moves rel (assert_exists a g)" "moves rel (assert_absent a g)" "moves rel (assert_value ext a g v)"
  "moves rel (assert_revision a g r)" "moves rel (increment ext a g x)"
  by (auto simp: assert_exists_def assert_absent_def assert_value_def assert_revision_def increment_def Let_def
      intro!: moves_intros moves_reads moves_put split: option.split json.split)

lemma moves_step: "moves rel (apply_transaction_step ext scope step)"
  by (cases step) (auto simp: split_def Let_def intro!: moves_intros moves_put moves_field_writes moves_asserts)

lemma moves_steps: "moves rel (apply_transaction_steps ext scope steps)"
proof (induction steps)
  case Nil
  show ?case unfolding apply_transaction_steps.simps by (rule moves_okS)
next
  case (Cons step steps)
  then show ?case unfolding apply_transaction_steps.simps by (intro moves_bindS moves_step moves_okS)
qed

end

text \<open>The journal can undo every write.\<close>
interpretation undo: write_primitives "\<lambda>s t. \<forall>s0. engine_ok s0 \<longrightarrow> journaled s0 s \<longrightarrow> journaled s0 t"
proof
  show "\<forall>s0. engine_ok s0 \<longrightarrow> journaled s0 s \<longrightarrow> journaled s0 (snd (maybe_load_node n s))" for s n
    using undoable_maybe_load [of n] by (simp add: undoable_def undoable_step_def)
  show "\<forall>s0. engine_ok s0 \<longrightarrow> journaled s0 s \<longrightarrow> journaled s0 (ensure_node n s)" for s n
    using undoable_ensure_node by (simp add: undoable_step_def)
  show "\<forall>s0. engine_ok s0 \<longrightarrow> journaled s0 s \<longrightarrow> journaled s0 (stamp_and_apply ns a s)" for s ns a
    using undoable_stamp by (simp add: undoable_step_def)
  show "\<forall>s0. engine_ok s0 \<longrightarrow> journaled s0 s \<longrightarrow> journaled s0 (s\<lparr> in_clock := c \<rparr>)" for s c
    using undoable_clock [of "\<lambda>_. c"] by (simp add: undoable_step_def)
qed auto

text \<open>Every write keeps the queues and the relationship index consistent.\<close>
interpretation consistent: write_primitives "\<lambda>s t. live s \<longrightarrow> live t \<and> in_limits t = in_limits s \<and>
    (in_transaction_journal t = None \<longleftrightarrow> in_transaction_journal s = None)"
proof
  show "live s \<longrightarrow> live (snd (maybe_load_node n s)) \<and> in_limits (snd (maybe_load_node n s)) = in_limits s \<and>
      (in_transaction_journal (snd (maybe_load_node n s)) = None \<longleftrightarrow> in_transaction_journal s = None)" for s n
    using keeps_live_maybe_load [of n] by (simp add: keeps_liveM_def keeps_live_def)
  show "live s \<longrightarrow> live (ensure_node n s) \<and> in_limits (ensure_node n s) = in_limits s \<and>
      (in_transaction_journal (ensure_node n s) = None \<longleftrightarrow> in_transaction_journal s = None)" for s n
    using keeps_live_ensure_node [of n] by (simp add: keeps_live_def)
  show "live s \<longrightarrow> live (stamp_and_apply ns a s) \<and> in_limits (stamp_and_apply ns a s) = in_limits s \<and>
      (in_transaction_journal (stamp_and_apply ns a s) = None \<longleftrightarrow> in_transaction_journal s = None)" for s ns a
    using keeps_live_stamp [of ns a] by (simp add: keeps_live_def)
  show "live s \<longrightarrow> live (s\<lparr> in_clock := c \<rparr>) \<and> in_limits (s\<lparr> in_clock := c \<rparr>) = in_limits s \<and>
      (in_transaction_journal (s\<lparr> in_clock := c \<rparr>) = None \<longleftrightarrow> in_transaction_journal s = None)" for s c
    by (simp add: live_def live_upto_def engine_ok_def)
qed auto

lemma steps_undoable: "undoable (apply_transaction_steps ext scope steps)"
  using undo.moves_steps by (auto simp: moves_def undoable_def undoable_step_def)

lemma steps_keep_live: "keeps_liveM (apply_transaction_steps ext scope steps)"
  using consistent.moves_steps by (auto simp: moves_def keeps_liveM_def keeps_live_def)

lemma inner_inv_new: "inner_inv ((with_replica_id time r)\<lparr> in_limits := l \<rparr>)"
  by (simp add: inner_inv_def with_replica_id_def index_consistent_def denoted_edges_def rel_inv_def
      rel_edges_def relationship_index_empty_def entry_set_def)

lemma engine_ok_new: "engine_ok ((with_replica_id time r)\<lparr> in_limits := l \<rparr>)"
  by (simp add: engine_ok_def with_replica_id_def)

lemma demo_db_ok: "inner_inv (demo_db r)" "engine_ok (demo_db r)"
  by (simp_all only: demo_db_new inner_inv_new engine_ok_new)

section \<open>Transactions are atomic\<close>

text \<open>Third-party functions that satisfy the contract, for examples.\<close>
definition demo_ext :: externs where
  "demo_ext = \<lparr> base64_encode = map (\<lambda>b. char_of (unat b)),
    base64_decode = (\<lambda>s. Some (map (\<lambda>c. word_of_nat (of_char c)) s)),
    blob_ref_to_json = (\<lambda>r. JArray [JString (blob_id r), JArray (replicate (blob_bytes r) JNull),
      (case blob_media_type r of None \<Rightarrow> JNull | Some m \<Rightarrow> JString m)]),
    blob_ref_from_json = (\<lambda>j. case j of
        JArray [JString i, JArray ns, m] \<Rightarrow> Some \<lparr> blob_id = i, blob_bytes = length ns,
          blob_media_type = (case m of JString t \<Rightarrow> Some t | _ \<Rightarrow> None) \<rparr>
      | _ \<Rightarrow> None),
    json_display = (\<lambda>_. []) \<rparr>"

definition demo_path :: "string \<Rightarrow> string list \<Rightarrow> remote_path" where
  "demo_path a g = \<lparr> rp_anchor = a, rp_segments = g \<rparr>"

text \<open>
  C2: A failed transaction leaves no trace.  Whatever its steps wrote, loaded, linked, queued and
  indexed before the error, and in whatever scope it ran, the state after the rollback is the
  state before the transaction: nodes, both operation queues with their key indices, record
  overlay, relationship index, missing and scheduled nodes, clock and policies.  Only the
  readings taken of the wall clock are not given back.
\<close>
theorem failed_transaction_leaves_no_trace:
  assumes "inner_inv s" "engine_ok s"
    and "run_local_transaction (apply_transaction_steps ext scope steps) s = (Inl e, s')"
  shows "s' = s\<lparr> in_reads := in_reads s' \<rparr>"
  using rollback [OF assms(1,2) steps_undoable assms(3)] .

definition demo_failing :: "transaction_step list" where
  "demo_failing = [TSet (demo_path ''a'' [''s'']) (JObject [(''#'', JString ''t'')]), TAssertExists (demo_path ''z'' [''y''])]"

theorem failed_transaction_leaves_no_trace_witness:
  "fst (run_local_transaction (apply_transaction_steps demo_ext None demo_failing) (demo_db ''r'')) =
      Inl (TransactionConflict ''expected `z.y` to exist'') \<and>
   snd (run_local_transaction (apply_transaction_steps demo_ext None demo_failing) (demo_db ''r'')) =
      (demo_db ''r'')\<lparr> in_reads := in_reads (snd (run_local_transaction
        (apply_transaction_steps demo_ext None demo_failing) (demo_db ''r''))) \<rparr>"
proof (rule conjI)
  show fst_eq: "fst (run_local_transaction (apply_transaction_steps demo_ext None demo_failing) (demo_db ''r'')) =
      Inl (TransactionConflict ''expected `z.y` to exist'')" by code_simp
  show "snd (run_local_transaction (apply_transaction_steps demo_ext None demo_failing) (demo_db ''r'')) =
      (demo_db ''r'')\<lparr> in_reads := in_reads (snd (run_local_transaction
        (apply_transaction_steps demo_ext None demo_failing) (demo_db ''r''))) \<rparr>"
    by (rule failed_transaction_leaves_no_trace [OF demo_db_ok])
      (rule prod_eqI, simp_all add: fst_eq)
qed

text \<open>
  C7: A committed transaction keeps the derived structures exact.  After any successful list of
  steps the relationship index is the one a rebuild from the nodes would give, and both
  operation queues hold one operation per slot with an exact key index.
\<close>
theorem committed_transaction_is_consistent:
  assumes "inner_inv s" "engine_ok s"
    and "run_local_transaction (apply_transaction_steps ext scope steps) s = (Inr r, s')"
  shows "in_relationship_index s' = rebuild_relationship_index (in_nodes s') \<and> inner_inv s'"
proof -
  have "inner_inv s'" by (rule commit_keeps_inv [OF assms(1,2) steps_keep_live assms(3)])
  then show ?thesis
    using index_consistent_unique [OF _ rebuild_consistent] by (simp add: inner_inv_def)
qed

definition demo_linking :: "transaction_step list" where
  "demo_linking = [TPut (demo_path ''a'' [''b'']) (JObject [(''#'', JString ''t'')])]"

theorem committed_transaction_is_consistent_witness:
  "fmlookup (outbound (in_relationship_index (snd (run_local_transaction
      (apply_transaction_steps demo_ext None demo_linking) (demo_db ''r''))))) ''a'' \<noteq> None \<and>
   in_relationship_index (snd (run_local_transaction (apply_transaction_steps demo_ext None demo_linking) (demo_db ''r''))) =
    rebuild_relationship_index (in_nodes (snd (run_local_transaction (apply_transaction_steps demo_ext None demo_linking) (demo_db ''r''))))"
proof -
  let ?run = "run_local_transaction (apply_transaction_steps demo_ext None demo_linking) (demo_db ''r'')"
  have "\<not> isl (fst ?run)" by code_simp
  then obtain r where r: "fst ?run = Inr r" by (cases "fst ?run") auto
  then have run: "?run = (Inr r, snd ?run)" by (metis prod.collapse)
  have "fmlookup (outbound (in_relationship_index (snd ?run))) ''a'' \<noteq> None" by code_simp
  then show ?thesis
    by (rule conjI [OF _ committed_transaction_is_consistent [OF demo_db_ok run, THEN conjunct1]])
qed

section \<open>Round trips\<close>

text \<open>
  C33: Markers survive the trip through JSON.  What the reader emits for bytes, for a blob
  reference and for a link is parsed back to the same bytes, reference and target, at every
  path, and none of the three is mistaken for another or for an object.
\<close>
theorem markers_roundtrip:
  assumes "codec_ok ext"
  shows "parse_input ext (bytes_marker_value ext b) path = Inr (PBytes b) \<and>
    parse_input ext (blob_marker_value ext r) path = Inr (PBlob r) \<and>
    parse_input ext (JObject [(''$link'', JString t)]) path = Inr (PLink t)"
  using assms from_to_base64 [OF assms, of b]
  by (simp add: bytes_marker_value_def blob_marker_value_def parse_bytes_marker_def parse_blob_marker_def
      parse_link_marker_def obj_get_def codec_ok_def)

lemma demo_ext_ok: "codec_ok demo_ext"
proof -
  have "of_char (char_of (unat b) :: char) = unat b" for b :: u8
    using unsigned_less [of b, where 'a = nat] by simp
  then show ?thesis
    by (auto simp: codec_ok_def demo_ext_def comp_def split: option.splits)
qed

theorem markers_roundtrip_witness:
  "parse_input demo_ext (bytes_marker_value demo_ext (BinaryBytes [1, 2, 255])) ''p'' = Inr (PBytes (BinaryBytes [1, 2, 255]))"
  using markers_roundtrip [OF demo_ext_ok] by blast

section \<open>Reading terminates\<close>

text \<open>What the export of a storage engine promises: every node it serves is exported.\<close>
definition engine_exports :: "inner \<Rightarrow> bool" where
  "engine_exports s \<longleftrightarrow>
    (case in_storage_engine s of
       None \<Rightarrow> True
     | Some engine \<Rightarrow> \<exists>snap. st_export_snapshot engine None = Inr snap \<and>
         (\<forall>n st. st_get_node engine n = Inr (Some st) \<longrightarrow> n |\<in>| fmdom (snap_nodes snap)))"

definition known_nodes :: "inner \<Rightarrow> node_id set" where
  "known_nodes s = fset (fmdom (in_nodes s)) \<union>
    (case in_storage_engine s of
       None \<Rightarrow> {}
     | Some engine \<Rightarrow> {n. \<exists>st. st_get_node engine n = Inr (Some st)})"

text \<open>Loading moves nodes from storage to memory and finds no others.\<close>
lemma known_nodes_load:
  assumes "engine_ok s"
  shows "known_nodes (snd (maybe_load_node n s)) \<subseteq> known_nodes s \<and>
    in_storage_engine (snd (maybe_load_node n s)) = in_storage_engine s"
proof (cases rule: maybe_load_cases [where n = n and s = s])
  case (3 engine st)
  then have "nst_id st = n" using assms unfolding engine_ok_def by metis
  then obtain v where v: "merge_node_state (in_nodes s) st = put_entry n (Some v) (in_nodes s)"
    using loaded_node_put by blast
  have "in_nodes (loaded_node n st s) = put_entry n (Some v) (in_nodes s)"
    "in_storage_engine (loaded_node n st s) = in_storage_engine s"
    by (simp_all add: loaded_node_def Let_def journal_missing_node_def journal_node_def v)
  with 3 show ?thesis by (auto simp: known_nodes_def put_entry_def fmlookup_dom_iff)
next
  case 2
  then show ?thesis by (simp add: marked_missing_def Let_def journal_missing_node_def known_nodes_def)
qed simp

definition stays_within :: "node_id set \<Rightarrow> inner \<Rightarrow> bool" where
  "stays_within U s \<longleftrightarrow> known_nodes s \<subseteq> U \<and> engine_ok s"

lemma thread_total:
  assumes "\<And>x s. x \<in> set xs \<Longrightarrow> stays_within U s \<Longrightarrow> \<exists>r t. f x s = Some (r, t) \<and> stays_within U t"
  shows "stays_within U s \<Longrightarrow> \<exists>rs t. thread f xs s = Some (rs, t) \<and> stays_within U t"
  using assms
proof (induction xs arbitrary: s)
  case (Cons x xs)
  from Cons.prems obtain r t where "f x s = Some (r, t)" "stays_within U t" by fastforce
  moreover from this Cons.IH [of t] Cons.prems obtain rs u where "thread f xs t = Some (rs, u)" "stays_within U u"
    by fastforce
  ultimately show ?case by simp
qed simp

lemma materialize_field_total:
  assumes "\<And>m s. stays_within U s \<Longrightarrow> \<exists>r t. g m s = Some (r, t) \<and> stays_within U t"
  shows "stays_within U s \<Longrightarrow> \<exists>r t. materialize_field ext g v s = Some (r, t) \<and> stays_within U t"
proof (cases v)
  case (FSet st)
  assume "stays_within U s"
  then obtain rs t where "thread g (sorted_list_of_fset (fmdom (members st))) s = Some (rs, t)" "stays_within U t"
    using thread_total [of _ U g s] assms by blast
  then show ?thesis using FSet by simp
qed (use assms in auto)

lemma materialize_node_total:
  assumes "finite U"
  shows "stays_within U s \<Longrightarrow> card (U - fset visited) < fuel \<Longrightarrow>
    \<exists>r t. materialize_node fuel ext visited n s = Some (r, t) \<and> stays_within U t"
proof (induction fuel arbitrary: visited n s)
  case (Suc fuel)
  let ?s1 = "snd (maybe_load_node n s)"
  have s1: "stays_within U ?s1"
    using known_nodes_load [of s n] Suc.prems(1) by (auto simp: stays_within_def engine_ok_def)
  show ?case
  proof (cases "n |\<in>| visited")
    case False
    show ?thesis
    proof (cases "fmlookup (in_nodes ?s1) n")
      case (Some st)
      then have "n \<in> U - fset visited"
        using s1 False by (auto simp: stays_within_def known_nodes_def fmlookup_dom_iff)
      moreover have "U - fset (finsert n visited) = (U - fset visited) - {n}" by auto
      ultimately have "card (U - fset (finsert n visited)) < fuel"
        using Suc.prems(2) card_Diff1_less [of "U - fset visited" n] assms by simp
      note deeper = Suc.IH [OF _ this]
      let ?g = "\<lambda>(f :: string, fst'). materialize_field ext
          (\<lambda>m. materialize_node fuel ext (finsert n visited) m) (fld_value fst')"
      have "\<exists>r u. materialize_field ext (materialize_node fuel ext (finsert n visited)) v t = Some (r, u) \<and>
          stays_within U u" if "stays_within U t" for v t
        using deeper that by (rule materialize_field_total)
      then have "\<exists>r u. ?g x t = Some (r, u) \<and> stays_within U u" if "stays_within U t" for x t
        using that by (simp add: split_def)
      then obtain rs t where "thread ?g (sorted_list_of_fmap (nst_fields st)) ?s1 = Some (rs, t)" "stays_within U t"
        using thread_total [OF _ s1, of _ ?g] by blast
      then show ?thesis using False Some by (simp add: Let_def)
    next
      case None
      then show ?thesis using False s1 by (simp add: Let_def)
    qed
  qed (use Suc.prems in simp)
qed simp

lemma node_fuel_enough:
  assumes "engine_exports s"
  shows "finite (known_nodes s) \<and> card (known_nodes s) < node_fuel s"
proof (cases "in_storage_engine s")
  case None
  then show ?thesis
    by (simp add: known_nodes_def node_fuel_def length_sorted_list_of_fset fcard.rep_eq)
next
  case (Some engine)
  with assms obtain snap where snap: "st_export_snapshot engine None = Inr snap"
      "\<And>n st. st_get_node engine n = Inr (Some st) \<Longrightarrow> n |\<in>| fmdom (snap_nodes snap)"
    by (auto simp: engine_exports_def)
  have sub: "known_nodes s \<subseteq> fset (fmdom (in_nodes s)) \<union> fset (fmdom (snap_nodes snap))"
    using Some snap(2) by (auto simp: known_nodes_def)
  then have "card (known_nodes s) \<le> card (fset (fmdom (in_nodes s))) + card (fset (fmdom (snap_nodes snap)))"
    by (meson card_Un_le card_mono finite_UnI finite_fset le_trans)
  with sub Some snap(1) show ?thesis
    by (auto simp: node_fuel_def length_sorted_list_of_fset fcard.rep_eq intro: finite_subset)
qed

text \<open>
  C17: Reading terminates.  Cycles of links do not matter: with as much fuel as there are nodes in
  memory and in storage, materialising any node returns a value, and every larger amount of
  fuel does so as well, provided the storage engine exports every node it serves.
\<close>
theorem materialize_terminates:
  assumes "engine_ok s" "engine_exports s" "fuel \<ge> node_fuel s"
  shows "\<exists>v t. materialize_node fuel ext {||} n s = Some (v, t)"
  using materialize_node_total [of "known_nodes s" s "{||}" fuel ext n] node_fuel_enough [OF assms(2)] assms(1,3)
  by (auto simp: stays_within_def)

theorem materialize_terminates_witness:
  "\<exists>v t. materialize_node 2 demo_ext {||} ''a'' (set_field ''a'' ''self'' (OLink ''a'') (demo_db ''r'')) = Some (v, t)"
proof -
  let ?s = "set_field ''a'' ''self'' (OLink ''a'') (demo_db ''r'')"
  have "Option.is_none (in_storage_engine ?s)" by code_simp
  then have none: "in_storage_engine ?s = None" by (simp only: is_none_simps Option.is_none_def)
  have "2 \<ge> node_fuel ?s" by code_simp
  with none show ?thesis
    by (intro materialize_terminates) (simp_all add: engine_ok_def engine_exports_def)
qed

end
