(* ===== verification/Hazards.thy ===== *)
theory Hazards
  imports Writes
begin

text \<open>
  Behaviours of the write path that the callers and the documentation do not expect, each with
  the smallest state that shows it.
\<close>

section \<open>A full queue\<close>

lemma stamp_full:
  assumes "queue_len (in_pending_ops s) \<ge> max_pending_ops (in_limits s)"
  shows "in_nodes (stamp_and_apply ns a s) = in_nodes s \<and> in_pending_ops (stamp_and_apply ns a s) = in_pending_ops s \<and>
    in_unflushed_ops (stamp_and_apply ns a s) = in_unflushed_ops s"
  using assms by (simp add: stamp_and_apply_def split_def Let_def apply_operation_cases)

text \<open>
  C36: A write to a full queue is lost and reported as done.  When the pending queue has reached its
  limit, writing a scalar to a field succeeds, yet neither the nodes nor the queues change: the
  operation is dropped and the result of applying it is not looked at.
\<close>
theorem full_queue_loses_write:
  assumes "queue_len (in_pending_ops s) \<ge> max_pending_ops (in_limits s)" "parse_input ext v path = Inr (PScalar v)"
  shows "\<exists>t. write_value_to_field ext n f v path s = (Inr (), t) \<and> in_nodes t = in_nodes s \<and>
    in_pending_ops t = in_pending_ops s \<and> in_unflushed_ops t = in_unflushed_ops s"
  using stamp_full [OF assms(1)] assms(2) by (simp add: set_field_def)

theorem full_queue_loses_write_witness:
  "\<exists>t. write_value_to_field demo_ext ''n'' ''f'' (JBool True) []
      ((demo_db ''r'')\<lparr> in_limits := demo_limits\<lparr> max_pending_ops := 0 \<rparr> \<rparr>) = (Inr (), t) \<and> in_nodes t = fmempty"
proof -
  let ?s = "(demo_db ''r'')\<lparr> in_limits := demo_limits\<lparr> max_pending_ops := 0 \<rparr> \<rparr>"
  obtain t where "write_value_to_field demo_ext ''n'' ''f'' (JBool True) [] ?s = (Inr (), t)" "in_nodes t = in_nodes ?s"
    using full_queue_loses_write [of ?s demo_ext "JBool True" "[]" "''n''" "''f''"] by auto
  moreover have "in_nodes ?s = fmempty" by (simp add: demo_db_def)
  ultimately show ?thesis by auto
qed

section \<open>Changes that are not reported\<close>

text \<open>
  A rewritten slot is not reported.  A transaction reports the operations appended to the
  unflushed queue.  Writing a field whose earlier write is still unflushed replaces that
  operation in place, so the field changes while the transaction reports no operation.
\<close>
lemma rewritten_slot_is_not_reported:
  "let s = set_field ''a'' ''b'' (OLink ''x'') (demo_db ''r'');
       (result, t) = run_local_transaction (modifyS (set_field ''a'' ''b'' (OLink ''y''))) s
   in (case result of Inr (_, ops) \<Rightarrow> ops = [] | Inl (e :: primadb_error) \<Rightarrow> False) \<and>
      field_at ''a'' ''b'' s = Some (FLink ''x'') \<and> field_at ''a'' ''b'' t = Some (FLink ''y'')"
  by code_simp

section \<open>A link into a coordinated scope\<close>

definition linked_bank :: inner where
  "linked_bank =
    (set_field ''a'' ''x'' (OLink ''bank'') (demo_db ''r''))\<lparr> in_scope_policies := fmap_of_list [(''bank'', coordinated_by ''p'')] \<rparr>"


section \<open>A write to a node that is not loaded\<close>

definition stored_node :: node_state where
  "stored_node = \<lparr> nst_id = ''n'',
    nst_fields = fmap_of_list [(''f'', \<lparr> fld_value = FLink ''t'', fld_version = zero_marker \<rparr>)], nst_tombstones = fmempty \<rparr>"

definition demo_engine :: incremental_store where
  "demo_engine =
    \<lparr> st_get_node = (\<lambda>n. if n = ''n'' then Inr (Some stored_node) else Inr None),
      st_export_snapshot = (\<lambda>_. Inl BlobStoreUnavailable),
      st_scan_direct_index_entries = (\<lambda>_ _ _. Inr []), st_scan_record_entries = (\<lambda>_. Inr None) \<rparr>"


end
