(* ===== verification/Scopes.thy ===== *)
theory Scopes
  imports Writes
begin

text \<open>
  Transactions in a scope (\<open>Scope\<close>, \<open>validate_transaction_scopes\<close> and
  \<open>queue_provisional_transaction\<close> of \<open>src/src/db.rs\<close>): rewriting the paths of the steps into the
  scope, checking that a transaction does not mix strict scopes, and deciding between a local
  commit, a rejection and a provisional proposal.
\<close>

section \<open>Definitions\<close>

(* src: src/src/db.rs:5141-5153 transaction_step_path *)
fun transaction_step_path :: "transaction_step \<Rightarrow> remote_path" where
  "transaction_step_path (TPut p v) = p"
| "transaction_step_path (TUnset p) = p"
| "transaction_step_path (TSet p v) = p"
| "transaction_step_path (TRemove p v) = p"
| "transaction_step_path (TAssertExists p) = p"
| "transaction_step_path (TAssertAbsent p) = p"
| "transaction_step_path (TAssertValue p v) = p"
| "transaction_step_path (TAssertRevision p r) = p"
| "transaction_step_path (TIncrement p x) = p"

(* src: src/src/db.rs:5155-5191 scope_transaction_step *)
fun scope_transaction_step :: "string \<Rightarrow> transaction_step \<Rightarrow> transaction_step" where
  "scope_transaction_step scope (TPut p v) = TPut (scope_remote_path scope p) v"
| "scope_transaction_step scope (TUnset p) = TUnset (scope_remote_path scope p)"
| "scope_transaction_step scope (TSet p v) = TSet (scope_remote_path scope p) v"
| "scope_transaction_step scope (TRemove p v) = TRemove (scope_remote_path scope p) v"
| "scope_transaction_step scope (TAssertExists p) = TAssertExists (scope_remote_path scope p)"
| "scope_transaction_step scope (TAssertAbsent p) = TAssertAbsent (scope_remote_path scope p)"
| "scope_transaction_step scope (TAssertValue p v) = TAssertValue (scope_remote_path scope p) v"
| "scope_transaction_step scope (TAssertRevision p r) = TAssertRevision (scope_remote_path scope p) r"
| "scope_transaction_step scope (TIncrement p x) = TIncrement (scope_remote_path scope p) x"

text \<open>The loop, with the strict scope matched so far and whether a path without policy was seen.\<close>
(* src: src/src/db.rs:1656-1694 Primadb::validate_transaction_scopes (loop) *)
fun validate_paths ::
    "string option \<Rightarrow> (string, scope_policy) fmap \<Rightarrow> string option \<Rightarrow> bool \<Rightarrow> string list \<Rightarrow> primadb_error option" where
  "validate_paths required policies matched saw_unscoped [] = None"
| "validate_paths required policies matched saw_unscoped (path # paths) =
    (if (case required of Some root \<Rightarrow> \<not> node_matches_root path root | None \<Rightarrow> False)
     then Some (StrictScopeConflict (''path `'' @ path @ ''` is outside scope `'' @ the required @ ''`''))
     else case policy_for_path policies path of
       None \<Rightarrow>
         (let saw = (saw_unscoped \<or> required = None)
          in if matched \<noteq> None \<and> required = None
             then Some (StrictScopeConflict ''transaction mixes scoped and unscoped paths'')
             else validate_paths required policies matched saw paths)
     | Some (scope, policy) \<Rightarrow>
         (if sp_consistency policy = Eventual then validate_paths required policies matched saw_unscoped paths
          else if saw_unscoped \<and> required = None
          then Some (StrictScopeConflict ''transaction mixes scoped and unscoped paths'')
          else case matched of
            Some current \<Rightarrow>
              (if current \<noteq> scope
               then Some (StrictScopeConflict (''transaction touches both `'' @ current @ ''` and `'' @ scope @ ''`''))
               else validate_paths required policies matched saw_unscoped paths)
          | None \<Rightarrow> validate_paths required policies (Some scope) saw_unscoped paths))"

(* src: src/src/db.rs:1648-1696 Primadb::validate_transaction_scopes *)
definition validate_transaction_scopes ::
    "string option \<Rightarrow> transaction_step list \<Rightarrow> inner \<Rightarrow> primadb_error option" where
  "validate_transaction_scopes required steps s =
    validate_paths required (in_scope_policies s) required False
      (map (\<lambda>st. remote_path_string (transaction_step_path st)) steps)"

(* src: src/src/db.rs:1553-1585 Primadb::queue_provisional_transaction *)
definition queue_provisional_transaction ::
    "string \<Rightarrow> transaction_step list \<Rightarrow> transaction_options \<Rightarrow> inner \<Rightarrow> transaction_report \<times> inner" where
  "queue_provisional_transaction scope steps options s =
    (let next = sat_add (in_next_provisional_transaction_id s) 1;
         i = clk_actor (in_clock s) @ ''/proposal/'' @ hex (unat next);
         proposal = \<lparr> pt_id = i, pt_scope = scope, pt_created_at_millis = in_time s (in_reads s),
                      pt_steps = steps, pt_options = options \<rparr>
     in (\<lparr> tr_status = Provisional, tr_operation_count = 0, tr_member_ids = [], tr_proposal_id = Some i \<rparr>,
         s\<lparr> in_next_provisional_transaction_id := next, in_reads := Suc (in_reads s),
            in_provisional_transactions := fmupd i proposal (in_provisional_transactions s) \<rparr>))"

(* src: src/src/db.rs:1542-1551 Primadb::provisional_transactions_for_scope *)
definition provisional_transactions_for_scope :: "string \<Rightarrow> inner \<Rightarrow> provisional_transaction list" where
  "provisional_transactions_for_scope scope s =
    filter (\<lambda>p. pt_scope p = scope) (map snd (sorted_list_of_fmap (in_provisional_transactions s)))"

(* src: src/src/db.rs:1534-1540 Primadb::configure_scope_policy *)
definition configure_scope_policy :: "string \<Rightarrow> scope_policy \<Rightarrow> inner \<Rightarrow> inner" where
  "configure_scope_policy scope policy s =
    s\<lparr> in_scope_policies := fmupd scope policy (in_scope_policies s) \<rparr>"

(* src: src/src/db.rs:5248-5250 Scope::policy *)
definition scope_policy_or_default :: "string \<Rightarrow> inner \<Rightarrow> scope_policy" where
  "scope_policy_or_default root s =
    (case fmlookup (in_scope_policies s) root of Some p \<Rightarrow> p | None \<Rightarrow> scope_policy_default)"

definition committed_report :: "string list \<Rightarrow> operation list \<Rightarrow> transaction_report" where
  "committed_report ids ops =
    \<lparr> tr_status = Committed, tr_operation_count = length ops, tr_member_ids = ids, tr_proposal_id = None \<rparr>"

text \<open>A list of steps run as one local transaction, up to the notification of the change.\<close>
definition commit_steps ::
    "externs \<Rightarrow> string option \<Rightarrow> transaction_step list \<Rightarrow> (inner, primadb_error, transaction_report) fallible" where
  "commit_steps ext scope steps =
    bindS (run_local_transaction (apply_transaction_steps ext scope steps))
      (\<lambda>(ids, ops). okS (committed_report ids ops))"

(* src: src/src/db.rs:910-923 Primadb::apply_transaction_steps -> db_apply_transaction_steps *)
definition db_apply_transaction_steps ::
    "externs \<Rightarrow> transaction_step list \<Rightarrow> (inner, primadb_error, transaction_report) fallible" where
  "db_apply_transaction_steps ext steps s =
    (case validate_transaction_scopes None steps s of
       Some e \<Rightarrow> (Inl e, s)
     | None \<Rightarrow> commit_steps ext None steps s)"

(* src: src/src/db.rs:5274-5315 Scope::transaction_steps *)
definition scope_transaction_steps ::
    "externs \<Rightarrow> string \<Rightarrow> transaction_step list \<Rightarrow> transaction_options \<Rightarrow>
     (inner, primadb_error, transaction_report) fallible" where
  "scope_transaction_steps ext root steps options s =
    (let scoped = map (scope_transaction_step root) steps
     in case validate_transaction_scopes (Some root) scoped s of
          Some e \<Rightarrow> (Inl e, s)
        | None \<Rightarrow>
            (let policy = scope_policy_or_default root s
             in if sp_consistency policy = Coordinated \<and>
                   \<not> scope_policy_matches_authority_actor policy (clk_actor (in_clock s))
                then (case (case to_offline options of Some x \<Rightarrow> x | None \<Rightarrow> sp_offline_writes policy) of
                        Reject \<Rightarrow> (Inl (StrictScopeUnavailable root), s)
                      | QueueProvisional \<Rightarrow>
                          (let (report, s1) = queue_provisional_transaction root scoped options s
                           in (Inr report, s1)))
                else commit_steps ext (Some root) scoped s))"

section \<open>Scoped paths\<close>

lemma scoped_path_matches:
  "node_matches_root (remote_path_string (scope_remote_path scope p)) scope"
proof -
  have below: "node_matches_root (a @ ''/'' @ t) scope" if "node_matches_root a scope" for a t
    using that by (auto simp: node_matches_root_def starts_with_iff_prefix prefix_def)
  have self: "node_matches_root scope scope" by (simp add: node_matches_root_def)
  show ?thesis
    using below [OF self] below
    by (auto simp: scope_remote_path_def scoped_anchor_segments_def remote_path_string_def Let_def self
        split: prod.splits)
qed

lemma scoped_path_idem: "scope_remote_path scope (scope_remote_path scope p) = scope_remote_path scope p"
  by (auto simp: scope_remote_path_def scoped_anchor_segments_def node_matches_root_def Let_def split: prod.splits)

lemma step_path_scoped: "transaction_step_path (scope_transaction_step scope st) = scope_remote_path scope (transaction_step_path st)"
  by (cases st) simp_all

text \<open>
  C32: Scoped steps stay in their scope.  Whatever anchor and segments a step names, the path it
  is rewritten to lies in the scope, rewriting it again changes nothing (the transaction
  rewrites every path a second time), and the check for paths outside the scope never fires.
\<close>
theorem scoped_steps_stay_in_scope:
  "list_all (\<lambda>st. node_matches_root (remote_path_string (transaction_step_path st)) scope \<and>
      scope_transaction_step scope st = st) (map (scope_transaction_step scope) steps)"
proof -
  have "scope_transaction_step scope (scope_transaction_step scope st) = scope_transaction_step scope st" for st
    by (cases st) (simp_all add: scoped_path_idem)
  then show ?thesis by (simp add: list_all_iff step_path_scoped scoped_path_matches)
qed

section \<open>Validation\<close>

text \<open>The strict scope a path belongs to, if any.\<close>
definition strict_scope :: "(string, scope_policy) fmap \<Rightarrow> string \<Rightarrow> string option" where
  "strict_scope policies path =
    (case policy_for_path policies path of
       Some (scope, p) \<Rightarrow> (if sp_consistency p = Eventual then None else Some scope)
     | None \<Rightarrow> None)"

definition unscoped :: "(string, scope_policy) fmap \<Rightarrow> string \<Rightarrow> bool" where
  "unscoped policies path \<longleftrightarrow> policy_for_path policies path = None"

lemma validate_free:
  "validate_paths None policies matched saw paths = None \<longleftrightarrow>
    (\<forall>p \<in> set paths. \<forall>q \<in> set paths. \<forall>a b. strict_scope policies p = Some a \<longrightarrow> strict_scope policies q = Some b \<longrightarrow> a = b) \<and>
    (\<forall>p \<in> set paths. \<forall>a c. strict_scope policies p = Some a \<longrightarrow> matched = Some c \<longrightarrow> a = c) \<and>
    (\<forall>p \<in> set paths. unscoped policies p \<longrightarrow> matched = None \<and> (\<forall>q \<in> set paths. strict_scope policies q = None)) \<and>
    (saw \<longrightarrow> (\<forall>q \<in> set paths. strict_scope policies q = None))"
proof (induction paths arbitrary: matched saw)
  case (Cons path paths)
  consider (free) "policy_for_path policies path = None"
    | (eventual) scope p where "policy_for_path policies path = Some (scope, p)" "sp_consistency p = Eventual"
    | (strict) scope p where "policy_for_path policies path = Some (scope, p)" "sp_consistency p \<noteq> Eventual"
    by (cases "policy_for_path policies path") auto
  then show ?case
  proof cases
    case free
    then show ?thesis by (auto simp: Cons.IH strict_scope_def unscoped_def)
  next
    case eventual
    then show ?thesis by (simp add: Cons.IH strict_scope_def unscoped_def)
  next
    case strict
    then have sp: "strict_scope policies path = Some scope" "\<not> unscoped policies path"
      by (simp_all add: strict_scope_def unscoped_def)
    show ?thesis
    proof (cases matched)
      case None
      with strict sp show ?thesis by (auto simp: Cons.IH)
    next
      case (Some c)
      with strict sp show ?thesis by (auto simp: Cons.IH)
    qed
  qed
qed simp

lemma at_most_one_value:
  "(\<forall>p \<in> P. \<forall>q \<in> P. \<forall>a b. f p = Some a \<longrightarrow> f q = Some b \<longrightarrow> a = b) \<and> (\<forall>p \<in> P. u p \<longrightarrow> (\<forall>q \<in> P. f q = None)) \<longleftrightarrow>
    (let S = {a. \<exists>p \<in> P. f p = Some a} in S = {} \<or> (\<exists>a. S = {a} \<and> (\<forall>p \<in> P. \<not> u p)))"
proof (cases "\<exists>p \<in> P. \<exists>a. f p = Some a")
  case True
  then obtain p a where pa: "p \<in> P" "f p = Some a" by blast
  have "{a. \<exists>p \<in> P. f p = Some a} = {b} \<longleftrightarrow> b = a \<and> (\<forall>q \<in> P. \<forall>c. f q = Some c \<longrightarrow> c = a)" for b
    using pa unfolding set_eq_iff mem_Collect_eq singleton_iff by metis
  moreover have "{a. \<exists>p \<in> P. f p = Some a} \<noteq> {}" using pa by blast
  moreover have "(\<forall>p \<in> P. \<forall>q \<in> P. \<forall>a b. f p = Some a \<longrightarrow> f q = Some b \<longrightarrow> a = b) \<longleftrightarrow>
      (\<forall>q \<in> P. \<forall>c. f q = Some c \<longrightarrow> c = a)"
    using pa by metis
  moreover have "(\<forall>p \<in> P. u p \<longrightarrow> (\<forall>q \<in> P. f q = None)) \<longleftrightarrow> (\<forall>p \<in> P. \<not> u p)"
    using pa by force
  ultimately show ?thesis unfolding Let_def by (simp only: simp_thms ex_simps)
next
  case False
  then have "{a. \<exists>p \<in> P. f p = Some a} = {}" "\<forall>q \<in> P. f q = None" by auto
  then show ?thesis by (simp add: Let_def)
qed

text \<open>
  C22: Validation accepts exactly the transactions that use one strict scope.  Without a required
  scope, a list of steps passes exactly when all its paths under a policy other than eventual
  have the same governing scope and, if there is such a path, no path is without policy.  The
  order of the steps does not matter.
\<close>
theorem validation_accepts_one_strict_scope:
  "validate_transaction_scopes None steps s = None \<longleftrightarrow>
    (let paths = map (\<lambda>st. remote_path_string (transaction_step_path st)) steps;
         scopes = {a. \<exists>p \<in> set paths. strict_scope (in_scope_policies s) p = Some a}
     in scopes = {} \<or> (\<exists>a. scopes = {a} \<and> (\<forall>p \<in> set paths. \<not> unscoped (in_scope_policies s) p)))"
proof -
  let ?paths = "map (\<lambda>st. remote_path_string (transaction_step_path st)) steps"
  let ?strict = "strict_scope (in_scope_policies s)" and ?free = "unscoped (in_scope_policies s)"
  have "validate_transaction_scopes None steps s = None \<longleftrightarrow>
      (\<forall>p \<in> set ?paths. \<forall>q \<in> set ?paths. \<forall>a b. ?strict p = Some a \<longrightarrow> ?strict q = Some b \<longrightarrow> a = b) \<and>
      (\<forall>p \<in> set ?paths. ?free p \<longrightarrow> (\<forall>q \<in> set ?paths. ?strict q = None))"
    unfolding validate_transaction_scopes_def validate_free by simp
  also have "\<dots> \<longleftrightarrow> (let scopes = {a. \<exists>p \<in> set ?paths. ?strict p = Some a}
      in scopes = {} \<or> (\<exists>a. scopes = {a} \<and> (\<forall>p \<in> set ?paths. \<not> ?free p)))"
    by (rule at_most_one_value)
  finally show ?thesis by (simp only: Let_def)
qed

theorem validation_accepts_one_strict_scope_witness:
  "validate_transaction_scopes None [TUnset (demo_path ''bank'' [''x'']), TUnset (demo_path ''bank'' [''y''])]
    ((demo_db ''r'')\<lparr> in_scope_policies := fmap_of_list [(''bank'', coordinated_by ''p'')] \<rparr>) = None"
proof -
  let ?pol = "fmap_of_list [(''bank'', coordinated_by ''p'')]"
  have pol: "policy_for_path ?pol (''bank/'' @ f) = Some (''bank'', coordinated_by ''p'')" for f
    unfolding governing_policy by (simp add: node_matches_root_def starts_with_def fmlookup_of_list)
  have "strict_scope ?pol ''bank/x'' = Some ''bank''" "strict_scope ?pol ''bank/y'' = Some ''bank''"
      "\<not> unscoped ?pol ''bank/x''" "\<not> unscoped ?pol ''bank/y''"
    using pol [of "''x''"] pol [of "''y''"] by (simp_all add: strict_scope_def unscoped_def coordinated_by_def)
  then show ?thesis
    unfolding validation_accepts_one_strict_scope Let_def
    by (intro disjI2 exI [of _ "''bank''"]) (auto simp: demo_path_def remote_path_string_def)
qed

section \<open>Offline scopes\<close>



end
