(* ===== verification/StorageTx.thy ===== *)
theory StorageTx
  imports Crdt EngineKeys
begin

text \<open>
  Building storage transactions (\<open>src/src/engine.rs\<close>): the nodes touched by operations, the scalar
  index entries of a node and everything it links to, and the transaction handed to a storage
  engine.  The collection of index entries shares results between nodes through a cache of
  complete, cycle-free results; it is shown to agree with the plain recursion that the index
  entries are defined by.
\<close>

section \<open>Data\<close>

(* src: src/src/engine.rs:73-87 StorageMetadata *)
record storage_metadata =
  sm_schema_version :: u32
  sm_clock :: hybrid_clock
  sm_pending_ops :: "operation list"
  sm_next_tx_id :: u64
  sm_last_materialized_tx_id :: u64
  sm_scope_policies :: "(string, scope_policy) fmap"
  sm_provisional_transactions :: "(string, provisional_transaction) fmap"
  sm_next_provisional_transaction_id :: u64

text \<open>\<open>saturating_sub\<close>.\<close>
definition sat_sub :: "u64 \<Rightarrow> u64 \<Rightarrow> u64" where
  "sat_sub a b = (if a < b then 0 else a - b)"

(* src: src/src/engine.rs:90-101 StorageMetadata::new *)
definition storage_metadata_new :: "hybrid_clock \<Rightarrow> operation list \<Rightarrow> u64 \<Rightarrow> storage_metadata" where
  "storage_metadata_new clock pending_ops next_tx_id =
    \<lparr> sm_schema_version = 1, sm_clock = clock, sm_pending_ops = pending_ops, sm_next_tx_id = next_tx_id,
      sm_last_materialized_tx_id = sat_sub next_tx_id 1, sm_scope_policies = fmempty,
      sm_provisional_transactions = fmempty, sm_next_provisional_transaction_id = 0 \<rparr>"

(* src: src/src/engine.rs:116-121 DirectScalarIndexFragment *)
record fragment =
  frag_path :: string
  frag_value :: json
  frag_sortable_key :: string

(* src: src/src/engine.rs:187-193 StoredAuthFieldMeta *)
record stored_auth_field_meta =
  am_signer :: string
  am_certificate :: "string option"
  am_owner :: "string option"
  am_verified :: bool

(* src: src/src/engine.rs:195-198 AuthNodeMeta *)
record auth_node_meta =
  signed_fields :: "(string, stored_auth_field_meta) fmap"

(* src: src/src/engine.rs:200-203 NodeIndexManifest *)
record node_index_manifest =
  direct_index_keys :: "string list"

(* src: src/src/engine.rs:213-225 StorageTransaction *)
record storage_transaction =
  tx_id :: u64
  tx_metadata :: storage_metadata
  tx_nodes :: "(node_id, node_state) fmap"
  tx_node_indexes :: "(node_id, node_index_manifest) fmap"
  tx_direct_indexes :: "(string, direct_scalar_index_entry) fmap"
  tx_records :: "(string, record_entry) fmap"
  tx_deleted_records :: "string fset"
  tx_auth_meta :: "(node_id, auth_node_meta) fmap"
  tx_journal_ops :: "operation list"

section \<open>Touched nodes\<close>

(* src: src/src/engine.rs:2022-2035 touched_nodes *)
fun touched_nodes :: "operation list \<Rightarrow> node_id fset" where
  "touched_nodes [] = {||}"
| "touched_nodes (op # ops) = finsert (action_node (action op)) (touched_nodes ops)"

text \<open>The part of a path before its last slash, \<open>rsplit_once('/')\<close>.\<close>
definition parent_path :: "string \<Rightarrow> string option" where
  "parent_path s =
    (case dropWhile (\<lambda>c. c \<noteq> CHR ''/'') (rev s) of [] \<Rightarrow> None | _ # p \<Rightarrow> Some (rev p))"

lemma parent_path_shorter: "parent_path s = Some p \<Longrightarrow> length p < length s"
  using length_dropWhile_le [of "\<lambda>c. c \<noteq> CHR ''/''" "rev s"]
  by (auto simp: parent_path_def split: list.splits)

function ancestor_paths :: "string \<Rightarrow> string list" where
  "ancestor_paths s = (case parent_path s of None \<Rightarrow> [] | Some p \<Rightarrow> p # ancestor_paths p)"
  by auto

termination
  by (relation "measure length") (auto dest: parent_path_shorter)

declare ancestor_paths.simps [simp del]

(* src: src/src/engine.rs:2037-2053 touched_storage_nodes *)
definition touched_storage_nodes :: "(node_id, node_state) fmap \<Rightarrow> operation list \<Rightarrow> node_id fset" where
  "touched_storage_nodes nodes ops =
    fold (\<lambda>n t. fold (\<lambda>p t. if fmlookup nodes p \<noteq> None then finsert p t else t) (ancestor_paths n) t)
      (sorted_list_of_fset (touched_nodes ops)) (touched_nodes ops)"

section \<open>Index entries\<close>

type_synonym fragment_cache = "(node_id, fragment list) fmap"

definition below_field :: "string \<Rightarrow> fragment \<Rightarrow> fragment" where
  "below_field field f =
    f\<lparr> frag_path := (if frag_path f = [] then field else field @ ''.'' @ frag_path f) \<rparr>"

text \<open>Without the crypto feature a scalar is indexed as it is.\<close>
definition scalar_fragment :: "string \<Rightarrow> json \<Rightarrow> fragment list" where
  "scalar_fragment field v =
    (case sortable_scalar_key v of
       Some k \<Rightarrow> [\<lparr> frag_path = field, frag_value = v, frag_sortable_key = k \<rparr>]
     | None \<Rightarrow> [])"

definition node_field_list :: "(node_id, node_state) fmap \<Rightarrow> node_id \<Rightarrow> (string \<times> field_value) list" where
  "node_field_list nodes n =
    (case fmlookup nodes n of
       Some st \<Rightarrow> map (\<lambda>(f, fs). (f, fld_value fs)) (sorted_list_of_fmap (nst_fields st))
     | None \<Rightarrow> [])"

lemma node_field_list_dom: "node_field_list nodes n \<noteq> [] \<Longrightarrow> n |\<in>| fmdom nodes"
  by (auto simp: node_field_list_def fmlookup_dom_iff split: option.splits)

lemma fewer_unvisited:
  "node_field_list nodes n \<noteq> [] \<Longrightarrow> n |\<notin>| visited \<Longrightarrow>
   fcard (fmdom nodes |-| finsert n visited) < fcard (fmdom nodes |-| visited)"
  by (rule pfsubset_fcard_mono) (auto dest: node_field_list_dom)

text \<open>
  The set of visited nodes is the active path: an insertion is undone when the call returns, so it
  is passed down instead of being threaded.
\<close>
(* src: src/src/engine.rs:2297-2359 storage_collect_scalar_fragments *)
function (sequential) storage_collect_scalar_fragments ::
    "(node_id, node_state) fmap \<Rightarrow> node_id \<Rightarrow> node_id fset \<Rightarrow> fragment_cache \<Rightarrow>
     (fragment list \<times> bool) \<times> fragment_cache"
  and collect_fields ::
    "(node_id, node_state) fmap \<Rightarrow> (string \<times> field_value) list \<Rightarrow> node_id fset \<Rightarrow> fragment_cache \<Rightarrow>
     (fragment list \<times> bool) \<times> fragment_cache" where
  "storage_collect_scalar_fragments nodes n visited cache =
    (case fmlookup cache n of
       Some fragments \<Rightarrow> ((fragments, False), cache)
     | None \<Rightarrow>
         if n |\<in>| visited then (([], True), cache)
         else if node_field_list nodes n = [] then (([], False), fmupd n [] cache)
         else let ((fragments, contains_cycle), cache1) =
                    collect_fields nodes (node_field_list nodes n) (finsert n visited) cache
              in ((fragments, contains_cycle), if contains_cycle then cache1 else fmupd n fragments cache1))"
| "collect_fields nodes [] visited cache = (([], False), cache)"
| "collect_fields nodes ((field, FScalar v) # fs) visited cache =
    (let ((rest, contains_cycle), cache1) = collect_fields nodes fs visited cache
     in ((scalar_fragment field v @ rest, contains_cycle), cache1))"
| "collect_fields nodes ((field, FLink target) # fs) visited cache =
    (let ((child, child_cycle), cache1) = storage_collect_scalar_fragments nodes target visited cache;
         ((rest, contains_cycle), cache2) = collect_fields nodes fs visited cache1
     in ((map (below_field field) child @ rest, child_cycle \<or> contains_cycle), cache2))"
| "collect_fields nodes ((field, _) # fs) visited cache = collect_fields nodes fs visited cache"
  by pat_completeness auto

termination
  by (relation "measures
      [\<lambda>x. case x of Inl (nodes, n, V, c) \<Rightarrow> fcard (fmdom nodes |-| V) | Inr (nodes, fs, V, c) \<Rightarrow> fcard (fmdom nodes |-| V),
       \<lambda>x. case x of Inl _ \<Rightarrow> 0 | Inr (nodes, fs, V, c) \<Rightarrow> Suc (length fs)]")
    (auto intro: fewer_unvisited)

declare storage_collect_scalar_fragments.simps [simp del]

definition index_entry :: "node_id \<Rightarrow> fragment \<Rightarrow> direct_scalar_index_entry" where
  "index_entry n f =
    \<lparr> ie_node_id = n, ie_path = frag_path f, ie_value = frag_value f, ie_sortable_key = frag_sortable_key f \<rparr>"

definition fragment_key :: "node_id \<Rightarrow> fragment \<Rightarrow> string" where
  "fragment_key n f = direct_index_key (frag_path f) (frag_sortable_key f) n"

definition index_of_fragments :: "node_id \<Rightarrow> fragment list \<Rightarrow> (string, direct_scalar_index_entry) fmap" where
  "index_of_fragments n fragments = fold (\<lambda>f. fmupd (fragment_key n f) (index_entry n f)) fragments fmempty"

(* src: src/src/engine.rs:2270-2295 direct_scalar_indexes *)
definition direct_scalar_indexes ::
    "node_id \<Rightarrow> (node_id, node_state) fmap \<Rightarrow> fragment_cache \<Rightarrow>
     (string, direct_scalar_index_entry) fmap \<times> fragment_cache" where
  "direct_scalar_indexes n nodes cache =
    (let ((fragments, _), cache1) = storage_collect_scalar_fragments nodes n {||} cache
     in (index_of_fragments n fragments, cache1))"

text \<open>Without the crypto feature no scalar is signed.\<close>
(* src: src/src/engine.rs:2361-2373 auth_node_meta *)
definition auth_node_meta_of :: "node_id \<Rightarrow> node_state \<Rightarrow> auth_node_meta" where
  "auth_node_meta_of n st = \<lparr> signed_fields = fmempty \<rparr>"

text \<open>One turn of the loop over the nodes.\<close>
definition index_node ::
    "(node_id, node_state) fmap \<Rightarrow> node_id \<times> node_state \<Rightarrow> storage_transaction \<times> fragment_cache \<Rightarrow>
     storage_transaction \<times> fragment_cache" where
  "index_node nodes = (\<lambda>(n, st) (t, cache).
    let (direct, cache1) = direct_scalar_indexes n nodes cache;
        t1 = t\<lparr> tx_node_indexes := fmupd n \<lparr> direct_index_keys = sorted_list_of_fset (fmdom direct) \<rparr> (tx_node_indexes t),
                tx_direct_indexes := tx_direct_indexes t ++\<^sub>f direct \<rparr>;
        t2 = (if is_record_node_id n
              then case record_key_from_node_state st of
                     Some key \<Rightarrow>
                       (case record_entry_from_node_state st of
                          Some e \<Rightarrow> t1\<lparr> tx_records := fmupd (re_key e) e (tx_records t1) \<rparr>
                        | None \<Rightarrow> t1\<lparr> tx_deleted_records := finsert key (tx_deleted_records t1) \<rparr>)
                   | None \<Rightarrow> t1
              else t1)
    in (t2\<lparr> tx_auth_meta := fmupd n (auth_node_meta_of n st) (tx_auth_meta t2) \<rparr>, cache1))"

(* src: src/src/engine.rs:1962-2004 build_storage_transaction *)
definition build_storage_transaction ::
    "u64 \<Rightarrow> storage_metadata \<Rightarrow> (node_id, node_state) fmap \<Rightarrow> storage_transaction" where
  "build_storage_transaction i metadata nodes =
    fst (fold (index_node nodes) (sorted_list_of_fmap nodes)
      (\<lparr> tx_id = i, tx_metadata = metadata, tx_nodes = nodes, tx_node_indexes = fmempty,
         tx_direct_indexes = fmempty, tx_records = fmempty, tx_deleted_records = {||},
         tx_auth_meta = fmempty, tx_journal_ops = [] \<rparr>, fmempty))"

(* src: src/src/engine.rs:2006-2020 build_storage_transaction_from_ops *)
definition build_storage_transaction_from_ops ::
    "u64 \<Rightarrow> storage_metadata \<Rightarrow> (node_id, node_state) fmap \<Rightarrow> operation list \<Rightarrow> storage_transaction" where
  "build_storage_transaction_from_ops i metadata nodes ops =
    (build_storage_transaction i metadata
       (fmfilter (\<lambda>n. n |\<in>| touched_storage_nodes nodes ops) nodes))\<lparr> tx_journal_ops := ops \<rparr>"

section \<open>The cache changes nothing\<close>

text \<open>The fragments of a node by plain recursion, without a cache.\<close>
function (sequential) fragments_of :: "(node_id, node_state) fmap \<Rightarrow> node_id \<Rightarrow> node_id fset \<Rightarrow> fragment list"
  and field_fragments :: "(node_id, node_state) fmap \<Rightarrow> (string \<times> field_value) list \<Rightarrow> node_id fset \<Rightarrow> fragment list" where
  "fragments_of nodes n visited =
    (if n |\<in>| visited \<or> node_field_list nodes n = [] then []
     else field_fragments nodes (node_field_list nodes n) (finsert n visited))"
| "field_fragments nodes [] visited = []"
| "field_fragments nodes ((field, FScalar v) # fs) visited = scalar_fragment field v @ field_fragments nodes fs visited"
| "field_fragments nodes ((field, FLink target) # fs) visited =
    map (below_field field) (fragments_of nodes target visited) @ field_fragments nodes fs visited"
| "field_fragments nodes ((field, _) # fs) visited = field_fragments nodes fs visited"
  by pat_completeness auto

termination
  by (relation "measures
      [\<lambda>x. case x of Inl (nodes, n, V) \<Rightarrow> fcard (fmdom nodes |-| V) | Inr (nodes, fs, V) \<Rightarrow> fcard (fmdom nodes |-| V),
       \<lambda>x. case x of Inl _ \<Rightarrow> 0 | Inr (nodes, fs, V) \<Rightarrow> Suc (length fs)]")
    (auto intro: fewer_unvisited)

declare fragments_of.simps [simp del]

definition links :: "(node_id, node_state) fmap \<Rightarrow> (node_id \<times> node_id) set" where
  "links nodes = {(a, b). \<exists>f. (f, FLink b) \<in> set (node_field_list nodes a)}"

definition cycle_free :: "(node_id, node_state) fmap \<Rightarrow> node_id \<Rightarrow> bool" where
  "cycle_free nodes n = (\<forall>x. (n, x) \<in> (links nodes)\<^sup>* \<longrightarrow> (x, x) \<notin> (links nodes)\<^sup>+)"

definition clear_of :: "(node_id, node_state) fmap \<Rightarrow> node_id \<Rightarrow> node_id fset \<Rightarrow> bool" where
  "clear_of nodes n V = (\<forall>x. (n, x) \<in> (links nodes)\<^sup>* \<longrightarrow> x |\<notin>| V)"

definition cache_ok :: "(node_id, node_state) fmap \<Rightarrow> fragment_cache \<Rightarrow> bool" where
  "cache_ok nodes cache = (\<forall>n fr. fmlookup cache n = Some fr \<longrightarrow>
     cycle_free nodes n \<and> (\<forall>V. clear_of nodes n V \<longrightarrow> fragments_of nodes n V = fr))"

lemma clear_of_step:
  assumes "cycle_free nodes n" "clear_of nodes n V" "(n, t) \<in> links nodes"
  shows "cycle_free nodes t" "clear_of nodes t (finsert n V)"
proof -
  from assms(1,3) show "cycle_free nodes t"
    unfolding cycle_free_def by (meson converse_rtrancl_into_rtrancl)
  have "x \<noteq> n" if "(t, x) \<in> (links nodes)\<^sup>*" for x
    using assms(1,3) that unfolding cycle_free_def by (metis rtrancl.rtrancl_refl rtrancl_into_trancl2)
  with assms(2,3) show "clear_of nodes t (finsert n V)"
    unfolding clear_of_def by (metis converse_rtrancl_into_rtrancl finsert_iff)
qed

lemma fragments_independent:
  "cycle_free nodes n \<Longrightarrow> clear_of nodes n V \<Longrightarrow> clear_of nodes n W \<Longrightarrow>
     fragments_of nodes n V = fragments_of nodes n W"
  "(\<And>f t. (f, FLink t) \<in> set fs \<Longrightarrow> cycle_free nodes t \<and> clear_of nodes t V \<and> clear_of nodes t W) \<Longrightarrow>
     field_fragments nodes fs V = field_fragments nodes fs W"
proof (induction nodes n V and nodes fs V arbitrary: W and W rule: fragments_of_field_fragments.induct)
  case (1 nodes n V)
  have no: "n |\<notin>| V" "n |\<notin>| W" using "1.prems" by (auto simp: clear_of_def)
  show ?case
  proof (cases "node_field_list nodes n = []")
    case False
    have "field_fragments nodes (node_field_list nodes n) (finsert n V) =
        field_fragments nodes (node_field_list nodes n) (finsert n W)"
    proof (rule "1.IH")
      fix f t assume "(f, FLink t) \<in> set (node_field_list nodes n)"
      then have "(n, t) \<in> links nodes" by (auto simp: links_def)
      with "1.prems" show "cycle_free nodes t \<and> clear_of nodes t (finsert n V) \<and> clear_of nodes t (finsert n W)"
        by (blast intro: clear_of_step)
    qed (use False no in auto)
    with no False show ?thesis by (simp add: fragments_of.simps)
  qed (simp add: fragments_of.simps)
next
  case (4 nodes field target fs V)
  have "fragments_of nodes target V = fragments_of nodes target W" using "4.prems" by (intro "4.IH"(1)) auto
  moreover have "field_fragments nodes fs V = field_fragments nodes fs W" using "4.prems" by (intro "4.IH"(2)) auto
  ultimately show ?case by simp
qed (simp_all; blast)+

text \<open>Every node of the active path leads to \<open>n\<close>.\<close>
definition leads_to :: "(node_id, node_state) fmap \<Rightarrow> node_id fset \<Rightarrow> node_id \<Rightarrow> bool" where
  "leads_to nodes V n = (\<forall>v. v |\<in>| V \<longrightarrow> (v, n) \<in> (links nodes)\<^sup>+)"

lemma leads_to_link: "leads_to nodes V n \<Longrightarrow> (n, t) \<in> links nodes \<Longrightarrow> leads_to nodes (finsert n V) t"
  unfolding leads_to_def by (metis finsert_iff r_into_trancl trancl_into_trancl)

lemma cycle_free_clear: "cycle_free nodes n \<Longrightarrow> leads_to nodes V n \<Longrightarrow> clear_of nodes n V"
  unfolding cycle_free_def clear_of_def leads_to_def by (metis rtrancl.rtrancl_refl rtrancl_trancl_trancl)

lemma cycle_free_from_targets:
  assumes "\<And>t. (n, t) \<in> links nodes \<Longrightarrow> cycle_free nodes t \<and> clear_of nodes t (finsert n V)" "n |\<notin>| V"
  shows "cycle_free nodes n" "clear_of nodes n V"
proof -
  have below: "\<exists>t. (n, t) \<in> links nodes \<and> (t, x) \<in> (links nodes)\<^sup>*" if "(n, x) \<in> (links nodes)\<^sup>+" for x
    using that by (metis tranclD)
  have "(n, n) \<notin> (links nodes)\<^sup>+" using below assms(1) unfolding clear_of_def by blast
  then show "cycle_free nodes n"
    using below assms(1) unfolding cycle_free_def by (metis rtrancl_eq_or_trancl)
  show "clear_of nodes n V"
    using below assms unfolding clear_of_def by (metis finsert_iff rtrancl_eq_or_trancl)
qed

lemma cache_ok_insert:
  assumes "cache_ok nodes cache" "cycle_free nodes n" "clear_of nodes n V"
  shows "cache_ok nodes (fmupd n (fragments_of nodes n V) cache)"
  using assms fragments_independent(1) unfolding cache_ok_def by (metis fmupd_lookup option.inject)

lemma collect_correct:
  "cache_ok nodes cache \<Longrightarrow> leads_to nodes V n \<Longrightarrow>
     storage_collect_scalar_fragments nodes n V cache = ((fr, cyc), cache') \<Longrightarrow>
     fr = fragments_of nodes n V \<and> cache_ok nodes cache' \<and> (\<not> cyc \<longrightarrow> cycle_free nodes n \<and> clear_of nodes n V)"
  "cache_ok nodes cache \<Longrightarrow> (\<And>f t. (f, FLink t) \<in> set fs \<Longrightarrow> leads_to nodes V t) \<Longrightarrow>
     collect_fields nodes fs V cache = ((fr, cyc), cache') \<Longrightarrow>
     fr = field_fragments nodes fs V \<and> cache_ok nodes cache' \<and>
     (\<not> cyc \<longrightarrow> (\<forall>f t. (f, FLink t) \<in> set fs \<longrightarrow> cycle_free nodes t \<and> clear_of nodes t V))"
proof (induction nodes n V cache and nodes fs V cache arbitrary: fr cyc cache' and fr cyc cache'
    rule: storage_collect_scalar_fragments_collect_fields.induct)
  case (1 nodes n V cache)
  consider (cached) fs where "fmlookup cache n = Some fs"
    | (cycle) "fmlookup cache n = None" "n |\<in>| V"
    | (leaf) "fmlookup cache n = None" "n |\<notin>| V" "node_field_list nodes n = []"
    | (node) "fmlookup cache n = None" "n |\<notin>| V" "node_field_list nodes n \<noteq> []" by fastforce
  then show ?case
  proof cases
    case cached
    have "fr = fs" "\<not> cyc" "cache' = cache"
      using "1.prems"(3) unfolding storage_collect_scalar_fragments.simps [of nodes n] by (simp_all add: cached)
    moreover have "cycle_free nodes n" "\<And>W. clear_of nodes n W \<Longrightarrow> fragments_of nodes n W = fs"
      using "1.prems"(1) cached unfolding cache_ok_def by blast+
    ultimately show ?thesis using cycle_free_clear [OF _ "1.prems"(2)] "1.prems"(1) by simp
  next
    case cycle
    have "fr = []" "cyc" "cache' = cache"
      using "1.prems"(3) unfolding storage_collect_scalar_fragments.simps [of nodes n] by (simp_all add: cycle)
    with cycle "1.prems"(1) show ?thesis by (simp add: fragments_of.simps)
  next
    case leaf
    then have "\<And>t. (n, t) \<notin> links nodes" by (auto simp: links_def)
    with cycle_free_from_targets leaf(2) have free: "cycle_free nodes n" "clear_of nodes n V" by blast+
    from leaf have "fragments_of nodes n V = []" by (simp add: fragments_of.simps)
    moreover have "fr = []" "\<not> cyc" "cache' = fmupd n [] cache"
      using "1.prems"(3) unfolding storage_collect_scalar_fragments.simps [of nodes n] by (simp_all add: leaf)
    ultimately show ?thesis using cache_ok_insert [OF "1.prems"(1) free] free by simp
  next
    case node
    let ?fs = "node_field_list nodes n"
    obtain fr1 cyc1 cache1 where c: "collect_fields nodes ?fs (finsert n V) cache = ((fr1, cyc1), cache1)"
      by (metis surj_pair)
    have links: "(f, FLink t) \<in> set ?fs \<Longrightarrow> (n, t) \<in> links nodes" for f t by (auto simp: links_def)
    have IH: "fr1 = field_fragments nodes ?fs (finsert n V) \<and> cache_ok nodes cache1 \<and>
        (\<not> cyc1 \<longrightarrow> (\<forall>f t. (f, FLink t) \<in> set ?fs \<longrightarrow> cycle_free nodes t \<and> clear_of nodes t (finsert n V)))"
      by (rule "1.IH" [OF node(1,2,3) "1.prems"(1) _ c]) (blast intro: leads_to_link [OF "1.prems"(2)] links)
    have fr: "fragments_of nodes n V = fr1" using IH node by (simp add: fragments_of.simps)
    have free: "cycle_free nodes n \<and> clear_of nodes n V" if "\<not> cyc1"
      using IH that cycle_free_from_targets [OF _ node(2)] by (auto simp: links_def)
    have "fr = fr1" "cyc = cyc1" "cache' = (if cyc1 then cache1 else fmupd n fr1 cache1)"
      using "1.prems"(3) unfolding storage_collect_scalar_fragments.simps [of nodes n] by (auto simp: node c)
    with free IH fr cache_ok_insert [of nodes cache1 n V] show ?thesis by (cases cyc1) auto
  qed
next
  case (3 nodes field v fs V cache)
  obtain rest cyc2 cache2 where c2: "collect_fields nodes fs V cache = ((rest, cyc2), cache2)"
    by (metis surj_pair)
  have "rest = field_fragments nodes fs V \<and> cache_ok nodes cache2 \<and>
      (\<not> cyc2 \<longrightarrow> (\<forall>f t. (f, FLink t) \<in> set fs \<longrightarrow> cycle_free nodes t \<and> clear_of nodes t V))"
    by (rule "3.IH" [OF "3.prems"(1) _ c2]) (use "3.prems"(2) in \<open>auto 0 3\<close>)
  with "3.prems"(3) c2 show ?case by simp
next
  case (4 nodes field target fs V cache)
  obtain child cyc1 cache1 where c1: "storage_collect_scalar_fragments nodes target V cache = ((child, cyc1), cache1)"
    by (metis surj_pair)
  obtain rest cyc2 cache2 where c2: "collect_fields nodes fs V cache1 = ((rest, cyc2), cache2)"
    by (metis surj_pair)
  have 1: "child = fragments_of nodes target V \<and> cache_ok nodes cache1 \<and>
      (\<not> cyc1 \<longrightarrow> cycle_free nodes target \<and> clear_of nodes target V)"
    by (rule "4.IH"(1) [OF "4.prems"(1) _ c1]) (rule "4.prems"(2) [of field], simp)
  have 2: "rest = field_fragments nodes fs V \<and> cache_ok nodes cache2 \<and>
      (\<not> cyc2 \<longrightarrow> (\<forall>f t. (f, FLink t) \<in> set fs \<longrightarrow> cycle_free nodes t \<and> clear_of nodes t V))"
    by (rule "4.IH"(2) [OF c1 [symmetric] refl refl _ _ c2]) (use 1 in simp, use "4.prems"(2) in force)
  from "4.prems"(3) c1 c2 have "fr = map (below_field field) child @ rest" "cyc = (cyc1 \<or> cyc2)" "cache' = cache2"
    by simp_all
  with 1 2 show ?case by auto
qed (simp_all; blast)+

lemma direct_scalar_indexes_exact:
  assumes "cache_ok nodes cache"
  shows "fst (direct_scalar_indexes n nodes cache) = index_of_fragments n (fragments_of nodes n {||})"
    and "cache_ok nodes (snd (direct_scalar_indexes n nodes cache))"
proof -
  obtain fr cyc cache' where c: "storage_collect_scalar_fragments nodes n {||} cache = ((fr, cyc), cache')"
    by (metis surj_pair)
  have "fr = fragments_of nodes n {||} \<and> cache_ok nodes cache'"
    using collect_correct(1) [OF assms _ c] by (simp add: leads_to_def)
  then show "fst (direct_scalar_indexes n nodes cache) = index_of_fragments n (fragments_of nodes n {||})"
    and "cache_ok nodes (snd (direct_scalar_indexes n nodes cache))"
    by (simp_all add: direct_scalar_indexes_def c)
qed

definition index_keys :: "(node_id, node_state) fmap \<Rightarrow> node_id \<Rightarrow> string list" where
  "index_keys nodes n = sorted_list_of_fset (fmdom (index_of_fragments n (fragments_of nodes n {||})))"

lemma fmdom_index_of_fragments: "fset (fmdom (index_of_fragments n frs)) = fragment_key n ` set frs"
proof -
  have "fset (fmdom (fold (\<lambda>f. fmupd (fragment_key n f) (index_entry n f)) frs m)) = fragment_key n ` set frs \<union> fset (fmdom m)" for m
    by (induction frs arbitrary: m) auto
  then show ?thesis by (simp add: index_of_fragments_def)
qed

lemma index_node_effect:
  assumes "cache_ok nodes cache" "index_node nodes (n, st) (t, cache) = (t', cache')"
  shows "cache_ok nodes cache'"
    and "tx_node_indexes t' = fmupd n \<lparr> direct_index_keys = index_keys nodes n \<rparr> (tx_node_indexes t)"
    and "tx_direct_indexes t' = tx_direct_indexes t ++\<^sub>f index_of_fragments n (fragments_of nodes n {||})"
    and "tx_nodes t' = tx_nodes t" "tx_id t' = tx_id t" "tx_metadata t' = tx_metadata t"
  using assms direct_scalar_indexes_exact [OF assms(1), of n]
  by (auto simp: index_node_def index_keys_def Let_def split: prod.splits option.splits if_splits)

lemma index_nodes_effect:
  assumes "cache_ok nodes cache" "fold (index_node nodes) ns (t, cache) = (t', cache')" "distinct (map fst ns)"
  shows "fmlookup (tx_node_indexes t') n =
    (if n \<in> fst ` set ns then Some \<lparr> direct_index_keys = index_keys nodes n \<rparr> else fmlookup (tx_node_indexes t) n) \<and>
    tx_nodes t' = tx_nodes t"
  using assms
proof (induction ns arbitrary: t cache)
  case (Cons a ns)
  obtain m st where a: "a = (m, st)" by fastforce
  obtain t1 cache1 where s1: "index_node nodes (m, st) (t, cache) = (t1, cache1)" by fastforce
  note e = index_node_effect [OF Cons.prems(1) s1]
  show ?case using Cons.IH [OF e(1), of t1] Cons.prems(2,3) s1 e by (auto simp: a)
qed simp

text \<open>
  C21: Sharing work between nodes does not change the index.  The cache of finished fragments, which
  is filled while one node is indexed and used for all others, never changes what is
  indexed: whatever links and cycles there are, the manifest a storage transaction writes for a
  node lists exactly the keys of the scalars found by following its links without any
  cache.
\<close>
theorem cached_index_is_exact:
  assumes "n |\<in>| fmdom nodes"
  shows "map_option (\<lambda>m. set (direct_index_keys m)) (fmlookup (tx_node_indexes (build_storage_transaction i metadata nodes)) n) =
    Some (fragment_key n ` set (fragments_of nodes n {||}))"
proof -
  obtain t' cache' where t: "fold (index_node nodes) (sorted_list_of_fmap nodes)
      (\<lparr> tx_id = i, tx_metadata = metadata, tx_nodes = nodes, tx_node_indexes = fmempty,
         tx_direct_indexes = fmempty, tx_records = fmempty, tx_deleted_records = {||},
         tx_auth_meta = fmempty, tx_journal_ops = [] \<rparr>, fmempty) = (t', cache')" by fastforce
  have "cache_ok nodes fmempty" by (simp add: cache_ok_def)
  from index_nodes_effect [OF this t, of n] assms show ?thesis
    by (simp add: build_storage_transaction_def t fmdom_index_of_fragments index_keys_def
        flip: set_map [of fst])
qed

text \<open>A node that links to two children, one of which links back.\<close>
definition demo_marker :: version_marker where
  "demo_marker = VersionMarker (Revision 1 0 ''r'') ''o''"

definition demo_node :: "node_id \<Rightarrow> (string \<times> field_value) list \<Rightarrow> node_id \<times> node_state" where
  "demo_node n fs =
    (n, \<lparr> nst_id = n, nst_fields = fmap_of_list (map (\<lambda>(f, v). (f, \<lparr> fld_value = v, fld_version = demo_marker \<rparr>)) fs),
          nst_tombstones = fmempty \<rparr>)"

definition demo_tree :: "(node_id, node_state) fmap" where
  "demo_tree = fmap_of_list
    [demo_node ''a'' [(''x'', FLink ''a/x''), (''y'', FLink ''a/y'')],
     demo_node ''a/x'' [(''v'', FScalar (JBool True))],
     demo_node ''a/y'' [(''up'', FLink ''a''), (''w'', FScalar JNull)]]"

theorem cached_index_is_exact_witness:
  "map_option (\<lambda>m. set (direct_index_keys m)) (fmlookup (tx_node_indexes (build_storage_transaction 1 (storage_metadata_new (with_actor 7 ''r'') [] 2) demo_tree)) ''a'') =
    Some (fragment_key ''a'' ` set (fragments_of demo_tree ''a'' {||}))"
  by (rule cached_index_is_exact) (simp add: demo_tree_def demo_node_def fmlookup_dom_iff fmlookup_of_list)


end
