(* ===== verification/Segment.thy ===== *)
theory Segment
  imports StorageTx DbCore
begin

text \<open>
  The segment file store (\<open>src/src/engine.rs\<close>, \<open>SegmentFileStore\<close>): a directory of node, auth, index
  and record files, a manifest, a journal of commits and a checkpoint.  The state is the
  directory: a map from file names to file contents.  A file name is a constructor applied to
  what the path is built from; a file that does not parse is \<open>Garbage\<close>.

  An operation is a list of steps, each of which changes the directory at once: a file written
  through a temporary file and a rename, a file removed, or a journal file renamed.  A crash is the
  end of the process between two steps, so the directory it leaves is the result of a
  prefix of the steps.  Directories, temporary files and file system errors are not modelled.
\<close>

section \<open>Data\<close>

(* src: src/src/durable.rs:5-10 SegmentDurability *)
datatype segment_durability = Full | Data | Relaxed

(* src: src/src/engine.rs:357-361 SegmentCommitPayload *)
record segment_commit_payload =
  cp_schema_version :: u32
  cp_transaction :: storage_transaction
  cp_direct_index_removals :: "string list"

(* src: src/src/engine.rs:365-368 SegmentCommitRecord *)
record segment_commit_record =
  cr_payload :: segment_commit_payload
  cr_checksum :: string

(* src: src/src/engine.rs:372-377 SegmentCheckpointRecord *)
record segment_checkpoint_record =
  kr_schema_version :: u32
  kr_checkpoint_tx_id :: u64
  kr_payload :: segment_commit_payload
  kr_checksum :: string

type_synonym direct_index_bucket = "(string, direct_scalar_index_entry) fmap"

(* src: src/src/engine.rs:237-243 StorageRecoveryReport *)
record storage_recovery_report =
  rr_applied_transactions :: usize
  rr_skipped_transactions :: usize
  rr_removed_pending_files :: usize
  rr_quarantined_files :: usize

text \<open>The digests of the contents, \<open>blake3\<close> over the serialised form, are parameters.\<close>
record digests =
  blake3_name :: "string \<Rightarrow> string"
  commit_digest :: "segment_commit_payload \<Rightarrow> string"
  checkpoint_digest :: "u32 \<times> u64 \<times> segment_commit_payload \<Rightarrow> string"

section \<open>Files\<close>

datatype fpath =
    PNode node_id
  | PAuth node_id
  | PNodeIndex node_id
  | PDirect "string list"
  | PRecord "string list"
  | PManifest
  | PCheckpoint
  | PJournal u64 bool

datatype content =
    NodeFile node_state
  | AuthFile auth_node_meta
  | IndexFile node_index_manifest
  | BucketFile direct_index_bucket
  | RecordFile record_entry
  | ManifestFile storage_metadata
  | CheckpointFile segment_checkpoint_record
  | JournalFile segment_commit_record
  | Garbage

type_synonym fs = "(fpath, content) fmap"

text \<open>What one step does to the directory: files written or removed at once.\<close>
type_synonym step = "(fpath \<times> content option) list"

definition run :: "step list \<Rightarrow> fs \<Rightarrow> fs" where
  "run steps fs = fold (\<lambda>(k, v). put_entry k v) (concat steps) fs"

definition write_file :: "fpath \<Rightarrow> content \<Rightarrow> step" where
  "write_file p c = [(p, Some c)]"

definition remove_file :: "fpath \<Rightarrow> step" where
  "remove_file p = [(p, None)]"

text \<open>\<open>replace_file\<close>: the file appears under its new name and is gone from the old one.\<close>
definition rename_file :: "fs \<Rightarrow> fpath \<Rightarrow> fpath \<Rightarrow> step" where
  "rename_file fs from to = [(from, None), (to, fmlookup fs from)]"

(* src: src/src/engine.rs:2134-2142 safe_direct_index_component *)
definition safe_direct_index_component :: "digests \<Rightarrow> string \<Rightarrow> string" where
  "safe_direct_index_component d component =
    (if length component \<le> 120 then ''v_'' @ component else ''h_'' @ blake3_name d component)"

text \<open>\<open>PathBuf::set_extension\<close> on a component that does not begin with a dot.\<close>
definition with_json_extension :: "string \<Rightarrow> string" where
  "with_json_extension s =
    (case dropWhile (\<lambda>c. c \<noteq> CHR ''.'') (rev s) of [] \<Rightarrow> s | _ # stem \<Rightarrow> rev stem) @ ''.json''"

(* src: src/src/engine.rs:569-589 SegmentFileStore::direct_index_path *)
definition direct_index_path :: "digests \<Rightarrow> string \<Rightarrow> string list" where
  "direct_index_path d key =
    (case direct_index_key_parts key of
       Some (path, sortable_key, n) \<Rightarrow>
         [''direct'', safe_direct_index_component d path, safe_direct_index_component d sortable_key,
          safe_direct_index_component d n @ ''.json'']
     | None \<Rightarrow>
         (let segments = map (safe_direct_index_component d) (split_on CHR ''/'' key)
          in butlast segments @ [with_json_extension (last segments)]))"

(* src: src/src/engine.rs:599-618 SegmentFileStore::record_entry_path *)
definition record_entry_path :: "digests \<Rightarrow> string \<Rightarrow> string list" where
  "record_entry_path d key =
    (let encoded = encode_component key
     in if encoded = [] then [''_empty'']
        else chunks 64 (take 512 encoded) @
          (if length encoded > 512 then [''_overflow'', blake3_name d key] else []))"

section \<open>Commits\<close>

(* src: src/src/engine.rs:1569-1575 SegmentFileStore::load_node_index_manifest *)
definition load_node_index_manifest :: "fs \<Rightarrow> node_id \<Rightarrow> node_index_manifest primadb_result" where
  "load_node_index_manifest fs n =
    (case fmlookup fs (PNodeIndex n) of
       None \<Rightarrow> Inr \<lparr> direct_index_keys = [] \<rparr>
     | Some (IndexFile m) \<Rightarrow> Inr m
     | Some _ \<Rightarrow> Inl (Serde ''node index manifest''))"

fun collect_removals ::
    "fs \<Rightarrow> (node_id \<times> node_index_manifest) list \<Rightarrow> string list primadb_result" where
  "collect_removals fs [] = Inr []"
| "collect_removals fs ((n, manifest) # rest) =
    (case load_node_index_manifest fs n of
       Inl e \<Rightarrow> Inl e
     | Inr previous \<Rightarrow>
         (case collect_removals fs rest of
            Inl e \<Rightarrow> Inl e
          | Inr removals \<Rightarrow>
              Inr (filter (\<lambda>key. key \<notin> set (direct_index_keys manifest)) (direct_index_keys previous) @ removals)))"

(* src: src/src/engine.rs:1157-1179 SegmentFileStore::build_commit_payload *)
definition build_commit_payload :: "fs \<Rightarrow> storage_transaction \<Rightarrow> segment_commit_payload primadb_result" where
  "build_commit_payload fs transaction =
    (case collect_removals fs (sorted_list_of_fmap (tx_node_indexes transaction)) of
       Inl e \<Rightarrow> Inl e
     | Inr removals \<Rightarrow>
         Inr \<lparr> cp_schema_version = 1, cp_transaction = transaction,
               cp_direct_index_removals = remdups_adj (sort removals) \<rparr>)"

(* src: src/src/engine.rs:1181-1187 SegmentFileStore::commit_record_for_payload *)
definition commit_record_for_payload :: "digests \<Rightarrow> segment_commit_payload \<Rightarrow> segment_commit_record" where
  "commit_record_for_payload d payload = \<lparr> cr_payload = payload, cr_checksum = commit_digest d payload \<rparr>"

(* src: src/src/engine.rs:1189-1205 SegmentFileStore::validate_commit_record *)
definition validate_commit_record :: "digests \<Rightarrow> segment_commit_record \<Rightarrow> segment_commit_payload primadb_result" where
  "validate_commit_record d r =
    (if cp_schema_version (cr_payload r) \<noteq> 1
     then Inl (Message (''segment commit schema version '' @ decimal (unat (cp_schema_version (cr_payload r))) @ '' is unsupported''))
     else if commit_digest d (cr_payload r) \<noteq> cr_checksum r then Inl (Message ''segment commit checksum mismatch'')
     else Inr (cr_payload r))"

(* src: src/src/engine.rs:1207-1219 SegmentFileStore::checkpoint_record_for_payload *)
definition checkpoint_record_for_payload ::
    "digests \<Rightarrow> segment_commit_payload \<Rightarrow> u64 \<Rightarrow> segment_checkpoint_record" where
  "checkpoint_record_for_payload d payload i =
    \<lparr> kr_schema_version = 1, kr_checkpoint_tx_id = i, kr_payload = payload,
      kr_checksum = checkpoint_digest d (1, i, payload) \<rparr>"

(* src: src/src/engine.rs:1221-1242 SegmentFileStore::validate_checkpoint_record *)
definition validate_checkpoint_record ::
    "digests \<Rightarrow> segment_checkpoint_record \<Rightarrow> (u64 \<times> segment_commit_payload) primadb_result" where
  "validate_checkpoint_record d r =
    (if kr_schema_version r \<noteq> 1
     then Inl (Message (''segment checkpoint schema version '' @ decimal (unat (kr_schema_version r)) @ '' is unsupported''))
     else if checkpoint_digest d (kr_schema_version r, kr_checkpoint_tx_id r, kr_payload r) \<noteq> kr_checksum r
     then Inl (Message ''segment checkpoint checksum mismatch'')
     else Inr (kr_checkpoint_tx_id r, kr_payload r))"

(* src: src/src/engine.rs:1244-1247 SegmentFileStore::read_commit_record *)
definition read_commit_record :: "digests \<Rightarrow> content \<Rightarrow> segment_commit_payload primadb_result" where
  "read_commit_record d c =
    (case c of JournalFile r \<Rightarrow> validate_commit_record d r | _ \<Rightarrow> Inl (Serde ''commit record''))"

(* src: src/src/engine.rs:1249-1253 SegmentFileStore::read_checkpoint *)
definition read_checkpoint :: "digests \<Rightarrow> content \<Rightarrow> (u64 \<times> segment_commit_payload) primadb_result" where
  "read_checkpoint d c =
    (case c of CheckpointFile r \<Rightarrow> validate_checkpoint_record d r | _ \<Rightarrow> Inl (Serde ''checkpoint''))"

section \<open>Materialising a commit\<close>

(* src: src/src/engine.rs:650-655 SegmentFileStore::read_direct_index_bucket_path *)
definition read_direct_index_bucket_path :: "fs \<Rightarrow> string list \<Rightarrow> direct_index_bucket primadb_result" where
  "read_direct_index_bucket_path fs path =
    (case fmlookup fs (PDirect path) of
       None \<Rightarrow> Inr fmempty
     | Some (BucketFile b) \<Rightarrow> Inr b
     | Some _ \<Rightarrow> Inl (Serde ''direct index bucket''))"

text \<open>The buckets read so far, each with whether it was changed.\<close>
type_synonym open_buckets = "(string list, direct_index_bucket \<times> bool) fmap"

definition open_bucket :: "fs \<Rightarrow> string list \<Rightarrow> open_buckets \<Rightarrow> (direct_index_bucket \<times> bool) primadb_result" where
  "open_bucket fs path buckets =
    (case fmlookup buckets path of
       Some b \<Rightarrow> Inr b
     | None \<Rightarrow>
         (case read_direct_index_bucket_path fs path of Inl e \<Rightarrow> Inl e | Inr b \<Rightarrow> Inr (b, False)))"

definition remove_index_key :: "digests \<Rightarrow> fs \<Rightarrow> string \<Rightarrow> open_buckets \<Rightarrow> open_buckets primadb_result" where
  "remove_index_key d fs key buckets =
    (case open_bucket fs (direct_index_path d key) buckets of
       Inl e \<Rightarrow> Inl e
     | Inr (b, changed) \<Rightarrow>
         Inr (fmupd (direct_index_path d key)
           (fmdrop key b, changed \<or> fmlookup b key \<noteq> None) buckets))"

text \<open>The derived equality of index entries compares numbers as floating point numbers.\<close>
definition index_entry_eq :: "direct_scalar_index_entry \<Rightarrow> direct_scalar_index_entry \<Rightarrow> bool" where
  "index_entry_eq a b =
    (ie_node_id a = ie_node_id b \<and> ie_path a = ie_path b \<and> json_eq (ie_value a) (ie_value b) \<and>
     ie_sortable_key a = ie_sortable_key b)"

definition insert_index_key ::
    "digests \<Rightarrow> fs \<Rightarrow> string \<Rightarrow> direct_scalar_index_entry \<Rightarrow> open_buckets \<Rightarrow> open_buckets primadb_result" where
  "insert_index_key d fs key entry buckets =
    (case open_bucket fs (direct_index_path d key) buckets of
       Inl e \<Rightarrow> Inl e
     | Inr (b, changed) \<Rightarrow>
         Inr (fmupd (direct_index_path d key)
           (case fmlookup b key of
              Some old \<Rightarrow> (if index_entry_eq old entry then (b, changed) else (fmupd key entry b, True))
            | None \<Rightarrow> (fmupd key entry b, True)) buckets))"

fun fold_result :: "('x \<Rightarrow> 's \<Rightarrow> 'e + 's) \<Rightarrow> 'x list \<Rightarrow> 's \<Rightarrow> 'e + 's" where
  "fold_result f [] s = Inr s"
| "fold_result f (x # xs) s = (case f x s of Inl e \<Rightarrow> Inl e | Inr t \<Rightarrow> fold_result f xs t)"

text \<open>The keys the manifests of a transaction list, with their entries where it has them.\<close>
definition listed_entries :: "storage_transaction \<Rightarrow> (string \<times> direct_scalar_index_entry) list" where
  "listed_entries t =
    List.map_filter (\<lambda>key. map_option (\<lambda>e. (key, e)) (fmlookup (tx_direct_indexes t) key))
      (concat (map (\<lambda>(n, m). direct_index_keys m) (sorted_list_of_fmap (tx_node_indexes t))))"

definition bucket_step :: "fs \<Rightarrow> string list \<times> direct_index_bucket \<times> bool \<Rightarrow> step list" where
  "bucket_step fs = (\<lambda>(path, b, changed).
    if \<not> changed then []
    else if fmdom b = {||}
    then (if fmlookup fs (PDirect path) \<noteq> None then [remove_file (PDirect path)] else [])
    else [write_file (PDirect path) (BucketFile b)])"

(* src: src/src/engine.rs:1356-1416 SegmentFileStore::materialize_direct_index_changes *)
definition materialize_direct_index_changes ::
    "digests \<Rightarrow> fs \<Rightarrow> segment_commit_payload \<Rightarrow> step list primadb_result" where
  "materialize_direct_index_changes d fs payload =
    (case fold_result (remove_index_key d fs) (cp_direct_index_removals payload) fmempty of
       Inl e \<Rightarrow> Inl e
     | Inr opened \<Rightarrow>
         (case fold_result (\<lambda>(key, entry). insert_index_key d fs key entry) (listed_entries (cp_transaction payload)) opened of
            Inl e \<Rightarrow> Inl e
          | Inr buckets \<Rightarrow> Inr (concat (map (bucket_step fs) (sorted_list_of_fmap buckets)))))"

definition node_steps :: "storage_transaction \<Rightarrow> step list" where
  "node_steps t =
    map (\<lambda>(n, st). write_file (PNode n) (NodeFile st)) (sorted_list_of_fmap (tx_nodes t)) @
    map (\<lambda>(n, m). write_file (PAuth n) (AuthFile m)) (sorted_list_of_fmap (tx_auth_meta t))"

definition record_steps :: "digests \<Rightarrow> storage_transaction \<Rightarrow> step list" where
  "record_steps d t =
    map (\<lambda>(n, m). write_file (PNodeIndex n) (IndexFile m)) (sorted_list_of_fmap (tx_node_indexes t)) @
    map (\<lambda>key. remove_file (PRecord (record_entry_path d key))) (sorted_list_of_fset (tx_deleted_records t)) @
    map (\<lambda>(_, e). write_file (PRecord (record_entry_path d (re_key e))) (RecordFile e)) (sorted_list_of_fmap (tx_records t)) @
    [write_file PManifest (ManifestFile (tx_metadata t))]"

text \<open>The steps of materialising a commit, and the error that ends them early.\<close>
(* src: src/src/engine.rs:1300-1354 SegmentFileStore::materialize_commit_payload_with_mode *)
definition materialize_steps ::
    "digests \<Rightarrow> fs \<Rightarrow> segment_commit_payload \<Rightarrow> step list \<times> primadb_error option" where
  "materialize_steps d fs payload =
    (case materialize_direct_index_changes d fs payload of
       Inl e \<Rightarrow> (node_steps (cp_transaction payload), Some e)
     | Inr buckets \<Rightarrow>
         (node_steps (cp_transaction payload) @ buckets @ record_steps d (cp_transaction payload), None))"

definition materialize_commit_payload :: "digests \<Rightarrow> segment_commit_payload \<Rightarrow> (fs, primadb_error, unit) fallible" where
  "materialize_commit_payload d payload fs =
    (case materialize_steps d fs payload of
       (steps, Some e) \<Rightarrow> (Inl e, run steps fs)
     | (steps, None) \<Rightarrow> (Inr (), run steps fs))"

section \<open>The journal\<close>

text \<open>The journal files in the order of their transactions, the final one before a pending one.\<close>
fun journal_key :: "fpath \<Rightarrow> (u64 \<times> bool) option" where
  "journal_key (PJournal i pending) = Some (i, pending)"
| "journal_key _ = None"

definition journal_keys :: "fs \<Rightarrow> (u64 \<times> bool) list" where
  "journal_keys fs =
    sorted_list_of_fset ((\<lambda>p. the (journal_key p)) |`| ffilter (\<lambda>p. journal_key p \<noteq> None) (fmdom fs))"

(* src: src/src/engine.rs:1587-1609 SegmentFileStore::prune_journal_with_report *)
definition prune_journal_with_report :: "usize \<Rightarrow> fs \<Rightarrow> step list" where
  "prune_journal_with_report journal_retention fs =
    (let entries = filter (\<lambda>(i, pending). \<not> pending) (journal_keys fs)
     in map (\<lambda>(i, pending). remove_file (PJournal i pending)) (take (length entries - journal_retention) entries))"

(* src: src/src/engine.rs:1577-1585 SegmentFileStore::prune_journal *)
definition prune_journal :: "segment_durability \<Rightarrow> usize \<Rightarrow> fs \<Rightarrow> step list" where
  "prune_journal durability journal_retention fs =
    (if durability = Full then [] else prune_journal_with_report journal_retention fs)"

(* src: src/src/engine.rs:1611-1630 SegmentFileStore::prune_journal_through *)
definition prune_journal_through :: "u64 \<Rightarrow> fs \<Rightarrow> step list" where
  "prune_journal_through checkpoint_tx_id fs =
    map (\<lambda>(i, pending). remove_file (PJournal i pending)) (filter (\<lambda>(i, _). i \<le> checkpoint_tx_id) (journal_keys fs))"

text \<open>The steps of a commit: the journal file, the files it changes, the rename that marks it done.\<close>
(* src: src/src/engine.rs:1720-1733 SegmentFileStore::apply_transaction *)
definition apply_steps ::
    "digests \<Rightarrow> segment_durability \<Rightarrow> usize \<Rightarrow> storage_transaction \<Rightarrow> fs \<Rightarrow> step list \<times> primadb_error option" where
  "apply_steps d durability journal_retention transaction fs =
    (case build_commit_payload fs transaction of
       Inl e \<Rightarrow> ([], Some e)
     | Inr payload \<Rightarrow>
         let i = tx_id transaction;
             pending = write_file (PJournal i True) (JournalFile (commit_record_for_payload d payload));
             (steps, failed) = materialize_steps d (run [pending] fs) payload;
             finalize = rename_file (run (pending # steps) fs) (PJournal i True) (PJournal i False);
             done = pending # steps @ [finalize]
         in case failed of
              Some e \<Rightarrow> (pending # steps, Some e)
            | None \<Rightarrow> (done @ prune_journal durability journal_retention (run done fs), None))"

definition apply_transaction ::
    "digests \<Rightarrow> segment_durability \<Rightarrow> usize \<Rightarrow> storage_transaction \<Rightarrow> (fs, primadb_error, unit) fallible" where
  "apply_transaction d durability journal_retention transaction fs =
    (case apply_steps d durability journal_retention transaction fs of
       (steps, Some e) \<Rightarrow> (Inl e, run steps fs)
     | (steps, None) \<Rightarrow> (Inr (), run steps fs))"

section \<open>Recovery\<close>

definition report_zero :: storage_recovery_report where
  "report_zero = \<lparr> rr_applied_transactions = 0, rr_skipped_transactions = 0,
     rr_removed_pending_files = 0, rr_quarantined_files = 0 \<rparr>"

text \<open>A quarantined file is renamed to a name that is not read again.\<close>
definition quarantine :: "fpath \<Rightarrow> storage_recovery_report \<Rightarrow> (fs, primadb_error, storage_recovery_report) fallible" where
  "quarantine p report =
    bindS (modifyS (fmdrop p)) (\<lambda>_. okS (report\<lparr> rr_quarantined_files := rr_quarantined_files report + 1 \<rparr>))"

(* src: src/src/engine.rs:1473-1489 SegmentFileStore::recover (checkpoint) *)
definition recover_checkpoint :: "digests \<Rightarrow> (fs, primadb_error, u64 \<times> storage_recovery_report) fallible" where
  "recover_checkpoint d =
    bindS (readS (\<lambda>fs. fmlookup fs PCheckpoint)) (\<lambda>file.
      case file of
        None \<Rightarrow> okS (0, report_zero)
      | Some c \<Rightarrow>
          (case read_checkpoint d c of
             Inr (i, payload) \<Rightarrow> bindS (materialize_commit_payload d payload) (\<lambda>_. okS (i, report_zero))
           | Inl _ \<Rightarrow> bindS (quarantine PCheckpoint report_zero) (\<lambda>report. okS (0, report))))"

definition settle_pending :: "u64 \<Rightarrow> bool \<Rightarrow> u64 \<Rightarrow> fs \<Rightarrow> fs" where
  "settle_pending i pending tx fs =
    (if \<not> pending then fs
     else if fmlookup fs (PJournal tx False) \<noteq> None then fmdrop (PJournal i pending) fs
     else run [rename_file fs (PJournal i pending) (PJournal tx False)] fs)"

(* src: src/src/engine.rs:1511-1548 SegmentFileStore::recover (journal) *)
definition recover_journal_file ::
    "digests \<Rightarrow> u64 \<times> bool \<Rightarrow> u64 \<times> storage_recovery_report \<Rightarrow> (fs, primadb_error, u64 \<times> storage_recovery_report) fallible" where
  "recover_journal_file d = (\<lambda>(i, pending) (materialized_last, report).
    bindS (readS (\<lambda>fs. fmlookup fs (PJournal i pending))) (\<lambda>file.
      case (case file of None \<Rightarrow> Inl (Io ''journal file'') | Some c \<Rightarrow> read_commit_record d c) of
        Inl _ \<Rightarrow> bindS (quarantine (PJournal i pending) report) (\<lambda>r. okS (materialized_last, r))
      | Inr payload \<Rightarrow>
          let tx = tx_id (cp_transaction payload)
          in if tx \<le> materialized_last
             then bindS (modifyS (if pending then fmdrop (PJournal i pending) else id)) (\<lambda>_.
                    okS (materialized_last,
                      report\<lparr> rr_removed_pending_files := rr_removed_pending_files report + (if pending then 1 else 0),
                              rr_skipped_transactions := rr_skipped_transactions report + 1 \<rparr>))
             else bindS (materialize_commit_payload d payload) (\<lambda>_.
                    bindS (modifyS (settle_pending i pending tx)) (\<lambda>_.
                      okS (max materialized_last tx,
                        report\<lparr> rr_applied_transactions := rr_applied_transactions report + 1 \<rparr>)))))"

fun recover_journal ::
    "digests \<Rightarrow> (u64 \<times> bool) list \<Rightarrow> u64 \<times> storage_recovery_report \<Rightarrow>
     (fs, primadb_error, u64 \<times> storage_recovery_report) fallible" where
  "recover_journal d [] acc = okS acc"
| "recover_journal d (k # ks) acc = bindS (recover_journal_file d k acc) (recover_journal d ks)"

(* src: src/src/engine.rs:1468-1552 SegmentFileStore::recover *)
definition recover :: "digests \<Rightarrow> (fs, primadb_error, storage_recovery_report) fallible" where
  "recover d =
    bindS (recover_checkpoint d) (\<lambda>acc.
    bindS (readS journal_keys) (\<lambda>ks.
    bindS (recover_journal d ks acc) (\<lambda>(_, report). okS report)))"

section \<open>Reading\<close>

(* src: src/src/engine.rs:1554-1567 SegmentFileStore::read_manifest_unrecovered *)
definition read_manifest_unrecovered :: "fs \<Rightarrow> storage_metadata option primadb_result" where
  "read_manifest_unrecovered fs =
    (case fmlookup fs PManifest of
       None \<Rightarrow> Inr None
     | Some (ManifestFile m) \<Rightarrow>
         (if sm_schema_version m \<noteq> 1
          then Inl (Message (''storage schema version '' @ decimal (unat (sm_schema_version m)) @ '' is unsupported''))
          else Inr (Some m))
     | Some _ \<Rightarrow> Inl (Serde ''manifest''))"

(* src: src/src/engine.rs:1714-1718 SegmentFileStore::load_metadata *)
definition load_metadata :: "digests \<Rightarrow> (fs, primadb_error, storage_metadata option) fallible" where
  "load_metadata d = bindS (recover d) (\<lambda>_. checkS read_manifest_unrecovered)"

(* src: src/src/engine.rs:1735-1742 SegmentFileStore::get_node *)
definition get_node :: "fs \<Rightarrow> node_id \<Rightarrow> node_state option primadb_result" where
  "get_node fs n =
    (case fmlookup fs (PNode n) of
       None \<Rightarrow> Inr None
     | Some (NodeFile st) \<Rightarrow> Inr (Some st)
     | Some _ \<Rightarrow> Inl (Serde ''node''))"

section \<open>Vacuum\<close>

text \<open>Node, auth and index manifest files of nodes that the transaction does not have are orphans.\<close>
fun live_file :: "storage_transaction \<Rightarrow> fpath \<Rightarrow> bool" where
  "live_file t (PNode n) = (fmlookup (tx_nodes t) n \<noteq> None)"
| "live_file t (PAuth n) = (fmlookup (tx_auth_meta t) n \<noteq> None)"
| "live_file t (PNodeIndex n) = (fmlookup (tx_node_indexes t) n \<noteq> None)"
| "live_file t _ = True"

definition vacuum_bucket :: "storage_transaction \<Rightarrow> string list \<Rightarrow> direct_index_bucket \<Rightarrow> step" where
  "vacuum_bucket t path bucket =
    (let live = fmfilter (\<lambda>key. fmlookup (tx_direct_indexes t) key \<noteq> None) bucket
     in if fmdom live = {||} then remove_file (PDirect path)
        else if live \<noteq> bucket then write_file (PDirect path) (BucketFile live) else [])"

definition bucket_paths :: "fs \<Rightarrow> string list list" where
  "bucket_paths fs =
    sorted_list_of_fset ((\<lambda>p. case p of PDirect path \<Rightarrow> path | _ \<Rightarrow> []) |`|
      ffilter (\<lambda>p. case p of PDirect _ \<Rightarrow> True | _ \<Rightarrow> False) (fmdom fs))"

text \<open>A bucket that does not parse ends the vacuum.\<close>
fun vacuum_buckets :: "storage_transaction \<Rightarrow> string list list \<Rightarrow> (fs, primadb_error, unit) fallible" where
  "vacuum_buckets t [] = okS ()"
| "vacuum_buckets t (path # paths) =
    bindS (checkS (\<lambda>fs. read_direct_index_bucket_path fs path)) (\<lambda>bucket.
    bindS (modifyS (run [vacuum_bucket t path bucket])) (\<lambda>_. vacuum_buckets t paths))"

(* src: src/src/engine.rs:1908-1951 SegmentFileStore::vacuum *)
definition vacuum :: "digests \<Rightarrow> segment_durability \<Rightarrow> usize \<Rightarrow> storage_transaction \<Rightarrow> (fs, primadb_error, unit) fallible" where
  "vacuum d durability journal_retention transaction =
    bindS (if durability = Full
           then bindS (checkS (\<lambda>fs. build_commit_payload fs transaction)) (\<lambda>payload.
                bindS (materialize_commit_payload d payload) (\<lambda>_.
                  modifyS (fmupd PCheckpoint
                    (CheckpointFile (checkpoint_record_for_payload d payload (sat_sub (tx_id transaction) 1))))))
           else okS ()) (\<lambda>_.
    bindS (modifyS (fmfilter (live_file transaction))) (\<lambda>_.
    bindS (readS bucket_paths) (\<lambda>paths.
    bindS (vacuum_buckets transaction paths) (\<lambda>_.
      modifyS (\<lambda>fs. run (if durability = Full then prune_journal_through (sat_sub (tx_id transaction) 1) fs
                         else prune_journal_with_report journal_retention fs) fs)))))"

end
