(* ===== verification/Recovery.thy ===== *)
theory Recovery
  imports Segment
begin

text \<open>
  Crash recovery of the segment file store.  What the store holds is a function from slots to
  values: the content of a data file, or the entry of an index key within its bucket.  A commit is
  an assignment to slots, and materialising it overrides the slots it assigns, from any
  intermediate state.  From this follows that recovery, which replays the checkpoint and the
  journal, ends a commit that a crash interrupted, and that commits are atomic.
\<close>

section \<open>What the store holds\<close>

definition entry_at :: "digests \<Rightarrow> fs \<Rightarrow> string \<Rightarrow> direct_scalar_index_entry option" where
  "entry_at d fs key =
    (case fmlookup fs (PDirect (direct_index_path d key)) of Some (BucketFile b) \<Rightarrow> fmlookup b key | _ \<Rightarrow> None)"

text \<open>The sortable key of an index entry is the key of its value.\<close>
definition entry_ok :: "direct_scalar_index_entry \<Rightarrow> bool" where
  "entry_ok e = (sortable_scalar_key (ie_value e) = Some (ie_sortable_key e))"

text \<open>The files that a commit or recovery reads parse.\<close>
fun fits :: "fpath \<Rightarrow> content \<Rightarrow> bool" where
  "fits (PNodeIndex n) c = (\<exists>m. c = IndexFile m)"
| "fits (PDirect path) c = (\<exists>b. c = BucketFile b \<and> (\<forall>key e. fmlookup b key = Some e \<longrightarrow> entry_ok e))"
| "fits _ c = True"

definition readable :: "fs \<Rightarrow> bool" where
  "readable fs = (\<forall>p c. fmlookup fs p = Some c \<longrightarrow> fits p c)"

definition step_fits :: "fpath \<times> content option \<Rightarrow> bool" where
  "step_fits w = (case snd w of Some c \<Rightarrow> fits (fst w) c | None \<Rightarrow> True)"

lemma lookup_run:
  "fmlookup (run steps fs) p = (case map_of (rev (concat steps)) p of Some v \<Rightarrow> v | None \<Rightarrow> fmlookup fs p)"
  by (simp add: run_def fold_put_entries)

lemma run_append [simp]: "run (a @ b) fs = run b (run a fs)"
  by (simp add: run_def)

lemma run_Nil [simp]: "run [] fs = fs"
  by (simp add: run_def)

lemma lookup_run_other: "p \<notin> fst ` set (concat steps) \<Longrightarrow> fmlookup (run steps fs) p = fmlookup fs p"
  by (auto simp: lookup_run split: option.splits dest!: map_of_SomeD intro: rev_image_eqI)

lemma readable_run: "readable fs \<Longrightarrow> list_all step_fits (concat steps) \<Longrightarrow> readable (run steps fs)"
  unfolding readable_def list_all_iff step_fits_def lookup_run
  by (fastforce split: option.splits dest!: map_of_SomeD)

lemma set_concat_take: "set (concat (take k steps)) \<subseteq> set (concat steps)"
  by (auto dest: in_set_takeD)

section \<open>Index buckets\<close>

lemma json_eq_key:
  "json_eq a b \<Longrightarrow> sortable_scalar_key a = Some k \<Longrightarrow> sortable_scalar_key b = Some k \<Longrightarrow> a = b"
proof (cases a; cases b)
  fix m n assume "json_eq a b" "a = JNumber m" "b = JNumber n" "sortable_scalar_key a = Some k" "sortable_scalar_key b = Some k"
  then show "a = b"
    by (cases m; cases n)
      (auto simp: f64_eq_iff hex16_inj sortable_bits_inj split: option.splits)
qed auto

lemma index_entry_eq_ok: "index_entry_eq a b \<Longrightarrow> entry_ok a \<Longrightarrow> entry_ok b \<Longrightarrow> a = b"
  by (cases a; cases b) (auto simp: index_entry_eq_def entry_ok_def intro: json_eq_key)

text \<open>The value of a key while the buckets are open.\<close>
definition open_value :: "digests \<Rightarrow> fs \<Rightarrow> open_buckets \<Rightarrow> string \<Rightarrow> direct_scalar_index_entry option" where
  "open_value d fs buckets key =
    (case fmlookup buckets (direct_index_path d key) of Some (b, _) \<Rightarrow> fmlookup b key | None \<Rightarrow> entry_at d fs key)"

definition open_ok :: "fs \<Rightarrow> open_buckets \<Rightarrow> bool" where
  "open_ok fs buckets = (\<forall>path b changed. fmlookup buckets path = Some (b, changed) \<longrightarrow>
     (\<forall>key e. fmlookup b key = Some e \<longrightarrow> entry_ok e) \<and>
     (\<not> changed \<longrightarrow> read_direct_index_bucket_path fs path = Inr b))"

lemma open_bucket_ok:
  assumes "readable fs" "open_ok fs buckets"
  shows "\<exists>b changed. open_bucket fs path buckets = Inr (b, changed) \<and>
    (\<forall>key e. fmlookup b key = Some e \<longrightarrow> entry_ok e) \<and>
    (\<not> changed \<longrightarrow> read_direct_index_bucket_path fs path = Inr b) \<and>
    (\<forall>key. direct_index_path d key = path \<longrightarrow> fmlookup b key = open_value d fs buckets key)"
proof (cases "fmlookup buckets path")
  case None
  show ?thesis
  proof (cases "fmlookup fs (PDirect path)")
    case (Some c)
    with assms(1) obtain b where "c = BucketFile b" "\<And>key e. fmlookup b key = Some e \<Longrightarrow> entry_ok e"
      unfolding readable_def by fastforce
    with None Some show ?thesis
      by (auto simp: open_bucket_def read_direct_index_bucket_path_def open_value_def entry_at_def)
  qed (use None in \<open>auto simp: open_bucket_def read_direct_index_bucket_path_def open_value_def entry_at_def\<close>)
next
  case (Some bc)
  with assms(2) show ?thesis
    by (cases bc) (auto simp: open_bucket_def open_ok_def open_value_def)
qed

lemma remove_index_key_ok:
  assumes "readable fs" "open_ok fs buckets"
  shows "\<exists>buckets'. remove_index_key d fs key buckets = Inr buckets' \<and> open_ok fs buckets' \<and>
    open_value d fs buckets' = (open_value d fs buckets)(key := None)"
proof -
  obtain b changed where b: "open_bucket fs (direct_index_path d key) buckets = Inr (b, changed)"
    "\<And>k e. fmlookup b k = Some e \<Longrightarrow> entry_ok e"
    "\<not> changed \<Longrightarrow> read_direct_index_bucket_path fs (direct_index_path d key) = Inr b"
    "\<And>k. direct_index_path d k = direct_index_path d key \<Longrightarrow> fmlookup b k = open_value d fs buckets k"
    using open_bucket_ok [OF assms] by metis
  have "fmlookup b key = None \<Longrightarrow> fmdrop key b = b" by (rule fmap_ext) auto
  with b assms(2) have "open_ok fs (fmupd (direct_index_path d key) (fmdrop key b, changed \<or> fmlookup b key \<noteq> None) buckets)"
    unfolding open_ok_def by (auto split: if_splits)
  moreover have "open_value d fs (fmupd (direct_index_path d key) (fmdrop key b, changed \<or> fmlookup b key \<noteq> None) buckets) =
      (open_value d fs buckets)(key := None)"
    by (rule ext) (use b(4) in \<open>auto simp: open_value_def\<close>)
  ultimately show ?thesis by (simp add: remove_index_key_def b(1))
qed

lemma insert_index_key_ok:
  assumes "readable fs" "open_ok fs buckets" "entry_ok e"
  shows "\<exists>buckets'. insert_index_key d fs key e buckets = Inr buckets' \<and> open_ok fs buckets' \<and>
    open_value d fs buckets' = (open_value d fs buckets)(key := Some e)"
proof -
  obtain b changed where b: "open_bucket fs (direct_index_path d key) buckets = Inr (b, changed)"
    "\<And>k e. fmlookup b k = Some e \<Longrightarrow> entry_ok e"
    "\<not> changed \<Longrightarrow> read_direct_index_bucket_path fs (direct_index_path d key) = Inr b"
    "\<And>k. direct_index_path d k = direct_index_path d key \<Longrightarrow> fmlookup b k = open_value d fs buckets k"
    using open_bucket_ok [OF assms(1,2)] by metis
  let ?new = "case fmlookup b key of
      Some old \<Rightarrow> (if index_entry_eq old e then (b, changed) else (fmupd key e b, True)) | None \<Rightarrow> (fmupd key e b, True)"
  have new: "(fst ?new = fmupd key e b \<and> snd ?new) \<or> (?new = (b, changed) \<and> fmlookup b key = Some e)"
    using b(2) assms(3) index_entry_eq_ok by (auto split: option.splits)
  have "open_ok fs (fmupd (direct_index_path d key) ?new buckets)"
    using new b(2,3) assms(2,3) unfolding open_ok_def by (auto split: if_splits)
  moreover have "fmlookup (fst ?new) k = ((fmlookup b)(key := Some e)) k" for k using new by auto
  then have "open_value d fs (fmupd (direct_index_path d key) ?new buckets) = (open_value d fs buckets)(key := Some e)"
    by (intro ext) (use b(4) in \<open>auto simp: open_value_def split_def\<close>)
  ultimately show ?thesis by (simp add: insert_index_key_def b(1))
qed

lemma remove_index_keys_ok:
  assumes "readable fs" "open_ok fs buckets"
  shows "\<exists>buckets'. fold_result (remove_index_key d fs) keys buckets = Inr buckets' \<and> open_ok fs buckets' \<and>
    open_value d fs buckets' = (\<lambda>k. if k \<in> set keys then None else open_value d fs buckets k)"
  using assms(2)
proof (induction keys arbitrary: buckets)
  case (Cons key keys)
  obtain b where "remove_index_key d fs key buckets = Inr b" "open_ok fs b"
    "open_value d fs b = (open_value d fs buckets)(key := None)"
    using remove_index_key_ok [OF assms(1) Cons.prems] by metis
  with Cons.IH [of b] show ?case by (auto simp: fun_eq_iff)
qed simp

lemma insert_index_keys_ok:
  assumes "readable fs" "open_ok fs buckets" "\<forall>(k, e) \<in> set es. entry_ok e"
  shows "\<exists>buckets'. fold_result (\<lambda>(key, entry). insert_index_key d fs key entry) es buckets = Inr buckets' \<and> open_ok fs buckets' \<and>
    open_value d fs buckets' = (\<lambda>k. case map_of (rev es) k of Some e \<Rightarrow> Some e | None \<Rightarrow> open_value d fs buckets k)"
  using assms(2,3)
proof (induction es arbitrary: buckets)
  case (Cons x es)
  obtain key e where x: "x = (key, e)" by fastforce
  obtain b where b: "insert_index_key d fs key e buckets = Inr b" "open_ok fs b"
    "open_value d fs b = (open_value d fs buckets)(key := Some e)"
    using insert_index_key_ok [OF assms(1) Cons.prems(1), of e d key] Cons.prems(2) x by auto
  from Cons.IH [OF b(2)] Cons.prems(2) obtain b' where "fold_result (\<lambda>(key, entry). insert_index_key d fs key entry) es b = Inr b'"
    "open_ok fs b'" "open_value d fs b' = (\<lambda>k. case map_of (rev es) k of Some e \<Rightarrow> Some e | None \<Rightarrow> open_value d fs b k)"
    by auto
  with b x show ?case by (auto simp: fun_eq_iff map_add_def split: option.splits)
qed simp

text \<open>The value of an index key after a commit.\<close>
definition committed_entry :: "segment_commit_payload \<Rightarrow> (string \<Rightarrow> direct_scalar_index_entry option) \<Rightarrow> string \<Rightarrow> direct_scalar_index_entry option" where
  "committed_entry payload old key =
    (case map_of (rev (listed_entries (cp_transaction payload))) key of
       Some e \<Rightarrow> Some e
     | None \<Rightarrow> if key \<in> set (cp_direct_index_removals payload) then None else old key)"

definition payload_ok :: "segment_commit_payload \<Rightarrow> bool" where
  "payload_ok payload = (\<forall>(k, e) \<in> set (listed_entries (cp_transaction payload)). entry_ok e)"

lemma bucket_steps_paths:
  "w \<in> set (concat (bucket_step fs x)) \<Longrightarrow> fst w = PDirect (fst x)"
  by (auto simp: bucket_step_def write_file_def remove_file_def split: prod.splits if_splits)

lemma bucket_steps_written:
  "bucket_step fs x \<noteq> [] \<Longrightarrow> PDirect (fst x) \<in> fst ` set (concat (bucket_step fs x))"
  by (cases x) (simp add: bucket_step_def write_file_def remove_file_def split: if_splits)

lemma read_bucket_entry:
  "read_direct_index_bucket_path fs (direct_index_path d key) = Inr b \<Longrightarrow> entry_at d fs key = fmlookup b key"
  by (auto simp: read_direct_index_bucket_path_def entry_at_def split: option.splits content.splits)

text \<open>A changed bucket is written as it stands; an unchanged one agrees with its file.\<close>
lemma bucket_steps_value:
  assumes "open_ok fs buckets"
  defines "steps \<equiv> concat (map (bucket_step fs) (sorted_list_of_fmap buckets))"
  shows "(PDirect (direct_index_path d key), v) \<in> set (concat steps) \<Longrightarrow>
      (case v of Some (BucketFile b) \<Rightarrow> fmlookup b key | _ \<Rightarrow> None) = open_value d fs buckets key \<and>
      step_fits (PDirect (direct_index_path d key), v)"
    and "PDirect (direct_index_path d key) \<notin> fst ` set (concat steps) \<Longrightarrow> entry_at d fs key = open_value d fs buckets key"
proof -
  let ?p = "direct_index_path d key"
  show "(case v of Some (BucketFile b) \<Rightarrow> fmlookup b key | _ \<Rightarrow> None) = open_value d fs buckets key \<and> step_fits (PDirect ?p, v)"
    if in_steps: "(PDirect ?p, v) \<in> set (concat steps)"
  proof -
    from in_steps obtain x where x: "x \<in> set (sorted_list_of_fmap buckets)" "(PDirect ?p, v) \<in> set (concat (bucket_step fs x))"
      by (auto simp: steps_def)
    then have "fst x = ?p" using bucket_steps_paths by fastforce
    then obtain b changed where b: "fmlookup buckets ?p = Some (b, changed)" "(PDirect ?p, v) \<in> set (concat (bucket_step fs (?p, b, changed)))"
      using x by (cases x) (auto simp: set_sorted_list_of_fmap)
    have "b = fmempty \<or> fmdom b \<noteq> {||}" by (metis fmap_ext fmdom_notD fmempty_lookup fempty_iff)
    with b assms(1) show ?thesis
      by (auto simp: bucket_step_def open_value_def write_file_def remove_file_def step_fits_def open_ok_def split: if_splits)
  qed
  show "entry_at d fs key = open_value d fs buckets key" if none: "PDirect ?p \<notin> fst ` set (concat steps)"
  proof (cases "fmlookup buckets ?p")
    case (Some bc)
    obtain b changed where bc: "bc = (b, changed)" by fastforce
    with Some have "(?p, b, changed) \<in> set (sorted_list_of_fmap buckets)" by (simp add: set_sorted_list_of_fmap)
    with none bucket_steps_written [of fs "(?p, b, changed)"] have no: "bucket_step fs (?p, b, changed) = []"
      by (auto simp: steps_def)
    have empty: "fmdom b = {||} \<Longrightarrow> fmlookup b key = None" by (metis fmdom_notD fempty_iff)
    show ?thesis
    proof (cases changed)
      case True
      with no empty have "fmlookup b key = None" "fmlookup fs (PDirect ?p) = None"
        by (auto simp: bucket_step_def split: if_splits)
      with Some bc show ?thesis by (simp add: open_value_def entry_at_def)
    next
      case False
      with assms(1) Some bc have "read_direct_index_bucket_path fs ?p = Inr b" by (simp add: open_ok_def)
      with Some bc show ?thesis by (simp add: open_value_def read_bucket_entry)
    qed
  qed (simp add: open_value_def)
qed

lemma materialize_direct_ok:
  assumes "readable fs" "payload_ok payload"
  shows "\<exists>steps. materialize_direct_index_changes d fs payload = Inr steps \<and>
    list_all (\<lambda>w. (\<exists>path. fst w = PDirect path) \<and> step_fits w) (concat steps) \<and>
    (\<forall>key v. (PDirect (direct_index_path d key), v) \<in> set (concat steps) \<longrightarrow>
      (case v of Some (BucketFile b) \<Rightarrow> fmlookup b key | _ \<Rightarrow> None) = committed_entry payload (entry_at d fs) key) \<and>
    (\<forall>key. PDirect (direct_index_path d key) \<notin> fst ` set (concat steps) \<longrightarrow>
      entry_at d fs key = committed_entry payload (entry_at d fs) key)"
proof -
  have "open_ok fs fmempty" by (simp add: open_ok_def)
  then obtain b1 where b1: "fold_result (remove_index_key d fs) (cp_direct_index_removals payload) fmempty = Inr b1" "open_ok fs b1"
    "open_value d fs b1 = (\<lambda>k. if k \<in> set (cp_direct_index_removals payload) then None else open_value d fs fmempty k)"
    using remove_index_keys_ok [OF assms(1), of fmempty d "cp_direct_index_removals payload"] by auto
  obtain b2 where b2: "fold_result (\<lambda>(key, entry). insert_index_key d fs key entry) (listed_entries (cp_transaction payload)) b1 = Inr b2"
    "open_ok fs b2"
    "open_value d fs b2 = (\<lambda>k. case map_of (rev (listed_entries (cp_transaction payload))) k of Some e \<Rightarrow> Some e | None \<Rightarrow> open_value d fs b1 k)"
    using insert_index_keys_ok [OF assms(1) b1(2), of "listed_entries (cp_transaction payload)" d] assms(2)
    unfolding payload_ok_def by auto
  have vals: "open_value d fs b2 = committed_entry payload (entry_at d fs)"
    by (rule ext) (simp add: b2(3) b1(3) committed_entry_def open_value_def [of d fs fmempty] split: option.split)
  let ?steps = "concat (map (bucket_step fs) (sorted_list_of_fmap b2))"
  have "(\<exists>path. fst w = PDirect path) \<and> step_fits w" if w: "w \<in> set (concat ?steps)" for w
  proof -
    from w obtain x where x: "x \<in> set (sorted_list_of_fmap b2)" "w \<in> set (concat (bucket_step fs x))" by auto
    with b2(2) show ?thesis
      by (cases x) (auto simp: bucket_step_def write_file_def remove_file_def step_fits_def open_ok_def
          set_sorted_list_of_fmap split: if_splits)
  qed
  then have "list_all (\<lambda>w. (\<exists>path. fst w = PDirect path) \<and> step_fits w) (concat ?steps)"
    unfolding list_all_iff by blast
  moreover have "materialize_direct_index_changes d fs payload = Inr ?steps"
    by (simp add: materialize_direct_index_changes_def b1(1) b2(1))
  ultimately show ?thesis using bucket_steps_value [OF b2(2)] unfolding vals [symmetric] by blast
qed

section \<open>Commits as assignments\<close>

datatype slot = File fpath | Entry string

datatype slot_value = VFile content | VEntry direct_scalar_index_entry

fun is_data :: "fpath \<Rightarrow> bool" where
  "is_data (PNode _) = True"
| "is_data (PAuth _) = True"
| "is_data (PNodeIndex _) = True"
| "is_data (PRecord _) = True"
| "is_data PManifest = True"
| "is_data _ = False"

definition contents :: "digests \<Rightarrow> fs \<Rightarrow> slot \<Rightarrow> slot_value option" where
  "contents d fs x =
    (case x of
       File p \<Rightarrow> if is_data p then map_option VFile (fmlookup fs p) else None
     | Entry key \<Rightarrow> map_option VEntry (entry_at d fs key))"

text \<open>The writes of a commit to data files.\<close>
definition plain_writes :: "digests \<Rightarrow> segment_commit_payload \<Rightarrow> step" where
  "plain_writes d payload = concat (node_steps (cp_transaction payload) @ record_steps d (cp_transaction payload))"

text \<open>The slots a commit assigns, with the value they get or their removal.\<close>
definition assigned :: "digests \<Rightarrow> segment_commit_payload \<Rightarrow> slot \<Rightarrow> slot_value option option" where
  "assigned d payload x =
    (case x of
       File p \<Rightarrow>
         map_option (map_option VFile) (map_of (rev (plain_writes d payload)) p)
     | Entry key \<Rightarrow>
         (case map_of (rev (listed_entries (cp_transaction payload))) key of
            Some e \<Rightarrow> Some (Some (VEntry e))
          | None \<Rightarrow> if key \<in> set (cp_direct_index_removals payload) then Some None else None))"

definition override :: "digests \<Rightarrow> segment_commit_payload \<Rightarrow> (slot \<Rightarrow> slot_value option) \<Rightarrow> slot \<Rightarrow> slot_value option" where
  "override d payload f x = (case assigned d payload x of Some v \<Rightarrow> v | None \<Rightarrow> f x)"

lemma plain_steps:
  assumes "w \<in> set (plain_writes d payload)"
  shows "is_data (fst w)" "step_fits w"
  using assms
  by (auto simp: plain_writes_def node_steps_def record_steps_def write_file_def remove_file_def step_fits_def)

lemma assigned_data: "assigned d payload (File p) = Some v \<Longrightarrow> is_data p"
  using plain_steps(1) unfolding assigned_def by (fastforce dest!: map_of_SomeD)

text \<open>The same files apart from data files and index buckets.\<close>
definition same_log :: "fs \<Rightarrow> fs \<Rightarrow> bool" where
  "same_log a b = (\<forall>p. \<not> is_data p \<longrightarrow> (\<forall>path. p \<noteq> PDirect path) \<longrightarrow> fmlookup a p = fmlookup b p)"

lemma same_logD [dest]:
  "same_log a b \<Longrightarrow> fmlookup a (PJournal i pending) = fmlookup b (PJournal i pending)"
  "same_log a b \<Longrightarrow> fmlookup a PCheckpoint = fmlookup b PCheckpoint"
  by (auto simp: same_log_def)

lemma same_log_refl [simp]: "same_log a a"
  by (simp add: same_log_def)

lemma same_log_trans: "same_log a b \<Longrightarrow> same_log b c \<Longrightarrow> same_log a c"
  by (simp add: same_log_def)

lemma map_of_rev_mem: "map_of (rev xs) k = Some v \<Longrightarrow> (k, v) \<in> set xs"
  by (drule map_of_SomeD) simp

lemma map_of_rev_None: "map_of (rev xs) k = None \<longleftrightarrow> k \<notin> fst ` set xs"
  by (simp add: map_of_eq_None_iff)

definition bucket_value :: "content option \<Rightarrow> string \<Rightarrow> direct_scalar_index_entry option" where
  "bucket_value v key = (case v of Some (BucketFile b) \<Rightarrow> fmlookup b key | _ \<Rightarrow> None)"

lemma entry_at_bucket: "entry_at d fs key = bucket_value (fmlookup fs (PDirect (direct_index_path d key))) key"
  by (simp add: entry_at_def bucket_value_def)

text \<open>Writes of a commit: data files, and buckets that hold the committed values of their keys.\<close>
definition commit_write :: "digests \<Rightarrow> fs \<Rightarrow> segment_commit_payload \<Rightarrow> fpath \<times> content option \<Rightarrow> bool" where
  "commit_write d fs payload w =
    (w \<in> set (plain_writes d payload) \<or>
     (\<exists>path. fst w = PDirect path \<and> step_fits w \<and>
       (\<forall>key. direct_index_path d key = path \<longrightarrow> bucket_value (snd w) key = committed_entry payload (entry_at d fs) key)))"

lemma commit_write_kinds:
  "commit_write d fs payload w \<Longrightarrow> step_fits w \<and> (is_data (fst w) \<or> (\<exists>path. fst w = PDirect path))"
  using plain_steps [of w d payload] by (auto simp: commit_write_def)

lemma commit_write_entry:
  assumes "\<forall>w \<in> set (concat ss). commit_write d fs payload w"
  shows "entry_at d (run ss fs) key =
    (if PDirect (direct_index_path d key) \<in> fst ` set (concat ss) then committed_entry payload (entry_at d fs) key
     else entry_at d fs key)"
proof (cases "map_of (rev (concat ss)) (PDirect (direct_index_path d key))")
  case None
  then have "PDirect (direct_index_path d key) \<notin> fst ` set (concat ss)" unfolding map_of_rev_None .
  with None show ?thesis by (simp add: entry_at_bucket lookup_run)
next
  case (Some v)
  let ?w = "(PDirect (direct_index_path d key), v)"
  have w: "?w \<in> set (concat ss)" using Some by (rule map_of_rev_mem)
  with assms have "commit_write d fs payload ?w" by blast
  moreover have "?w \<notin> set (plain_writes d payload)"
    using plain_steps(1) [of ?w] by auto
  ultimately have "bucket_value v key = committed_entry payload (entry_at d fs) key"
    by (auto simp: commit_write_def)
  with Some w show ?thesis by (force simp: entry_at_bucket lookup_run)
qed

lemma committed_entry_unassigned:
  "assigned d payload (Entry key) = None \<Longrightarrow> committed_entry payload old key = old key"
  by (auto simp: assigned_def committed_entry_def split: option.splits if_splits)

lemma commit_writes_partial:
  assumes "\<forall>w \<in> set (concat ss). commit_write d fs payload w" "readable fs"
  shows "readable (run ss fs)" "same_log (run ss fs) fs"
    and "assigned d payload x = None \<Longrightarrow> contents d (run ss fs) x = contents d fs x"
proof -
  show "readable (run ss fs)"
    using assms commit_write_kinds unfolding list_all_iff [symmetric] by (intro readable_run) (auto elim: list.pred_mono_strong)
  show "same_log (run ss fs) fs"
    unfolding same_log_def using assms(1) commit_write_kinds by (auto intro!: lookup_run_other) blast
  show "contents d (run ss fs) x = contents d fs x" if none: "assigned d payload x = None"
  proof (cases x)
    case (File p)
    have "fmlookup (run ss fs) p = fmlookup fs p" if "is_data p"
    proof (rule lookup_run_other)
      have "p \<notin> fst ` set (plain_writes d payload)"
        using none File by (simp add: assigned_def map_of_rev_None)
      with assms(1) that show "p \<notin> fst ` set (concat ss)" by (fastforce simp: commit_write_def)
    qed
    with File show ?thesis by (simp add: contents_def)
  next
    case (Entry key)
    with none show ?thesis
      by (simp add: contents_def commit_write_entry [OF assms(1)] committed_entry_unassigned)
  qed
qed

lemma materialize_ok:
  assumes "readable fs" "payload_ok payload"
  obtains steps where "materialize_steps d fs payload = (steps, None)"
    "\<forall>w \<in> set (concat steps). commit_write d fs payload w"
    "contents d (run steps fs) = override d payload (contents d fs)"
proof -
  let ?t = "cp_transaction payload"
  obtain bs where bs: "materialize_direct_index_changes d fs payload = Inr bs"
    "list_all (\<lambda>w. (\<exists>path. fst w = PDirect path) \<and> step_fits w) (concat bs)"
    "\<And>key v. (PDirect (direct_index_path d key), v) \<in> set (concat bs) \<Longrightarrow>
      (case v of Some (BucketFile b) \<Rightarrow> fmlookup b key | _ \<Rightarrow> None) = committed_entry payload (entry_at d fs) key"
    "\<And>key. PDirect (direct_index_path d key) \<notin> fst ` set (concat bs) \<Longrightarrow>
      entry_at d fs key = committed_entry payload (entry_at d fs) key"
    using materialize_direct_ok [OF assms, of d] by blast
  let ?steps = "node_steps ?t @ bs @ record_steps d ?t"
  have buckets: "commit_write d fs payload w" if "w \<in> set (concat bs)" for w
  proof -
    obtain p v where w: "w = (p, v)" by fastforce
    with that bs(2) obtain path where "p = PDirect path" "step_fits w" unfolding list_all_iff by fastforce
    with w that bs(3) show ?thesis by (auto simp: commit_write_def bucket_value_def)
  qed
  then have writes: "\<forall>w \<in> set (concat ?steps). commit_write d fs payload w"
    by (auto simp: commit_write_def plain_writes_def)
  have "contents d (run ?steps fs) x = override d payload (contents d fs) x" for x
  proof (cases x)
    case (Entry key)
    have "entry_at d (run ?steps fs) key = committed_entry payload (entry_at d fs) key"
      using commit_write_entry [OF writes] bs(4) [of key] by auto
    with Entry show ?thesis
      by (auto simp: contents_def override_def assigned_def committed_entry_def split: option.splits)
  next
    case (File p)
    have "map_of (rev (concat bs)) p = None" if "is_data p"
      using that bs(2) unfolding map_of_rev_None list_all_iff by fastforce
    then have "map_of (rev (concat ?steps)) p = map_of (rev (plain_writes d payload)) p" if "is_data p"
      using that by (simp add: plain_writes_def map_add_def split: option.split)
    moreover have "\<not> is_data p \<Longrightarrow> map_of (rev (plain_writes d payload)) p = None"
      using plain_steps(1) by (fastforce simp: map_of_rev_None)
    ultimately show ?thesis
      using File by (cases "is_data p") (auto simp: contents_def override_def assigned_def lookup_run split: option.splits)
  qed
  with bs(1) writes show thesis by (intro that [of ?steps]) (auto simp: materialize_steps_def)
qed

section \<open>Recovery\<close>

lemma materialize_commit_ok:
  assumes "readable fs" "payload_ok payload"
  obtains fs' where "materialize_commit_payload d payload fs = (Inr (), fs')" "readable fs'" "same_log fs' fs"
    "contents d fs' = override d payload (contents d fs)"
proof -
  obtain steps where steps: "materialize_steps d fs payload = (steps, None)"
    "\<forall>w \<in> set (concat steps). commit_write d fs payload w"
    "contents d (run steps fs) = override d payload (contents d fs)"
    using materialize_ok [OF assms] by blast
  with commit_writes_partial [OF steps(2) assms(1)] show thesis
    by (intro that [of "run steps fs"]) (auto simp: materialize_commit_payload_def)
qed

text \<open>A journal file that holds the commit it is named after.\<close>
definition good_commit :: "digests \<Rightarrow> fs \<Rightarrow> u64 \<times> bool \<Rightarrow> bool" where
  "good_commit d fs k = (\<exists>payload. fmlookup fs (PJournal (fst k) (snd k)) = Some (JournalFile (commit_record_for_payload d payload)) \<and>
     cp_schema_version payload = 1 \<and> tx_id (cp_transaction payload) = fst k \<and> payload_ok payload)"

definition commit_of :: "fs \<Rightarrow> u64 \<times> bool \<Rightarrow> segment_commit_payload" where
  "commit_of fs k =
    (case fmlookup fs (PJournal (fst k) (snd k)) of Some (JournalFile r) \<Rightarrow> cr_payload r | _ \<Rightarrow> undefined)"

lemma good_commitD:
  assumes "good_commit d fs k"
  shows "fmlookup fs (PJournal (fst k) (snd k)) \<noteq> None"
    and "(case fmlookup fs (PJournal (fst k) (snd k)) of None \<Rightarrow> Inl e | Some c \<Rightarrow> read_commit_record d c) = Inr (commit_of fs k)"
    and "tx_id (cp_transaction (commit_of fs k)) = fst k" "payload_ok (commit_of fs k)"
  using assms
  by (auto simp: good_commit_def commit_of_def read_commit_record_def validate_commit_record_def commit_record_for_payload_def)

lemma contents_log:
  assumes "\<And>p. is_data p \<or> (\<exists>path. p = PDirect path) \<Longrightarrow> fmlookup a p = fmlookup b p"
  shows "contents d a = contents d b"
  using assms by (auto simp: contents_def fun_eq_iff entry_at_def split: slot.splits)

lemma readable_log:
  assumes "\<And>p. is_data p \<or> (\<exists>path. p = PDirect path) \<Longrightarrow> fmlookup a p = fmlookup b p" "readable b"
  shows "readable a"
  unfolding readable_def
proof (intro allI impI)
  fix p c assume c: "fmlookup a p = Some c"
  have "fits p c" if "\<not> (is_data p \<or> (\<exists>path. p = PDirect path))" using that by (cases p) auto
  with assms c show "fits p c" unfolding readable_def by metis
qed

lemma settle_pending_lookup:
  assumes "fmlookup fs (PJournal i True) \<noteq> None" "fmlookup fs (PJournal i False) = None"
  shows "fmlookup (settle_pending i pending i fs) p =
    (if pending \<and> p = PJournal i True then None
     else if pending \<and> p = PJournal i False then fmlookup fs (PJournal i True) else fmlookup fs p)"
  using assms by (auto simp: settle_pending_def rename_file_def run_def)

text \<open>The journal after a pending commit has been settled.\<close>
definition settled_log :: "u64 \<Rightarrow> bool \<Rightarrow> fs \<Rightarrow> fs \<Rightarrow> bool" where
  "settled_log i pending fs fs' = (\<forall>p. \<not> is_data p \<longrightarrow> (\<forall>path. p \<noteq> PDirect path) \<longrightarrow>
     fmlookup fs' p = (if pending \<and> p = PJournal i True then None
       else if pending \<and> p = PJournal i False then fmlookup fs (PJournal i True) else fmlookup fs p))"

lemma recover_journal_file_ok:
  assumes "readable fs" "good_commit d fs (i, pending)"
    and "pending \<Longrightarrow> mlast < i \<and> fmlookup fs (PJournal i False) = None"
  obtains rep' fs' where "recover_journal_file d (i, pending) (mlast, rep) fs = (Inr (max mlast i, rep'), fs')" "readable fs'"
    "contents d fs' = (if mlast < i then override d (commit_of fs (i, pending)) (contents d fs) else contents d fs)"
    "settled_log i pending fs fs'"
proof (cases "mlast < i")
  case False
  with assms(3) have "\<not> pending" by blast
  with False good_commitD(2,3) [OF assms(2)] show thesis
    by (intro that [of "rep\<lparr> rr_skipped_transactions := rr_skipped_transactions rep + 1 \<rparr>" fs])
      (auto simp: recover_journal_file_def bindS_apply Let_def assms(1) settled_log_def max_def)
next
  case True
  let ?p = "commit_of fs (i, pending)"
  note good = good_commitD [OF assms(2)]
  obtain fs1 where m: "materialize_commit_payload d ?p fs = (Inr (), fs1)" "readable fs1" "same_log fs1 fs"
    "contents d fs1 = override d ?p (contents d fs)"
    using materialize_commit_ok [OF assms(1) good(4)] by blast
  have pend: "fmlookup fs1 (PJournal i True) \<noteq> None" "fmlookup fs1 (PJournal i False) = None" if pending
    using that good(1) assms(3) same_logD(1) [OF m(3)] by auto
  have look: "fmlookup (settle_pending i pending i fs1) p =
      (if pending \<and> p = PJournal i True then None
       else if pending \<and> p = PJournal i False then fmlookup fs1 (PJournal i True) else fmlookup fs1 p)" for p
    using settle_pending_lookup [of fs1 i pending p] pend by (cases pending) (auto simp: settle_pending_def)
  show thesis
  proof (rule that)
    show "recover_journal_file d (i, pending) (mlast, rep) fs =
        (Inr (max mlast i, rep\<lparr> rr_applied_transactions := rr_applied_transactions rep + 1 \<rparr>), settle_pending i pending i fs1)"
      using True good(2) [of "Io ''journal file''"] good(3) m(1) by (simp add: recover_journal_file_def bindS_apply Let_def not_le [symmetric])
    show "readable (settle_pending i pending i fs1)"
      by (rule readable_log [OF _ m(2)]) (auto simp: look)
    have "contents d (settle_pending i pending i fs1) = contents d fs1"
      by (rule contents_log) (auto simp: look)
    with True m(4) show "contents d (settle_pending i pending i fs1) =
        (if mlast < i then override d ?p (contents d fs) else contents d fs)" by simp
    show "settled_log i pending fs (settle_pending i pending i fs1)"
      using m(3) by (auto simp: settled_log_def look same_log_def)
  qed
qed

definition all_settled :: "(u64 \<times> bool) list \<Rightarrow> fs \<Rightarrow> fs \<Rightarrow> bool" where
  "all_settled ks fs fs' = (fmlookup fs' PCheckpoint = fmlookup fs PCheckpoint \<and>
     (\<forall>i. fmlookup fs' (PJournal i True) = (if (i, True) \<in> set ks then None else fmlookup fs (PJournal i True)) \<and>
          fmlookup fs' (PJournal i False) =
            (if (i, True) \<in> set ks then fmlookup fs (PJournal i True) else fmlookup fs (PJournal i False))))"

lemma settled_logD:
  assumes "settled_log i pending fs fs'"
  shows "fmlookup fs' PCheckpoint = fmlookup fs PCheckpoint"
    and "fmlookup fs' (PJournal j True) = (if pending \<and> j = i then None else fmlookup fs (PJournal j True))"
    and "fmlookup fs' (PJournal j False) = (if pending \<and> j = i then fmlookup fs (PJournal i True) else fmlookup fs (PJournal j False))"
  using assms by (simp_all add: settled_log_def)

lemma all_settled_Cons:
  assumes "settled_log i pending fs fs1" "all_settled ks fs1 fs'" "\<And>j b. (j, b) \<in> set ks \<Longrightarrow> i < j"
  shows "all_settled ((i, pending) # ks) fs fs'"
proof -
  have "(i, b) \<notin> set ks" for b using assms(3) by blast
  then show ?thesis
    using assms(2) unfolding all_settled_def settled_logD [OF assms(1)] by auto
qed

text \<open>Each transaction has one journal file; a pending one is newer than what was materialised.\<close>
definition orderly :: "digests \<Rightarrow> fs \<Rightarrow> u64 \<Rightarrow> (u64 \<times> bool) list \<Rightarrow> bool" where
  "orderly d fs mlast ks = (sorted_wrt (\<lambda>a b. fst a < fst b) ks \<and>
     (\<forall>k \<in> set ks. good_commit d fs k \<and> (snd k \<longrightarrow> mlast < fst k \<and> fmlookup fs (PJournal (fst k) False) = None)))"

lemma recover_journal_ok:
  assumes "readable fs" "orderly d fs mlast ks"
  shows "\<exists>mlast' rep' fs'. recover_journal d ks (mlast, rep) fs = (Inr (mlast', rep'), fs') \<and> readable fs' \<and>
    contents d fs' = fold (\<lambda>k. override d (commit_of fs k)) (filter (\<lambda>k. mlast < fst k) ks) (contents d fs) \<and>
    all_settled ks fs fs'"
  using assms
proof (induction ks arbitrary: fs mlast rep)
  case Nil
  then show ?case by (simp add: all_settled_def)
next
  case (Cons k ks)
  obtain i pending where k: "k = (i, pending)" by fastforce
  from Cons.prems(2) k have good: "good_commit d fs (i, pending)" "pending \<Longrightarrow> mlast < i \<and> fmlookup fs (PJournal i False) = None"
    by (auto simp: orderly_def)
  obtain rep1 fs1 where s1: "recover_journal_file d (i, pending) (mlast, rep) fs = (Inr (max mlast i, rep1), fs1)" "readable fs1"
    "contents d fs1 = (if mlast < i then override d (commit_of fs (i, pending)) (contents d fs) else contents d fs)"
    "settled_log i pending fs fs1"
    using recover_journal_file_ok [OF Cons.prems(1) good] by blast
  have later: "i < fst k'" if "k' \<in> set ks" for k' using that Cons.prems(2) k by (auto simp: orderly_def)
  have same: "fmlookup fs1 (PJournal j b) = fmlookup fs (PJournal j b)" if "i < j" for j b
    using that s1(4) by (auto simp: settled_log_def)
  have same_k: "good_commit d fs1 k' = good_commit d fs k'" "commit_of fs1 k' = commit_of fs k'" if "k' \<in> set ks" for k'
    using same [OF later [OF that]] by (simp_all add: good_commit_def commit_of_def)
  have "orderly d fs1 (max mlast i) ks"
    using Cons.prems(2) later same same_k k by (simp add: orderly_def)
  from Cons.IH [OF s1(2) this, of rep1] obtain mlast' rep' fs' where
    r: "recover_journal d ks (max mlast i, rep1) fs1 = (Inr (mlast', rep'), fs')" "readable fs'"
      "contents d fs' = fold (\<lambda>k. override d (commit_of fs1 k)) (filter (\<lambda>k. max mlast i < fst k) ks) (contents d fs1)"
      "all_settled ks fs1 fs'" by blast
  have flt: "filter (\<lambda>k. max mlast i < fst k) ks = filter (\<lambda>k. mlast < fst k) ks"
    by (rule filter_cong) (use later in \<open>auto simp: max_def intro: le_less_trans\<close>)
  have "contents d fs' = fold (\<lambda>k. override d (commit_of fs k)) (filter (\<lambda>k. mlast < fst k) ks) (contents d fs1)"
    unfolding r(3) flt by (rule fold_cong) (use same_k(2) in auto)
  then have "contents d fs' = fold (\<lambda>k. override d (commit_of fs k)) (filter (\<lambda>k. mlast < fst k) (k # ks)) (contents d fs)"
    using s1(3) k by simp
  moreover have "all_settled (k # ks) fs fs'"
    unfolding k by (rule all_settled_Cons [OF s1(4) r(4)]) (use later in fastforce)
  ultimately show ?case using r(1,2) s1(1) k by (auto simp: bindS_apply)
qed

lemma set_journal_keys: "(i, pending) \<in> set (journal_keys fs) \<longleftrightarrow> fmlookup fs (PJournal i pending) \<noteq> None"
proof -
  have "journal_key p = Some (i, pending) \<longleftrightarrow> p = PJournal i pending" for p by (cases p) auto
  then show ?thesis by (force simp: journal_keys_def fmlookup_dom_iff image_iff)
qed

lemma sorted_journal_keys [simp]: "sorted (journal_keys fs)" "distinct (journal_keys fs)" "sorted_wrt (<) (journal_keys fs)"
  by (simp_all add: journal_keys_def sorted_list_of_fset_def)

lemma good_commit_cong:
  "fmlookup a (PJournal (fst k) (snd k)) = fmlookup b (PJournal (fst k) (snd k)) \<Longrightarrow> good_commit d a k = good_commit d b k"
  by (simp add: good_commit_def)

lemma journal_keys_cong:
  assumes "\<And>i pending. fmlookup a (PJournal i pending) = fmlookup b (PJournal i pending)"
  shows "journal_keys a = journal_keys b"
proof (rule sorted_distinct_set_unique)
  show "set (journal_keys a) = set (journal_keys b)" using assms by (auto simp: set_journal_keys)
qed simp_all

text \<open>The checkpoint, if there is one, is intact.\<close>
definition good_checkpoint :: "digests \<Rightarrow> fs \<Rightarrow> bool" where
  "good_checkpoint d fs = (\<forall>c. fmlookup fs PCheckpoint = Some c \<longrightarrow>
     (\<exists>i payload. c = CheckpointFile (checkpoint_record_for_payload d payload i) \<and> payload_ok payload))"

definition checkpoint_id :: "fs \<Rightarrow> u64" where
  "checkpoint_id fs = (case fmlookup fs PCheckpoint of Some (CheckpointFile r) \<Rightarrow> kr_checkpoint_tx_id r | _ \<Rightarrow> 0)"

definition checkpoint_payloads :: "fs \<Rightarrow> segment_commit_payload list" where
  "checkpoint_payloads fs = (case fmlookup fs PCheckpoint of Some (CheckpointFile r) \<Rightarrow> [kr_payload r] | _ \<Rightarrow> [])"

text \<open>What recovery replays.\<close>
definition plan :: "fs \<Rightarrow> segment_commit_payload list" where
  "plan fs = checkpoint_payloads fs @ map (commit_of fs) (filter (\<lambda>k. checkpoint_id fs < fst k) (journal_keys fs))"

lemma recover_checkpoint_ok:
  assumes "readable fs" "good_checkpoint d fs"
  obtains rep fs' where "recover_checkpoint d fs = (Inr (checkpoint_id fs, rep), fs')" "readable fs'" "same_log fs' fs"
    "contents d fs' = fold (override d) (checkpoint_payloads fs) (contents d fs)"
proof (cases "fmlookup fs PCheckpoint")
  case None
  then show thesis
    by (intro that [of report_zero fs])
      (simp_all add: assms recover_checkpoint_def bindS_apply checkpoint_id_def checkpoint_payloads_def)
next
  case (Some c)
  with assms(2) obtain i payload where c: "c = CheckpointFile (checkpoint_record_for_payload d payload i)" "payload_ok payload"
    by (auto simp: good_checkpoint_def)
  obtain fs' where "materialize_commit_payload d payload fs = (Inr (), fs')" "readable fs'" "same_log fs' fs"
    "contents d fs' = override d payload (contents d fs)"
    using materialize_commit_ok [OF assms(1) c(2)] by blast
  with Some c(1) show thesis
    by (intro that [of report_zero fs'])
      (simp_all add: recover_checkpoint_def bindS_apply checkpoint_id_def checkpoint_payloads_def read_checkpoint_def
        validate_checkpoint_record_def checkpoint_record_for_payload_def)
qed

lemma recover_ok:
  assumes "readable fs" "good_checkpoint d fs" "orderly d fs (checkpoint_id fs) (journal_keys fs)"
  obtains rep fs' where "recover d fs = (Inr rep, fs')" "readable fs'"
    "contents d fs' = fold (override d) (plan fs) (contents d fs)" "all_settled (journal_keys fs) fs fs'"
proof -
  obtain rep0 fs1 where s1: "recover_checkpoint d fs = (Inr (checkpoint_id fs, rep0), fs1)" "readable fs1" "same_log fs1 fs"
    "contents d fs1 = fold (override d) (checkpoint_payloads fs) (contents d fs)"
    using recover_checkpoint_ok [OF assms(1,2)] by blast
  have same: "fmlookup fs1 (PJournal i b) = fmlookup fs (PJournal i b)" "fmlookup fs1 PCheckpoint = fmlookup fs PCheckpoint" for i b
    using s1(3) by auto
  then have keys: "journal_keys fs1 = journal_keys fs" "commit_of fs1 = commit_of fs" "good_commit d fs1 = good_commit d fs"
    by (auto intro: journal_keys_cong simp: commit_of_def good_commit_def fun_eq_iff)
  then have "orderly d fs1 (checkpoint_id fs) (journal_keys fs)" using assms(3) same by (simp add: orderly_def)
  from recover_journal_ok [OF s1(2) this, of rep0] obtain mlast rep fs' where
    r: "recover_journal d (journal_keys fs) (checkpoint_id fs, rep0) fs1 = (Inr (mlast, rep), fs')" "readable fs'"
      "contents d fs' = fold (\<lambda>k. override d (commit_of fs1 k)) (filter (\<lambda>k. checkpoint_id fs < fst k) (journal_keys fs)) (contents d fs1)"
      "all_settled (journal_keys fs) fs1 fs'" by blast
  show thesis
  proof (rule that)
    show "recover d fs = (Inr rep, fs')" using s1(1) r(1) keys(1) by (simp add: recover_def bindS_apply)
    show "contents d fs' = fold (override d) (plan fs) (contents d fs)"
      using r(3) s1(4) keys(2) by (simp add: plan_def fold_map comp_def)
    show "all_settled (journal_keys fs) fs fs'" using r(4) same by (simp add: all_settled_def)
  qed (rule r(2))
qed

section \<open>Commits are atomic\<close>

text \<open>
  A store at rest: everything that is read parses, every journal file is final and holds its
  commit, and the data files are up to date, so that replaying the log changes nothing.
\<close>
definition at_rest :: "digests \<Rightarrow> fs \<Rightarrow> bool" where
  "at_rest d fs = (readable fs \<and> good_checkpoint d fs \<and> (\<forall>k \<in> set (journal_keys fs). good_commit d fs k \<and> \<not> snd k) \<and>
     fold (override d) (plan fs) (contents d fs) = contents d fs)"

lemma fold_override_pointwise: "f x = g x \<Longrightarrow> fold (override d) ps f x = fold (override d) ps g x"
proof (induction ps arbitrary: f g)
  case (Cons p ps)
  have "override d p f x = override d p g x"
    using Cons.prems by (simp add: override_def split: option.split)
  then have "fold (override d) ps (override d p f) x = fold (override d) ps (override d p g) x" by (rule Cons.IH)
  then show ?case by simp
qed simp

lemma fold_override_unassigned:
  "\<forall>p \<in> set ps. assigned d p x = None \<Longrightarrow> fold (override d) ps f x = f x"
proof (induction ps arbitrary: f)
  case (Cons p ps)
  then have "override d p f x = f x" by (simp add: override_def)
  with Cons show ?case by simp
qed simp

lemma fold_override_assigned:
  "\<exists>p \<in> set ps. assigned d p x \<noteq> None \<Longrightarrow> fold (override d) ps f x = fold (override d) ps g x"
proof (induction ps arbitrary: f g)
  case (Cons p ps)
  show ?case
  proof (cases "assigned d p x")
    case None
    with Cons show ?thesis by simp
  next
    case (Some v)
    then have "override d p f x = override d p g x" by (simp add: override_def)
    then show ?thesis by (simp add: fold_override_pointwise [of "override d p f" x "override d p g"])
  qed
qed simp

lemma stable_suffix:
  assumes "fold (override d) (ps @ qs) f = f"
  shows "fold (override d) qs f = f"
proof
  fix x
  show "fold (override d) qs f x = f x"
  proof (cases "\<exists>q \<in> set qs. assigned d q x \<noteq> None")
    case True
    then have "fold (override d) qs f x = fold (override d) qs (fold (override d) ps f) x"
      by (rule fold_override_assigned)
    with assms show ?thesis by simp
  qed (simp add: fold_override_unassigned)
qed

lemma replay_commit:
  assumes "fold (override d) ps f = f" "\<And>x. assigned d p x = None \<Longrightarrow> g x = f x"
  shows "fold (override d) (ps @ [p]) g = override d p f"
proof
  fix x
  have "fold (override d) ps g x = f x" if "assigned d p x = None"
    using fold_override_pointwise [of g x f d ps, OF assms(2) [OF that]] unfolding assms(1) .
  then show "fold (override d) (ps @ [p]) g x = override d p f x"
    by (cases "assigned d p x") (simp_all add: override_def)
qed

lemma commit_payload_ok:
  assumes "readable fs"
  obtains payload where "build_commit_payload fs t = Inr payload" "cp_transaction payload = t" "cp_schema_version payload = 1"
proof -
  have "\<exists>m. load_node_index_manifest fs n = Inr m" for n
    using assms unfolding readable_def load_node_index_manifest_def
    by (cases "fmlookup fs (PNodeIndex n)") (fastforce dest: spec)+
  then have "\<exists>r. collect_removals fs ms = Inr r" for ms
  proof (induction ms)
    case (Cons m ms)
    obtain n manifest where "m = (n, manifest)" by fastforce
    with Cons show ?case by (metis collect_removals.simps(2) old.sum.simps(6))
  qed simp
  then obtain r where "collect_removals fs (sorted_list_of_fmap (tx_node_indexes t)) = Inr r" by blast
  then have "build_commit_payload fs t = Inr \<lparr> cp_schema_version = 1, cp_transaction = t, cp_direct_index_removals = remdups_adj (sort r) \<rparr>"
    by (simp add: build_commit_payload_def)
  then show thesis by (rule that) simp_all
qed

text \<open>The index entries of a transaction are filed under the keys of their values.\<close>
definition transaction_ok :: "storage_transaction \<Rightarrow> bool" where
  "transaction_ok t = (\<forall>(k, e) \<in> set (listed_entries t). entry_ok e)"

text \<open>The transaction is newer than everything in the log.\<close>
definition fresh :: "storage_transaction \<Rightarrow> fs \<Rightarrow> bool" where
  "fresh t fs = (checkpoint_id fs < tx_id t \<and> (\<forall>k \<in> set (journal_keys fs). fst k < tx_id t))"

lemma orderly_at_rest:
  assumes "\<forall>k \<in> set (journal_keys fs). good_commit d fs k \<and> \<not> snd k"
  shows "orderly d fs mlast (journal_keys fs)"
proof -
  have "sorted_wrt (\<lambda>a b. fst a < fst b) ks" if "sorted_wrt (<) ks" "\<forall>k \<in> set ks. \<not> snd k" for ks :: "(u64 \<times> bool) list"
    using that by (induction ks) (auto simp: less_prod_def)
  moreover have "sorted_wrt (<) (journal_keys fs)" by simp
  ultimately show ?thesis using assms by (auto simp: orderly_def)
qed

lemma log_cong:
  assumes "fmlookup a PCheckpoint = fmlookup b PCheckpoint"
    and "\<And>i pending. fmlookup a (PJournal i pending) = fmlookup b (PJournal i pending)"
  shows "journal_keys a = journal_keys b" "plan a = plan b" "good_commit d a k = good_commit d b k"
    "good_checkpoint d a = good_checkpoint d b" "checkpoint_id a = checkpoint_id b"
proof -
  show k: "journal_keys a = journal_keys b" using assms(2) by (rule journal_keys_cong)
  have c: "commit_of a = commit_of b" by (simp add: commit_of_def assms(2) fun_eq_iff)
  show "plan a = plan b" "good_commit d a k = good_commit d b k" "good_checkpoint d a = good_checkpoint d b"
    "checkpoint_id a = checkpoint_id b"
    by (simp_all add: plan_def checkpoint_id_def checkpoint_payloads_def k c good_commit_def good_checkpoint_def assms)
qed

lemma recover_at_rest:
  assumes "at_rest d fs"
  obtains rep fs' where "recover d fs = (Inr rep, fs')" "at_rest d fs'" "contents d fs' = contents d fs"
    "fmlookup fs' PCheckpoint = fmlookup fs PCheckpoint" "journal_keys fs' = journal_keys fs"
proof -
  have f: "\<forall>k \<in> set (journal_keys fs). good_commit d fs k \<and> \<not> snd k" using assms by (simp add: at_rest_def)
  obtain rep fs' where r: "recover d fs = (Inr rep, fs')" "readable fs'"
    "contents d fs' = fold (override d) (plan fs) (contents d fs)" "all_settled (journal_keys fs) fs fs'"
    using recover_ok assms orderly_at_rest [OF f] unfolding at_rest_def by blast
  have "(i, True) \<notin> set (journal_keys fs)" for i using f by auto
  then have j: "fmlookup fs' (PJournal i b) = fmlookup fs (PJournal i b)" for i b
    using r(4) unfolding all_settled_def by (cases b) simp_all
  have c: "fmlookup fs' PCheckpoint = fmlookup fs PCheckpoint" using r(4) by (simp add: all_settled_def)
  have same: "contents d fs' = contents d fs" using r(3) assms by (simp add: at_rest_def)
  have "at_rest d fs'"
    using assms r(2) unfolding at_rest_def log_cong [OF c j] same by simp
  from that [OF r(1) this same c log_cong(1) [OF c j]] show thesis .
qed

text \<open>A state in the middle of a commit: its journal file is pending and its writes are partly done.\<close>
definition in_commit :: "digests \<Rightarrow> segment_commit_payload \<Rightarrow> fs \<Rightarrow> fs \<Rightarrow> bool" where
  "in_commit d payload fs fs1 =
    (readable fs1 \<and> fmlookup fs1 PCheckpoint = fmlookup fs PCheckpoint \<and>
     (\<forall>i b. fmlookup fs1 (PJournal i b) =
       (if b \<and> i = tx_id (cp_transaction payload) then Some (JournalFile (commit_record_for_payload d payload))
        else fmlookup fs (PJournal i b))) \<and>
     (\<forall>x. assigned d payload x = None \<longrightarrow> contents d fs1 x = contents d fs x))"

text \<open>The log with one more commit.\<close>
lemma journal_keys_commit:
  assumes "\<And>j b. fmlookup fs1 (PJournal j b) = (if b = pending \<and> j = i then Some c else fmlookup fs (PJournal j b))"
    and "\<forall>k \<in> set (journal_keys fs). fst k < i"
  shows "journal_keys fs1 = journal_keys fs @ [(i, pending)]"
proof (rule sorted_distinct_set_unique)
  show "set (journal_keys fs1) = set (journal_keys fs @ [(i, pending)])"
    by (rule set_eqI) (auto simp: set_journal_keys assms(1) split: if_splits)
  show "sorted (journal_keys fs @ [(i, pending)])"
    using assms(2) by (fastforce simp: sorted_append less_eq_prod_def)
  show "distinct (journal_keys fs @ [(i, pending)])"
    using assms(2) by fastforce
qed simp_all

lemma plan_commit:
  assumes "\<And>j b. fmlookup fs1 (PJournal j b) =
      (if b = pending \<and> j = i then Some (JournalFile (commit_record_for_payload d payload)) else fmlookup fs (PJournal j b))"
    and "fmlookup fs1 PCheckpoint = fmlookup fs PCheckpoint" "fresh t fs" "i = tx_id t"
  shows "plan fs1 = plan fs @ [payload]"
proof -
  have new: "\<And>k. k \<in> set (journal_keys fs) \<Longrightarrow> fst k < i" "checkpoint_id fs < i" using assms(3,4) by (auto simp: fresh_def)
  have "commit_of fs1 k = commit_of fs k" if "k \<in> set (journal_keys fs)" for k
    using new(1) [OF that] assms(1) by (auto simp: commit_of_def)
  moreover have "commit_of fs1 (i, pending) = payload"
    by (simp add: commit_of_def assms(1) commit_record_for_payload_def)
  moreover have "checkpoint_id fs1 = checkpoint_id fs" "checkpoint_payloads fs1 = checkpoint_payloads fs"
    by (simp_all add: checkpoint_id_def checkpoint_payloads_def assms(2))
  ultimately show ?thesis
    using new by (simp add: plan_def journal_keys_commit [OF assms(1)])
qed

text \<open>A store at rest with one more commit in its log and in its data is at rest.\<close>
lemma committed_at_rest:
  assumes "at_rest d fs" "fresh t fs" "payload_ok payload" "cp_transaction payload = t" "cp_schema_version payload = 1"
    and "readable fs2" "fmlookup fs2 PCheckpoint = fmlookup fs PCheckpoint"
    and "\<And>j b. fmlookup fs2 (PJournal j b) =
      (if b = False \<and> j = tx_id t then Some (JournalFile (commit_record_for_payload d payload)) else fmlookup fs (PJournal j b))"
    and "contents d fs2 = override d payload (contents d fs)"
  shows "at_rest d fs2"
proof -
  have new: "k \<in> set (journal_keys fs) \<Longrightarrow> fst k < tx_id t" for k using assms(2) by (simp add: fresh_def)
  have keys: "journal_keys fs2 = journal_keys fs @ [(tx_id t, False)]"
    by (rule journal_keys_commit [OF assms(8)]) (use new in blast)
  have "good_commit d fs2 k \<and> \<not> snd k" if "k \<in> set (journal_keys fs)" for k
  proof -
    have "fst k \<noteq> tx_id t" using new [OF that] by simp
    then have "good_commit d fs2 k = good_commit d fs k" by (intro good_commit_cong) (simp add: assms(8))
    with that assms(1) show ?thesis by (simp add: at_rest_def)
  qed
  moreover have "good_commit d fs2 (tx_id t, False)" using assms(3-5,8) by (auto simp: good_commit_def)
  moreover have "fold (override d) (plan fs @ [payload]) (contents d fs2) = contents d fs2"
    unfolding assms(9) using assms(1) by (intro replay_commit) (simp_all add: at_rest_def override_def)
  then have "fold (override d) (plan fs2) (contents d fs2) = contents d fs2"
    unfolding plan_commit [OF assms(8,7,2) refl] .
  moreover have "good_checkpoint d fs2" using assms(1,7) by (simp add: at_rest_def good_checkpoint_def)
  ultimately show ?thesis using assms(6) keys by (auto simp: at_rest_def)
qed

lemma orderly_in_commit:
  assumes "at_rest d fs" "fresh t fs" "payload_ok payload" "cp_transaction payload = t" "cp_schema_version payload = 1"
    and "in_commit d payload fs fs1"
  shows "orderly d fs1 (checkpoint_id fs1) (journal_keys fs1)" "journal_keys fs1 = journal_keys fs @ [(tx_id t, True)]"
proof -
  let ?i = "tx_id t"
  have log: "fmlookup fs1 (PJournal j b) =
      (if b = True \<and> j = ?i then Some (JournalFile (commit_record_for_payload d payload)) else fmlookup fs (PJournal j b))" for j b
    using assms(4,6) by (simp add: in_commit_def)
  have new: "k \<in> set (journal_keys fs) \<Longrightarrow> fst k < ?i" for k using assms(2) by (simp add: fresh_def)
  show keys: "journal_keys fs1 = journal_keys fs @ [(?i, True)]"
    by (rule journal_keys_commit [OF log]) (use new in blast)
  have "checkpoint_id fs1 < ?i" using assms(2,6) by (simp add: fresh_def in_commit_def checkpoint_id_def)
  moreover have "(?i, False) \<notin> set (journal_keys fs)" using new by fastforce
  then have "fmlookup fs1 (PJournal ?i False) = None" by (simp add: log set_journal_keys)
  moreover have "good_commit d fs1 (?i, True)" using assms(3-5) log by (auto simp: good_commit_def)
  moreover have "good_commit d fs1 k \<and> \<not> snd k" if "k \<in> set (journal_keys fs)" for k
    using that new [OF that] assms(1) good_commit_cong [of fs1 k fs d] by (auto simp: at_rest_def log)
  moreover have "sorted_wrt (\<lambda>a b. fst a < fst b) (journal_keys fs)"
    using orderly_at_rest [of fs d 0] assms(1) by (auto simp: at_rest_def orderly_def)
  ultimately show "orderly d fs1 (checkpoint_id fs1) (journal_keys fs1)"
    using new by (auto simp: orderly_def keys sorted_wrt_append)
qed

lemma recover_in_commit:
  assumes "at_rest d fs" "fresh t fs" "payload_ok payload" "cp_transaction payload = t" "cp_schema_version payload = 1"
    and "in_commit d payload fs fs1"
  obtains rep fs' where "recover d fs1 = (Inr rep, fs')" "at_rest d fs'" "contents d fs' = override d payload (contents d fs)"
proof -
  let ?i = "tx_id t"
  have c: "fmlookup fs1 PCheckpoint = fmlookup fs PCheckpoint" and log: "fmlookup fs1 (PJournal j b) =
      (if b = True \<and> j = ?i then Some (JournalFile (commit_record_for_payload d payload)) else fmlookup fs (PJournal j b))" for j b
    using assms(4,6) by (simp_all add: in_commit_def)
  have "good_checkpoint d fs1" using assms(1) c by (simp add: at_rest_def good_checkpoint_def)
  moreover note orderly_in_commit [OF assms]
  ultimately obtain rep fs' where r: "recover d fs1 = (Inr rep, fs')" "readable fs'"
    "contents d fs' = fold (override d) (plan fs1) (contents d fs1)" "all_settled (journal_keys fs @ [(?i, True)]) fs1 fs'"
    using recover_ok [of fs1 d] assms(6) unfolding in_commit_def by metis
  have "contents d fs' = fold (override d) (plan fs @ [payload]) (contents d fs1)"
    unfolding r(3) plan_commit [OF log c assms(2) refl] ..
  also have "\<dots> = override d payload (contents d fs)"
    using assms(1,6) by (intro replay_commit) (auto simp: at_rest_def in_commit_def)
  finally have fin: "contents d fs' = override d payload (contents d fs)" .
  have no: "(j, True) \<notin> set (journal_keys fs)" for j using assms(1) by (auto simp: at_rest_def)
  then have "fmlookup fs (PJournal j True) = None" for j by (simp add: set_journal_keys)
  then have "fmlookup fs' (PJournal j b) =
      (if b = False \<and> j = ?i then Some (JournalFile (commit_record_for_payload d payload)) else fmlookup fs (PJournal j b))" for j b
    using r(4) no by (cases b) (auto simp: all_settled_def log)
  moreover have "fmlookup fs' PCheckpoint = fmlookup fs PCheckpoint" using r(4) c by (simp add: all_settled_def)
  ultimately have "at_rest d fs'" using committed_at_rest [OF assms(1-5) r(2)] fin by blast
  from that [OF r(1) this fin] show thesis .
qed

lemma set_drop_distinct:
  assumes "distinct xs"
  shows "set (drop m xs) = set xs - set (take m xs)"
proof -
  have "set xs = set (take m xs) \<union> set (drop m xs)" by (metis append_take_drop_id set_append)
  moreover have "set (take m xs) \<inter> set (drop m xs) = {}" using assms by (simp add: set_take_disj_set_drop_if_distinct)
  ultimately show ?thesis by blast
qed

definition prune_steps :: "(u64 \<times> bool) list \<Rightarrow> step list" where
  "prune_steps ks = map (\<lambda>(i, pending). remove_file (PJournal i pending)) ks"

lemma lookup_pruned:
  "fmlookup (run (prune_steps ks) fs) p =
    (if (\<exists>k \<in> set ks. p = PJournal (fst k) (snd k)) then None else fmlookup fs p)"
proof -
  have eq: "concat (prune_steps ks) = map (\<lambda>k. (PJournal (fst k) (snd k), None)) ks"
    unfolding prune_steps_def by (induction ks) (auto simp: remove_file_def)
  have last: "map_of (rev (concat (prune_steps ks))) p =
      (if (\<exists>k \<in> set ks. p = PJournal (fst k) (snd k)) then Some None else None)"
    unfolding eq by (induction ks) (auto simp: map_add_def split: option.splits)
  show ?thesis unfolding lookup_run last by simp
qed

lemma journal_in_list: "(\<exists>k \<in> set ks. PJournal i b = PJournal (fst k) (snd k)) \<longleftrightarrow> (i, b) \<in> set ks"
  by (auto intro: bexI [of _ "(i, b)"])

lemma journal_keys_pruned:
  "set (journal_keys (run (prune_steps ks) fs)) = set (journal_keys fs) - set ks"
proof (rule set_eqI)
  fix k :: "u64 \<times> bool"
  obtain i b where k: "k = (i, b)" by fastforce
  show "k \<in> set (journal_keys (run (prune_steps ks) fs)) \<longleftrightarrow> k \<in> set (journal_keys fs) - set ks"
    unfolding k set_journal_keys lookup_pruned journal_in_list Diff_iff by simp
qed

lemma prune_at_rest:
  assumes "at_rest d fs" "fmlookup fs PCheckpoint = None"
  shows "at_rest d (run (prune_steps (take m (journal_keys fs))) fs)"
    and "contents d (run (prune_steps (take m (journal_keys fs))) fs) = contents d fs"
proof -
  let ?ks = "journal_keys fs" and ?fs = "run (prune_steps (take m (journal_keys fs))) fs"
  show same: "contents d ?fs = contents d fs" by (rule contents_log) (auto simp: lookup_pruned)
  have "set (journal_keys ?fs) = set (drop m ?ks)"
    unfolding set_drop_distinct [OF sorted_journal_keys(2)] by (rule journal_keys_pruned)
  then have keys: "journal_keys ?fs = drop m ?ks"
    by (intro sorted_distinct_set_unique) (simp_all add: sorted_wrt_drop)
  have same_file: "fmlookup ?fs (PJournal (fst k) (snd k)) = fmlookup fs (PJournal (fst k) (snd k))" if "k \<in> set (drop m ?ks)" for k
    using that unfolding set_drop_distinct [OF sorted_journal_keys(2)] lookup_pruned journal_in_list by simp
  have commits: "commit_of ?fs k = commit_of fs k" "good_commit d ?fs k = good_commit d fs k" if "k \<in> set (drop m ?ks)" for k
    using same_file [OF that] by (simp_all add: commit_of_def good_commit_def)
  have none: "checkpoint_id fs = 0" "checkpoint_payloads fs = []" "checkpoint_id ?fs = 0" "checkpoint_payloads ?fs = []"
    by (simp_all add: checkpoint_id_def checkpoint_payloads_def assms(2) lookup_pruned)
  have "filter (\<lambda>k. 0 < fst k) ?ks = filter (\<lambda>k. 0 < fst k) (take m ?ks) @ filter (\<lambda>k. 0 < fst k) (drop m ?ks)"
    by (metis append_take_drop_id filter_append)
  moreover have "map (commit_of ?fs) (filter (\<lambda>k. 0 < fst k) (drop m ?ks)) = map (commit_of fs) (filter (\<lambda>k. 0 < fst k) (drop m ?ks))"
    by (rule map_cong) (simp_all add: commits(1))
  ultimately have split: "plan fs = map (commit_of fs) (filter (\<lambda>k. 0 < fst k) (take m ?ks)) @ plan ?fs"
    unfolding plan_def none keys by simp
  have "fold (override d) (plan fs) (contents d fs) = contents d fs" using assms(1) by (simp add: at_rest_def)
  then have "fold (override d) (map (commit_of fs) (filter (\<lambda>k. 0 < fst k) (take m ?ks)) @ plan ?fs) (contents d fs) = contents d fs"
    unfolding split .
  then have "fold (override d) (plan ?fs) (contents d ?fs) = contents d ?fs"
    unfolding same by (rule stable_suffix)
  moreover have "readable ?fs"
    by (rule readable_log [where b = fs]) (use assms(1) in \<open>auto simp: lookup_pruned at_rest_def\<close>)
  moreover have "\<forall>k \<in> set (journal_keys ?fs). good_commit d ?fs k \<and> \<not> snd k"
    unfolding keys using assms(1) commits(2) in_set_dropD [of _ m ?ks] by (auto simp: at_rest_def)
  moreover have "good_checkpoint d ?fs" by (simp add: good_checkpoint_def lookup_pruned assms(2))
  ultimately show "at_rest d ?fs" unfolding at_rest_def by blast
qed

section \<open>The steps of a commit\<close>

lemma lookup_write: "fmlookup (run [write_file p c] fs) q = (if q = p then Some c else fmlookup fs q)"
  by (simp add: run_def write_file_def)

lemma lookup_rename:
  "from \<noteq> to \<Longrightarrow> fmlookup (run [rename_file fs from to] fs) q =
    (if q = to then fmlookup fs from else if q = from then None else fmlookup fs q)"
  by (simp add: run_def rename_file_def)

lemma commit_steps:
  assumes "at_rest d fs" "fresh t fs" "transaction_ok t"
  obtains payload steps where "build_commit_payload fs t = Inr payload" "cp_transaction payload = t" "cp_schema_version payload = 1"
    "payload_ok payload"
    "materialize_steps d (run [write_file (PJournal (tx_id t) True) (JournalFile (commit_record_for_payload d payload))] fs) payload = (steps, None)"
    "\<And>k. in_commit d payload fs
      (run (write_file (PJournal (tx_id t) True) (JournalFile (commit_record_for_payload d payload)) # take k steps) fs)"
    "contents d (run (write_file (PJournal (tx_id t) True) (JournalFile (commit_record_for_payload d payload)) # steps) fs) =
      override d payload (contents d fs)"
proof -
  obtain payload where b: "build_commit_payload fs t = Inr payload" "cp_transaction payload = t" "cp_schema_version payload = 1"
    using commit_payload_ok assms(1) unfolding at_rest_def by metis
  have ok: "payload_ok payload" using assms(3) b(2) by (simp add: payload_ok_def transaction_ok_def)
  let ?w = "write_file (PJournal (tx_id t) True) (JournalFile (commit_record_for_payload d payload))"
  let ?fp = "run [?w] fs"
  have read: "readable ?fp" by (rule readable_log [where b = fs]) (use assms(1) in \<open>auto simp: lookup_write at_rest_def\<close>)
  have same: "contents d ?fp = contents d fs" by (rule contents_log) (auto simp: lookup_write)
  obtain steps where m: "materialize_steps d ?fp payload = (steps, None)"
    "\<forall>w \<in> set (concat steps). commit_write d ?fp payload w"
    "contents d (run steps ?fp) = override d payload (contents d ?fp)"
    using materialize_ok [OF read ok] by blast
  have "in_commit d payload fs (run (take k steps) ?fp)" for k
  proof -
    have "\<forall>w \<in> set (concat (take k steps)). commit_write d ?fp payload w"
      using m(2) set_concat_take [of k steps] by blast
    note part = commit_writes_partial [OF this read]
    have log: "fmlookup (run (take k steps) ?fp) (PJournal i b) = fmlookup ?fp (PJournal i b)"
      "fmlookup (run (take k steps) ?fp) PCheckpoint = fmlookup ?fp PCheckpoint" for i b
      using part(2) by (auto simp only: same_logD)
    show ?thesis unfolding in_commit_def log lookup_write b(2) using part(1,3) by (simp add: same)
  qed
  then have "in_commit d payload fs (run (?w # take k steps) fs)" for k
    using run_append [of "[?w]" "take k steps" fs] by simp
  moreover have "contents d (run (?w # steps) fs) = override d payload (contents d fs)"
    using run_append [of "[?w]" steps fs] m(3) same by simp
  ultimately show thesis using that [OF b ok m(1)] by blast
qed

lemma finalize_at_rest:
  assumes "at_rest d fs" "fresh t fs" "payload_ok payload" "cp_transaction payload = t" "cp_schema_version payload = 1"
    and "in_commit d payload fs fs1" "contents d fs1 = override d payload (contents d fs)"
  defines "fs2 \<equiv> run [rename_file fs1 (PJournal (tx_id t) True) (PJournal (tx_id t) False)] fs1"
  shows "at_rest d fs2" "contents d fs2 = override d payload (contents d fs)" "fmlookup fs2 PCheckpoint = fmlookup fs PCheckpoint"
proof -
  have look: "fmlookup fs2 q = (if q = PJournal (tx_id t) False then fmlookup fs1 (PJournal (tx_id t) True)
      else if q = PJournal (tx_id t) True then None else fmlookup fs1 q)" for q
    unfolding fs2_def by (rule lookup_rename) simp
  have read: "readable fs2" by (rule readable_log [where b = fs1]) (use assms(6) in \<open>auto simp: look in_commit_def\<close>)
  have "contents d fs2 = contents d fs1" by (rule contents_log) (auto simp: look)
  with assms(7) show same: "contents d fs2 = override d payload (contents d fs)" by simp
  show c: "fmlookup fs2 PCheckpoint = fmlookup fs PCheckpoint" using assms(6) by (simp add: look in_commit_def)
  have "(tx_id t, True) \<notin> set (journal_keys fs)" using assms(2) by (fastforce simp: fresh_def)
  then have "fmlookup fs (PJournal (tx_id t) True) = None" by (simp add: set_journal_keys)
  then have "fmlookup fs2 (PJournal j b) =
      (if b = False \<and> j = tx_id t then Some (JournalFile (commit_record_for_payload d payload)) else fmlookup fs (PJournal j b))" for j b
    using assms(4,6) by (auto simp: look in_commit_def)
  then show "at_rest d fs2" using committed_at_rest [OF assms(1-5) read c _ same] by blast
qed

lemma partly_pruned_at_rest:
  assumes "at_rest d fs" "durability = Full \<or> fmlookup fs PCheckpoint = None"
  shows "at_rest d (run (prune_steps (take m (if durability = Full then [] else take n (journal_keys fs)))) fs) \<and>
    contents d (run (prune_steps (take m (if durability = Full then [] else take n (journal_keys fs)))) fs) = contents d fs"
proof (cases "durability = Full")
  case True
  then show ?thesis using assms(1) by (simp add: prune_steps_def)
next
  case False
  with assms(2) have "fmlookup fs PCheckpoint = None" by simp
  from prune_at_rest [OF assms(1) this, of "min m n"] False show ?thesis by simp
qed

text \<open>The steps of \<open>apply_transaction\<close>: a journal file, the writes, the rename, and pruning.\<close>
lemma apply_steps_shape:
  assumes "at_rest d fs" "fresh t fs" "transaction_ok t" "durability = Full \<or> fmlookup fs PCheckpoint = None"
  obtains payload w steps finish pruned where
    "apply_steps d durability retention t fs = (w # steps @ [finish] @ prune_steps pruned, None)"
    "cp_transaction payload = t" "cp_schema_version payload = 1" "payload_ok payload"
    "\<And>k. in_commit d payload fs (run (w # take k steps) fs)"
    "\<And>m. at_rest d (run (prune_steps (take m pruned)) (run (w # steps @ [finish]) fs))"
    "\<And>m. contents d (run (prune_steps (take m pruned)) (run (w # steps @ [finish]) fs)) = override d payload (contents d fs)"
proof -
  obtain payload steps where c: "build_commit_payload fs t = Inr payload" "cp_transaction payload = t" "cp_schema_version payload = 1"
    "payload_ok payload"
    "materialize_steps d (run [write_file (PJournal (tx_id t) True) (JournalFile (commit_record_for_payload d payload))] fs) payload = (steps, None)"
    "\<And>k. in_commit d payload fs
      (run (write_file (PJournal (tx_id t) True) (JournalFile (commit_record_for_payload d payload)) # take k steps) fs)"
    "contents d (run (write_file (PJournal (tx_id t) True) (JournalFile (commit_record_for_payload d payload)) # steps) fs) =
      override d payload (contents d fs)"
    using commit_steps [OF assms(1-3)] by metis
  let ?w = "write_file (PJournal (tx_id t) True) (JournalFile (commit_record_for_payload d payload))"
  let ?f = "rename_file (run (?w # steps) fs) (PJournal (tx_id t) True) (PJournal (tx_id t) False)"
  let ?fs2 = "run (?w # steps @ [?f]) fs"
  have "?fs2 = run [?f] (run (?w # steps) fs)" using run_append [of "?w # steps" "[?f]" fs] by simp
  then have fin: "at_rest d ?fs2" "contents d ?fs2 = override d payload (contents d fs)" "fmlookup ?fs2 PCheckpoint = fmlookup fs PCheckpoint"
    using finalize_at_rest [OF assms(1,2) c(4,2,3)] c(6) [of "length steps"] c(7) by simp_all
  have final: "filter (\<lambda>(i, pending). \<not> pending) (journal_keys ?fs2) = journal_keys ?fs2"
    using fin(1) by (auto simp: at_rest_def filter_id_conv)
  let ?pruned = "if durability = Full then [] else take (length (journal_keys ?fs2) - retention) (journal_keys ?fs2)"
  have prune: "prune_journal durability retention ?fs2 = prune_steps ?pruned"
    unfolding prune_journal_def prune_journal_with_report_def Let_def final prune_steps_def by simp
  have "at_rest d (run (prune_steps (take m ?pruned)) ?fs2) \<and> contents d (run (prune_steps (take m ?pruned)) ?fs2) = contents d ?fs2" for m
    by (rule partly_pruned_at_rest [OF fin(1)]) (use fin(3) assms(4) in simp)
  moreover have "apply_steps d durability retention t fs = (?w # steps @ [?f] @ prune_steps ?pruned, None)"
    unfolding apply_steps_def c(1) using c(5) prune by (simp add: Let_def)
  ultimately show thesis using that [of ?w steps ?f ?pruned payload, OF _ c(2,3,4,6)] fin(2) by simp
qed

lemma take_segments:
  "take k (w # steps @ [finish] @ pruned) =
    (if k = 0 then [] else if k \<le> Suc (length steps) then w # take (k - 1) steps
     else (w # steps @ [finish]) @ take (k - Suc (Suc (length steps))) pruned)"
  by (cases k) (auto simp: take_Cons' Suc_diff_Suc split: nat.splits)

lemma map_of_writes:
  assumes "inj p" "distinct (map fst xs)"
  shows "map_of (rev (concat (map (\<lambda>(n, v). write_file (p n) (c v)) xs))) (p n) = map_option (\<lambda>v. Some (c v)) (map_of xs n)"
  using assms(2)
proof (induction xs)
  case (Cons x xs)
  obtain m v where x: "x = (m, v)" by fastforce
  have "map_of xs m = None" using Cons.prems x by (simp add: map_of_eq_None_iff)
  with Cons x assms(1) show ?case by (auto simp: write_file_def map_add_def inj_eq split: option.splits)
qed simp

lemma assigned_node:
  "assigned d payload (File (PNode n)) = map_option (\<lambda>st. Some (VFile (NodeFile st))) (fmlookup (tx_nodes (cp_transaction payload)) n)"
proof -
  let ?t = "cp_transaction payload"
  have inj: "inj PNode" by (simp add: inj_def)
  have "map_of (rev (concat (map (\<lambda>(n, m). write_file (PAuth n) (AuthFile m)) (sorted_list_of_fmap (tx_auth_meta ?t))))) (PNode n) = None"
    "map_of (rev (concat (record_steps d ?t))) (PNode n) = None"
    by (auto simp: map_of_rev_None write_file_def remove_file_def record_steps_def)
  with map_of_writes [OF inj, of "sorted_list_of_fmap (tx_nodes ?t)" NodeFile n] show ?thesis
    by (simp add: assigned_def plain_writes_def node_steps_def map_add_def option.map_comp comp_def)
qed

lemma crash_recovers:
  assumes "at_rest d fs" "fresh t fs" "payload_ok payload" "cp_transaction payload = t" "cp_schema_version payload = 1"
    and commit: "\<And>k. in_commit d payload fs (run (w # take k steps) fs)"
    and rest: "\<And>m. at_rest d (run (prune_steps (take m pruned)) (run (w # steps @ [finish]) fs))"
    and new: "\<And>m. contents d (run (prune_steps (take m pruned)) (run (w # steps @ [finish]) fs)) = override d payload (contents d fs)"
  shows "\<exists>report fs'. recover d (run (take k (w # steps @ [finish] @ prune_steps pruned)) fs) = (Inr report, fs') \<and> at_rest d fs' \<and>
    contents d fs' = (if k = 0 then contents d fs else override d payload (contents d fs))"
proof -
  consider "k = 0" | "k \<noteq> 0" "k \<le> Suc (length steps)" | "k > Suc (length steps)" by linarith
  then show ?thesis
  proof cases
    case 1
    then show ?thesis using recover_at_rest [OF assms(1)] by (metis run_Nil take0)
  next
    case 2
    then have "run (take k (w # steps @ [finish] @ prune_steps pruned)) fs = run (w # take (k - 1) steps) fs"
      unfolding take_segments by simp
    with 2 show ?thesis
      using recover_in_commit [OF assms(1-5) commit [of "k - 1"]] by metis
  next
    case 3
    let ?m = "k - Suc (Suc (length steps))"
    have "take ?m (prune_steps pruned) = prune_steps (take ?m pruned)" by (simp add: prune_steps_def take_map)
    with 3 have run: "run (take k (w # steps @ [finish] @ prune_steps pruned)) fs =
        run (prune_steps (take ?m pruned)) (run (w # steps @ [finish]) fs)"
      using run_append [of "w # steps @ [finish]" "take ?m (prune_steps pruned)" fs] unfolding take_segments by simp
    obtain report fs' where "recover d (run (prune_steps (take ?m pruned)) (run (w # steps @ [finish]) fs)) = (Inr report, fs')"
      "at_rest d fs'" "contents d fs' = contents d (run (prune_steps (take ?m pruned)) (run (w # steps @ [finish]) fs))"
      using recover_at_rest [OF rest] by blast
    with 3 show ?thesis unfolding run new by auto
  qed
qed

lemma get_node_override:
  assumes "contents d fs' = override d payload (contents d fs)"
  shows "get_node fs' n = (case fmlookup (tx_nodes (cp_transaction payload)) n of Some st \<Rightarrow> Inr (Some st) | None \<Rightarrow> get_node fs n)"
proof -
  have "map_option VFile (fmlookup fs' (PNode n)) =
      (case fmlookup (tx_nodes (cp_transaction payload)) n of Some st \<Rightarrow> Some (VFile (NodeFile st)) | None \<Rightarrow> map_option VFile (fmlookup fs (PNode n)))"
    using fun_cong [OF assms, of "File (PNode n)"]
    by (simp add: contents_def override_def assigned_node split: option.splits)
  then show ?thesis by (auto simp: get_node_def split: option.splits)
qed


lemma journal_keys_empty [simp]: "journal_keys fmempty = []"
proof -
  have "k \<notin> set (journal_keys fmempty)" for k by (cases k) (simp add: set_journal_keys)
  then show ?thesis by (metis list.set_intros(1) neq_Nil_conv)
qed

lemma listed_lookup: "(key, e) \<in> set (listed_entries t) \<Longrightarrow> fmlookup (tx_direct_indexes t) key = Some e"
  by (auto simp: listed_entries_def List.map_filter_def)

lemma empty_at_rest: "at_rest d fmempty"
  by (simp add: at_rest_def readable_def good_checkpoint_def plan_def checkpoint_payloads_def)

text \<open>The transactions the database builds have well-formed index entries.\<close>
lemma fragments_keyed:
  "f \<in> set (fragments_of nodes n V) \<Longrightarrow> sortable_scalar_key (frag_value f) = Some (frag_sortable_key f)"
  "f \<in> set (field_fragments nodes fs V) \<Longrightarrow> sortable_scalar_key (frag_value f) = Some (frag_sortable_key f)"
proof (induction nodes n V and nodes fs V arbitrary: f and f rule: fragments_of_field_fragments.induct)
  case (1 nodes n V)
  then show ?case by (auto simp: fragments_of.simps split: if_splits)
next
  case (3 nodes field v fs V)
  then show ?case by (auto simp: scalar_fragment_def split: option.splits)
next
  case (4 nodes field target fs V)
  then show ?case by (auto simp: below_field_def)
qed auto

lemma index_of_fragments_ok:
  assumes "fmlookup (index_of_fragments n frs) key = Some e"
    and "\<And>f. f \<in> set frs \<Longrightarrow> sortable_scalar_key (frag_value f) = Some (frag_sortable_key f)"
  shows "entry_ok e"
proof -
  have "entry_ok e" if "fmlookup (fold (\<lambda>f. fmupd (fragment_key n f) (index_entry n f)) frs m) key = Some e"
    "\<And>e. fmlookup m key = Some e \<Longrightarrow> entry_ok e" for m
    using that assms(2)
  proof (induction frs arbitrary: m)
    case (Cons f frs)
    from Cons.prems(3) [of f] have f: "entry_ok (index_entry n f)" by (simp add: entry_ok_def index_entry_def)
    show ?case
      by (rule Cons.IH [of "fmupd (fragment_key n f) (index_entry n f) m"]) (use Cons.prems f in \<open>auto split: if_splits\<close>)
  qed simp
  from this [of fmempty] assms(1) show ?thesis by (simp add: index_of_fragments_def)
qed

lemma built_transaction_ok: "transaction_ok (build_storage_transaction i metadata nodes)"
proof -
  have entries: "entry_ok e" if "fmlookup (tx_direct_indexes (fst (fold (index_node nodes) ns (t, cache)))) key = Some e" "cache_ok nodes cache"
    "\<And>e. fmlookup (tx_direct_indexes t) key = Some e \<Longrightarrow> entry_ok e" for ns t cache key e
    using that
  proof (induction ns arbitrary: t cache)
    case (Cons a ns)
    obtain n st where a: "a = (n, st)" by fastforce
    obtain t1 cache1 where s: "index_node nodes (n, st) (t, cache) = (t1, cache1)" by fastforce
    note eff = index_node_effect [OF Cons.prems(2) s]
    show ?case
    proof (rule Cons.IH)
      show "fmlookup (tx_direct_indexes (fst (fold (index_node nodes) ns (t1, cache1)))) key = Some e"
        using Cons.prems(1) s a by simp
      show "entry_ok e'" if "fmlookup (tx_direct_indexes t1) key = Some e'" for e'
        using that Cons.prems(3) index_of_fragments_ok fragments_keyed(1) by (fastforce simp: eff(3) split: if_splits)
    qed (rule eff(1))
  qed simp
  have "entry_ok e" if "(key, e) \<in> set (listed_entries (build_storage_transaction i metadata nodes))" for key e
  proof (rule entries)
    show "fmlookup (tx_direct_indexes (fst (fold (index_node nodes) (sorted_list_of_fmap nodes)
      (\<lparr> tx_id = i, tx_metadata = metadata, tx_nodes = nodes, tx_node_indexes = fmempty,
         tx_direct_indexes = fmempty, tx_records = fmempty, tx_deleted_records = {||},
         tx_auth_meta = fmempty, tx_journal_ops = [] \<rparr>, fmempty)))) key = Some e"
      using listed_lookup [OF that] by (simp add: build_storage_transaction_def)
  qed (simp_all add: cache_ok_def)
  then show ?thesis by (auto simp: transaction_ok_def)
qed

lemma built_id:
  "tx_id (build_storage_transaction i metadata nodes) = i" "tx_nodes (build_storage_transaction i metadata nodes) = nodes"
proof -
  have "tx_id (fst (fold (index_node nodes) ns tc)) = tx_id (fst tc) \<and> tx_nodes (fst (fold (index_node nodes) ns tc)) = tx_nodes (fst tc)" for ns tc
    by (induction ns arbitrary: tc) (auto simp: index_node_def Let_def split_def split: option.splits)
  then show "tx_id (build_storage_transaction i metadata nodes) = i" "tx_nodes (build_storage_transaction i metadata nodes) = nodes"
    by (simp_all add: build_storage_transaction_def)
qed


section \<open>Lost writes\<close>

text \<open>
  With full durability the files a commit changes are not synced, only its journal file is.  The
  directory after a power failure has the log, but any file a logged commit wrote may be older,
  newer or missing.
\<close>
definition log_kept :: "digests \<Rightarrow> fs \<Rightarrow> fs \<Rightarrow> bool" where
  "log_kept d fs lost =
    (readable lost \<and> fmlookup lost PCheckpoint = fmlookup fs PCheckpoint \<and>
     (\<forall>i b. fmlookup lost (PJournal i b) = fmlookup fs (PJournal i b)) \<and>
     (\<forall>x. (\<forall>p \<in> set (plan fs). assigned d p x = None) \<longrightarrow> contents d lost x = contents d fs x))"

lemma replay_lost:
  assumes "fold (override d) ps f = f" "\<And>x. (\<forall>p \<in> set ps. assigned d p x = None) \<Longrightarrow> g x = f x"
  shows "fold (override d) ps g = f"
proof
  fix x
  show "fold (override d) ps g x = f x"
  proof (cases "\<forall>p \<in> set ps. assigned d p x = None")
    case True
    then show ?thesis by (simp add: fold_override_unassigned assms(2))
  next
    case False
    then have "fold (override d) ps g x = fold (override d) ps f x" by (intro fold_override_assigned) auto
    then show ?thesis unfolding assms(1) .
  qed
qed

text \<open>
  C18: The log restores lost writes.  If a store at rest keeps its checkpoint and journal but any of
  the files and index entries that a logged commit assigned are lost or replaced by older ones,
  recovery brings back exactly what the store held.
\<close>
theorem log_restores_lost_writes:
  assumes "at_rest d fs" "log_kept d fs lost"
  shows "\<exists>report fs'. recover d lost = (Inr report, fs') \<and> at_rest d fs' \<and> contents d fs' = contents d fs"
proof -
  have c: "fmlookup lost PCheckpoint = fmlookup fs PCheckpoint" and j: "fmlookup lost (PJournal i b) = fmlookup fs (PJournal i b)"
    and read: "readable lost" for i b
    using assms(2) by (simp_all add: log_kept_def)
  note log = log_cong [OF c j]
  have f: "\<forall>k \<in> set (journal_keys lost). good_commit d lost k \<and> \<not> snd k" using assms(1) by (simp add: at_rest_def log)
  have "good_checkpoint d lost" using assms(1) by (simp add: at_rest_def log)
  then obtain report fs' where r: "recover d lost = (Inr report, fs')" "readable fs'"
    "contents d fs' = fold (override d) (plan lost) (contents d lost)" "all_settled (journal_keys lost) lost fs'"
    using recover_ok [OF read _ orderly_at_rest [OF f]] by blast
  have same: "contents d fs' = contents d fs"
    unfolding r(3) log(2) by (rule replay_lost) (use assms in \<open>simp_all add: at_rest_def log_kept_def\<close>)
  have "(i, True) \<notin> set (journal_keys lost)" for i using f by auto
  then have j': "fmlookup fs' (PJournal i b) = fmlookup fs (PJournal i b)" for i b
    using r(4) j unfolding all_settled_def by (cases b) simp_all
  have c': "fmlookup fs' PCheckpoint = fmlookup fs PCheckpoint" using r(4) c by (simp add: all_settled_def)
  have "at_rest d fs'"
    using assms(1) r(2) unfolding at_rest_def log_cong [OF c' j'] same by simp
  with r(1) same show ?thesis by blast
qed

text \<open>A store with one commit, which wrote only the manifest.\<close>
definition demo_digests :: digests where
  "demo_digests = \<lparr> blake3_name = (\<lambda>_. ''h''), commit_digest = (\<lambda>_. ''c''), checkpoint_digest = (\<lambda>_. ''k'') \<rparr>"

definition demo_payload :: segment_commit_payload where
  "demo_payload = \<lparr> cp_schema_version = 1,
     cp_transaction = build_storage_transaction 1 (storage_metadata_new (with_actor 7 ''r'') [] 2) fmempty,
     cp_direct_index_removals = [] \<rparr>"

definition demo_log :: fs where
  "demo_log = fmap_of_list [(PJournal 1 False, JournalFile (commit_record_for_payload demo_digests demo_payload))]"

definition demo_store :: fs where
  "demo_store = fmupd PManifest (ManifestFile (tx_metadata (cp_transaction demo_payload))) demo_log"

lemma journal_keys_single:
  assumes "\<And>i b. fmlookup fs (PJournal i b) \<noteq> None \<longleftrightarrow> i = j \<and> b = c"
  shows "journal_keys fs = [(j, c)]"
proof (rule sorted_distinct_set_unique)
  show "set (journal_keys fs) = set [(j, c)]" using assms by (auto simp: set_journal_keys)
qed simp_all

lemma demo_lookup:
  "fmlookup demo_log p = (if p = PJournal 1 False then Some (JournalFile (commit_record_for_payload demo_digests demo_payload)) else None)"
  "fmlookup demo_store p = (if p = PManifest then Some (ManifestFile (tx_metadata (cp_transaction demo_payload))) else fmlookup demo_log p)"
  by (simp_all add: demo_log_def demo_store_def fmlookup_of_list)

lemma demo_tx: "tx_id (cp_transaction demo_payload) = 1" "tx_nodes (cp_transaction demo_payload) = fmempty"
  "node_steps (cp_transaction demo_payload) = []" "listed_entries (cp_transaction demo_payload) = []"
  "record_steps d (cp_transaction demo_payload) = [write_file PManifest (ManifestFile (tx_metadata (cp_transaction demo_payload)))]"
  by (simp_all add: demo_payload_def build_storage_transaction_def sorted_list_of_fmap_def sorted_list_of_fset_def
      node_steps_def record_steps_def listed_entries_def List.map_filter_def)

lemma demo_plan: "plan demo_store = [demo_payload]"
proof -
  have "journal_keys demo_store = [(1, False)]" by (rule journal_keys_single) (simp add: demo_lookup)
  then show ?thesis
    by (simp add: plan_def checkpoint_payloads_def checkpoint_id_def demo_lookup commit_of_def commit_record_for_payload_def)
qed

lemma demo_assigned: "assigned d demo_payload x =
    (if x = File PManifest then Some (Some (VFile (ManifestFile (tx_metadata (cp_transaction demo_payload))))) else None)"
  by (auto simp: assigned_def plain_writes_def demo_tx write_file_def split: slot.split)
    (simp_all add: demo_payload_def)

lemma demo_at_rest: "at_rest demo_digests demo_store"
proof -
  have "payload_ok demo_payload" by (simp add: payload_ok_def demo_tx)
  then have "good_commit demo_digests demo_store (1, False)"
    by (auto simp: good_commit_def demo_lookup demo_tx intro!: exI [of _ demo_payload]) (simp add: demo_payload_def)
  moreover have "fold (override demo_digests) (plan demo_store) (contents demo_digests demo_store) = contents demo_digests demo_store"
    by (auto simp: demo_plan override_def demo_assigned fun_eq_iff contents_def demo_lookup)
  moreover have "journal_keys demo_store = [(1, False)]" by (rule journal_keys_single) (simp add: demo_lookup)
  ultimately show ?thesis by (simp add: at_rest_def good_checkpoint_def readable_def demo_lookup)
qed

theorem log_restores_lost_writes_witness:
  "\<exists>report fs'. recover demo_digests demo_log = (Inr report, fs') \<and> at_rest demo_digests fs' \<and>
     contents demo_digests fs' = contents demo_digests demo_store"
proof (rule log_restores_lost_writes [OF demo_at_rest])
  show "log_kept demo_digests demo_store demo_log"
    by (auto simp: log_kept_def readable_def demo_lookup demo_plan demo_assigned contents_def entry_at_def split: slot.split if_splits)
qed

section \<open>Limits of recovery\<close>

text \<open>
  A bucket that does not parse, which a file written without a sync can become, ends recovery with an
  error, although the log would rewrite what it held.
\<close>
lemma unparsable_bucket_blocks_recovery:
  assumes "fmlookup fs PCheckpoint = None" "journal_keys fs = [(i, False)]" "0 < i" "good_commit d fs (i, False)"
    and "cp_direct_index_removals (commit_of fs (i, False)) = key # rest"
    and "fmlookup fs (PDirect (direct_index_path d key)) = Some Garbage"
  shows "\<exists>e. fst (recover d fs) = Inl e"
proof -
  let ?p = "commit_of fs (i, False)"
  have "materialize_direct_index_changes d fs ?p = Inl (Serde ''direct index bucket'')"
    using assms(5,6)
    by (simp add: materialize_direct_index_changes_def remove_index_key_def open_bucket_def read_direct_index_bucket_path_def)
  then have "fst (materialize_commit_payload d ?p fs) = Inl (Serde ''direct index bucket'')"
    by (simp add: materialize_commit_payload_def materialize_steps_def)
  then obtain fs' where "materialize_commit_payload d ?p fs = (Inl (Serde ''direct index bucket''), fs')" by (metis prod.collapse)
  with good_commitD(2) [OF assms(4), of "Io ''journal file''"] good_commitD(3) [OF assms(4)] assms(1-3) show ?thesis
    by (simp add: recover_def recover_checkpoint_def bindS_apply recover_journal_file_def Let_def not_le [symmetric])
qed

text \<open>
  Outside full durability the journal is pruned to a fixed length whether or not there is a
  checkpoint.  With a checkpoint left from a time of full durability, recovery then sets every node
  of the checkpoint that the remaining commits do not have back to its state in the checkpoint.
\<close>
lemma recovery_reverts_to_checkpoint:
  assumes "readable fs" "fmlookup fs PCheckpoint = Some (CheckpointFile (checkpoint_record_for_payload d payload c))" "payload_ok payload"
    and "journal_keys fs = [(i, False)]" "c < i" "good_commit d fs (i, False)"
    and "fmlookup (tx_nodes (cp_transaction payload)) n = Some st" "fmlookup (tx_nodes (cp_transaction (commit_of fs (i, False)))) n = None"
  shows "\<exists>report fs'. recover d fs = (Inr report, fs') \<and> get_node fs' n = Inr (Some st)"
proof -
  have "orderly d fs (checkpoint_id fs) (journal_keys fs)" using assms(4-6) by (simp add: orderly_def)
  moreover have "good_checkpoint d fs" using assms(2,3) by (auto simp: good_checkpoint_def)
  ultimately obtain report fs' where r: "recover d fs = (Inr report, fs')"
    "contents d fs' = fold (override d) (plan fs) (contents d fs)"
    using recover_ok [OF assms(1)] by blast
  have "plan fs = [payload, commit_of fs (i, False)]"
    using assms(2,4,5) by (simp add: plan_def checkpoint_payloads_def checkpoint_id_def checkpoint_record_for_payload_def)
  then have "contents d fs' (File (PNode n)) = Some (VFile (NodeFile st))"
    using assms(7,8) r(2) by (simp add: override_def assigned_node)
  then have "fmlookup fs' (PNode n) = Some (NodeFile st)" by (auto simp: contents_def)
  with r(1) show ?thesis by (simp add: get_node_def)
qed

end
