(* ===== verification/SegmentRead.thy ===== *)
theory SegmentRead
  imports Segment
begin

text \<open>
  The read side of the segment file store (\<open>src/src/engine.rs\<close>): exporting a snapshot, scanning the
  index buckets of a path, and scanning the record files.  A directory is handed to a recursive
  walk as the list of the files below it, with their paths relative to it and in the order of
  these paths; a subdirectory is a first component that some file has.

  The walk over the record directories is shown to return exactly the stored records that match
  the scan, in the order of their paths and cut off at the limit.
\<close>

section \<open>Exporting\<close>

fun node_path :: "fpath \<Rightarrow> node_id option" where
  "node_path (PNode n) = Some n"
| "node_path _ = None"

definition node_files :: "fs \<Rightarrow> node_id list" where
  "node_files fs = sorted_list_of_fset ((\<lambda>p. the (node_path p)) |`| ffilter (\<lambda>p. node_path p \<noteq> None) (fmdom fs))"

definition read_node_file :: "fs \<Rightarrow> node_id \<Rightarrow> (node_id, node_state) fmap \<Rightarrow> (node_id, node_state) fmap primadb_result" where
  "read_node_file fs n nodes =
    (case fmlookup fs (PNode n) of Some (NodeFile st) \<Rightarrow> Inr (fmupd n st nodes) | _ \<Rightarrow> Inl (Serde ''node''))"

(* src: src/src/engine.rs:1744-1782 SegmentFileStore::export_snapshot *)
definition export_snapshot :: "digests \<Rightarrow> string option \<Rightarrow> (fs, primadb_error, database_snapshot) fallible" where
  "export_snapshot d root =
    bindS (load_metadata d) (\<lambda>metadata.
      case metadata of
        None \<Rightarrow> errS (Message ''storage manifest is missing'')
      | Some m \<Rightarrow>
          bindS (checkS (\<lambda>fs. fold_result (read_node_file fs)
            (filter (\<lambda>n. case root of None \<Rightarrow> True | Some r \<Rightarrow> node_matches_root n r) (node_files fs)) fmempty)) (\<lambda>nodes.
          okS \<lparr> snap_clock = sm_clock m, snap_nodes = nodes,
                snap_pending_ops = (case root of None \<Rightarrow> sm_pending_ops m
                                  | Some r \<Rightarrow> filter (\<lambda>op. operation_matches_root op r) (sm_pending_ops m)),
                snap_scope_policies = sm_scope_policies m,
                snap_provisional_transactions = sm_provisional_transactions m,
                snap_next_provisional_transaction_id = sm_next_provisional_transaction_id m \<rparr>))"

section \<open>Directories\<close>

type_synonym dir = "(string list \<times> content) list"

definition below :: "string \<Rightarrow> dir \<Rightarrow> dir" where
  "below c files =
    List.map_filter (\<lambda>(p, x). case p of [] \<Rightarrow> None | h # q \<Rightarrow> if h = c then Some (q, x) else None) files"

definition below_path :: "string list \<Rightarrow> dir \<Rightarrow> dir" where
  "below_path root files = fold below root files"

text \<open>The first components of the paths with at least \<open>k\<close> components.\<close>
definition subdirs :: "nat \<Rightarrow> dir \<Rightarrow> string list" where
  "subdirs k files = remdups_adj (sort (map (hd \<circ> fst) (filter (\<lambda>f. length (fst f) \<ge> k) files)))"

definition index_files :: "fs \<Rightarrow> dir" where
  "index_files fs = map (\<lambda>p. (p, the (fmlookup fs (PDirect p)))) (bucket_paths fs)"

fun record_path :: "fpath \<Rightarrow> string list option" where
  "record_path (PRecord path) = Some path"
| "record_path _ = None"

definition record_paths :: "fs \<Rightarrow> string list list" where
  "record_paths fs = sorted_list_of_fset ((\<lambda>p. the (record_path p)) |`| ffilter (\<lambda>p. record_path p \<noteq> None) (fmdom fs))"

definition record_files :: "fs \<Rightarrow> dir" where
  "record_files fs = map (\<lambda>p. (p, the (fmlookup fs (PRecord p)))) (record_paths fs)"

section \<open>Scanning the index\<close>

(* src: src/src/engine.rs:562-567 SegmentFileStore::direct_index_root *)
definition direct_index_root :: "digests \<Rightarrow> string \<Rightarrow> string list" where
  "direct_index_root d path = [''direct'', safe_direct_index_component d (encode_component path)]"

(* src: src/src/engine.rs:2145-2147 literal_direct_index_component *)
definition literal_direct_index_component :: "string \<Rightarrow> string option" where
  "literal_direct_index_component component = strip_prefix ''v_'' component"

text \<open>The names are distinct and a literal name sorts like its key.\<close>
(* src: src/src/engine.rs:900-942 SegmentFileStore::direct_index_scan_sortable_dirs *)
definition direct_index_scan_sortable_dirs :: "digests \<Rightarrow> dir \<Rightarrow> direct_index_scan \<Rightarrow> (string \<times> string option) list" where
  "direct_index_scan_sortable_dirs d root scan =
    (case dis_exact_sortable_key scan of
       Some exact \<Rightarrow>
         (let name = safe_direct_index_component d exact
          in if name \<in> set (subdirs 2 root) then [(name, Some exact)] else [])
     | None \<Rightarrow>
         (let dirs = map (\<lambda>name. (name, literal_direct_index_component name)) (subdirs 2 root);
              kept = filter (\<lambda>(_, key). case key of Some literal \<Rightarrow> matches_sortable_key scan literal | None \<Rightarrow> True) dirs
          in filter (\<lambda>(_, key). key \<noteq> None) kept @ filter (\<lambda>(_, key). key = None) kept))"

fun push_entries ::
    "usize option \<Rightarrow> direct_scalar_index_entry list \<Rightarrow> usize \<times> direct_scalar_index_entry list \<Rightarrow>
     usize \<times> direct_scalar_index_entry list" where
  "push_entries limit [] acc = acc"
| "push_entries limit (e # es) (remaining_offset, entries) =
    (if remaining_offset > 0 then push_entries limit es (remaining_offset - 1, entries)
     else if (case limit of Some l \<Rightarrow> length entries + 1 \<ge> l | None \<Rightarrow> False) then (remaining_offset, entries @ [e])
     else push_entries limit es (remaining_offset, entries @ [e]))"

definition bucket_of_file :: "content \<Rightarrow> direct_index_bucket primadb_result" where
  "bucket_of_file c = (case c of BucketFile b \<Rightarrow> Inr b | _ \<Rightarrow> Inl (Serde ''direct index bucket''))"

(* src: src/src/engine.rs:944-974 SegmentFileStore::collect_direct_index_entries_from_bucket *)
definition collect_direct_index_entries_from_bucket ::
    "content \<Rightarrow> string \<Rightarrow> direct_index_scan \<Rightarrow> usize \<times> direct_scalar_index_entry list \<Rightarrow>
     (usize \<times> direct_scalar_index_entry list) primadb_result" where
  "collect_direct_index_entries_from_bucket c path scan acc =
    (case bucket_of_file c of
       Inl e \<Rightarrow> Inl e
     | Inr bucket \<Rightarrow>
         Inr (push_entries (dis_limit scan)
           (filter (\<lambda>e. ie_path e = path \<and> matches_sortable_key scan (ie_sortable_key e) \<and> matches_candidate scan (ie_node_id e))
             (map snd (sorted_list_of_fmap bucket))) acc))"

fun collect_capped ::
    "string \<Rightarrow> direct_index_scan \<Rightarrow> dir \<Rightarrow> usize \<times> direct_scalar_index_entry list \<Rightarrow> direct_scalar_index_entry list primadb_result" where
  "collect_capped path scan [] (off, entries) = Inr entries"
| "collect_capped path scan ((_, c) # files) acc =
    (case collect_direct_index_entries_from_bucket c path scan acc of
       Inl e \<Rightarrow> Inl e
     | Inr (off, entries) \<Rightarrow>
         (if (case dis_limit scan of Some l \<Rightarrow> length entries \<ge> l | None \<Rightarrow> False) then Inr entries
          else collect_capped path scan files (off, entries)))"

text \<open>A stable sort by the node and the path, then by the sortable key in the direction asked for.\<close>
(* src: src/src/engine.rs:2101-2113 sort_direct_index_entries *)
definition sort_direct_index_entries ::
    "query_direction \<Rightarrow> direct_scalar_index_entry list \<Rightarrow> direct_scalar_index_entry list" where
  "sort_direct_index_entries direction entries =
    (let es = sort_key ie_node_id (sort_key ie_path entries)
     in case direction of
          Asc \<Rightarrow> sort_key ie_sortable_key es
        | Desc \<Rightarrow> rev (sort_key ie_sortable_key (rev es)))"

(* src: src/src/engine.rs:1784-1857 SegmentFileStore::scan_direct_index_entries *)
definition scan_direct_index_entries ::
    "digests \<Rightarrow> fs \<Rightarrow> string \<Rightarrow> query_direction \<Rightarrow> direct_index_scan \<Rightarrow> direct_scalar_index_entry list primadb_result" where
  "scan_direct_index_entries d fs path direction scan =
    (let root = below_path (direct_index_root d path) (index_files fs)
     in if root = [] \<or> dis_limit scan = Some 0 then Inr []
        else
          let dirs = direct_index_scan_sortable_dirs d root scan;
              files = concat (map (\<lambda>(name, _). below name root) dirs)
          in if \<exists>(_, key) \<in> set dirs. key = None
             then (case collect_capped path (scan\<lparr> dis_offset := 0, dis_limit := None \<rparr>) files (0, []) of
                     Inl e \<Rightarrow> Inl e
                   | Inr entries \<Rightarrow>
                       Inr (apply_direct_index_window (sort_direct_index_entries direction entries)
                         (dis_offset scan) (dis_limit scan)))
             else collect_capped path scan (case direction of Asc \<Rightarrow> files | Desc \<Rightarrow> rev files) (dis_offset scan, []))"

section \<open>Scanning the records\<close>

(* src: src/src/engine.rs:976-998 SegmentFileStore::record_scan_root *)
definition record_scan_root :: "record_scan \<Rightarrow> string list \<times> string option" where
  "record_scan_root scan =
    (case record_scan_key_prefix scan of
       None \<Rightarrow> ([], None)
     | Some key_prefix \<Rightarrow>
         (let encoded = encode_component key_prefix
          in if encoded = [] then ([], None)
             else
               let indexed_len = min (length encoded) 512;
                   full_chunks_len = indexed_len div 64 * 64
               in (chunks 64 (take full_chunks_len encoded),
                   if full_chunks_len < indexed_len
                   then Some (drop full_chunks_len (take indexed_len encoded)) else None)))"

definition ends_with :: "string \<Rightarrow> string \<Rightarrow> bool" where
  "ends_with s p = starts_with (rev s) (rev p)"

definition read_record_entry_path :: "content \<Rightarrow> record_entry primadb_result" where
  "read_record_entry_path c = (case c of RecordFile e \<Rightarrow> Inr e | _ \<Rightarrow> Inl (Serde ''record entry''))"

definition push_record :: "record_scan \<Rightarrow> record_entry \<Rightarrow> record_entry list \<Rightarrow> bool \<times> record_entry list" where
  "push_record scan e entries =
    (case rs_limit scan of Some l \<Rightarrow> length entries + 1 \<ge> l | None \<Rightarrow> False, entries @ [e])"

text \<open>The key a record file must hold by its path; \<open>None\<close> if the path does not tell.\<close>
definition candidate_key :: "string \<Rightarrow> string option" where
  "candidate_key encoded_key =
    (if encoded_key = [] \<or> encoded_key = ''_empty'' then Some []
     else if ends_with encoded_key ''_overflow'' then None
     else decode_component encoded_key)"

(* src: src/src/engine.rs:1065-1092 SegmentFileStore::collect_record_entry_file *)
definition collect_record_entry_file ::
    "content \<Rightarrow> string \<Rightarrow> record_scan \<Rightarrow> record_entry list \<Rightarrow> (bool \<times> record_entry list) primadb_result" where
  "collect_record_entry_file c encoded_key scan entries =
    (case candidate_key encoded_key of
       Some key \<Rightarrow>
         (if \<not> matches_key scan key then Inr (False, entries)
          else case read_record_entry_path c of
                 Inl e \<Rightarrow> Inl e
               | Inr e \<Rightarrow> Inr (push_record scan e entries))
     | None \<Rightarrow>
         (case read_record_entry_path c of
            Inl e \<Rightarrow> Inl e
          | Inr e \<Rightarrow>
              (if \<not> matches_key scan (re_key e) then Inr (False, entries) else Inr (push_record scan e entries))))"

definition visit_record_file ::
    "dir \<Rightarrow> string \<Rightarrow> record_scan \<Rightarrow> record_entry list \<Rightarrow> (bool \<times> record_entry list) primadb_result" where
  "visit_record_file files encoded_key scan entries =
    (case map_of files [] of
       None \<Rightarrow> Inr (False, entries)
     | Some c \<Rightarrow> collect_record_entry_file c encoded_key scan entries)"

definition unless_stopped ::
    "(bool \<times> 'a) primadb_result \<Rightarrow> ('a \<Rightarrow> (bool \<times> 'a) primadb_result) \<Rightarrow> (bool \<times> 'a) primadb_result" where
  "unless_stopped r f =
    (case r of Inl e \<Rightarrow> Inl e | Inr (True, a) \<Rightarrow> Inr (True, a) | Inr (False, a) \<Rightarrow> f a)"

lemma unless_stopped_cong [fundef_cong]:
  "r = r' \<Longrightarrow> (\<And>a. r' = Inr (False, a) \<Longrightarrow> f a = f' a) \<Longrightarrow> unless_stopped r f = unless_stopped r' f'"
  by (auto simp: unless_stopped_def split: sum.splits bool.splits)

definition dir_size :: "dir \<Rightarrow> nat" where
  "dir_size files = sum_list (map (length \<circ> fst) files)"

lemma below_Nil [simp]: "below c [] = []"
  by (simp add: below_def)

lemma below_Cons [simp]:
  "below c (f # files) =
    (case fst f of [] \<Rightarrow> [] | h # q \<Rightarrow> if h = c then [(q, snd f)] else []) @ below c files"
  by (simp add: below_def List.map_filter_simps split_def split: list.splits)

lemma dir_size_below: "dir_size (below c files) \<le> dir_size files \<and> (below c files \<noteq> [] \<longrightarrow> dir_size (below c files) < dir_size files)"
  by (induction files) (auto simp: dir_size_def split: list.splits)

lemma length_subdirs: "length (subdirs k files) \<le> length files"
  unfolding subdirs_def by (metis length_filter_le length_map length_sort order_trans remdups_adj_length)

(* src: src/src/engine.rs:1000-1063 SegmentFileStore::collect_record_entries *)
function (sequential) collect_record_entries ::
    "dir \<Rightarrow> string \<Rightarrow> string option \<Rightarrow> record_scan \<Rightarrow> record_entry list \<Rightarrow> (bool \<times> record_entry list) primadb_result"
  and collect_directories ::
    "dir \<Rightarrow> string \<Rightarrow> string list \<Rightarrow> record_scan \<Rightarrow> record_entry list \<Rightarrow> (bool \<times> record_entry list) primadb_result" where
  "collect_record_entries files encoded_key partial_component_prefix scan entries =
    (let directories = filter (\<lambda>name. case partial_component_prefix of None \<Rightarrow> True | Some partial \<Rightarrow> starts_with name partial)
           (subdirs 1 files)
     in unless_stopped
          (if rs_reverse scan then Inr (False, entries) else visit_record_file files encoded_key scan entries) (\<lambda>entries.
        unless_stopped
          (collect_directories files encoded_key (if rs_reverse scan then rev directories else directories) scan entries) (\<lambda>entries.
        if rs_reverse scan then visit_record_file files encoded_key scan entries else Inr (False, entries))))"
| "collect_directories files encoded_key [] scan entries = Inr (False, entries)"
| "collect_directories files encoded_key (name # names) scan entries =
    unless_stopped (collect_record_entries (below name files) (encoded_key @ name) None scan entries) (\<lambda>entries.
      collect_directories files encoded_key names scan entries)"
  by pat_completeness auto

termination
proof (relation "measures
    [\<lambda>x. case x of Inl (files, _) \<Rightarrow> dir_size files | Inr (files, _) \<Rightarrow> dir_size files,
     \<lambda>x. case x of Inl (files, _) \<Rightarrow> 2 * length files + 2 | Inr (files, _, names, _) \<Rightarrow> 2 * length names + 1]", goal_cases)
  case (2 files encoded_key partial scan entries directories e1)
  have "length directories \<le> length files"
    unfolding 2 using length_filter_le length_subdirs order_trans by blast
  then show ?case by simp
next
  case (3 files encoded_key name names scan entries)
  then show ?case using dir_size_below [of name files] by (cases "below name files = []") auto
qed auto

declare collect_record_entries.simps [simp del]

(* src: src/src/engine.rs:1859-1884 SegmentFileStore::scan_record_entries *)
definition scan_record_entries :: "fs \<Rightarrow> record_scan \<Rightarrow> record_entry list option primadb_result" where
  "scan_record_entries fs scan =
    (let (root, partial_component_prefix) = record_scan_root scan;
         files = below_path root (record_files fs)
     in if files = [] then Inr (Some [])
        else case collect_record_entries files (concat root) partial_component_prefix scan [] of
               Inl e \<Rightarrow> Inl e
             | Inr (_, entries) \<Rightarrow> Inr (Some entries))"

section \<open>The store as the database sees it\<close>

text \<open>The recovery that exporting runs first leaves a store at rest as it is.\<close>
definition segment_store :: "digests \<Rightarrow> fs \<Rightarrow> incremental_store" where
  "segment_store d fs =
    \<lparr> st_get_node = get_node fs,
      st_export_snapshot = (\<lambda>root. fst (export_snapshot d root fs)),
      st_scan_direct_index_entries = scan_direct_index_entries d fs,
      st_scan_record_entries = scan_record_entries fs \<rparr>"

section \<open>The walk over the records\<close>

text \<open>Sorted elements, group by group.\<close>
lemma concat_groups:
  "sorted (map k xs) \<Longrightarrow>
    concat (map (\<lambda>c. filter (\<lambda>x. k x = c) xs) (filter P (remdups_adj (map k xs)))) = filter (P \<circ> k) xs"
proof (induction "length xs" arbitrary: xs rule: less_induct)
  case less
  show ?case
  proof (cases xs)
    case (Cons x ys)
    let ?same = "\<lambda>y. k y = k x"
    define ts where "ts = takeWhile ?same ys"
    define ds where "ds = dropWhile ?same ys"
    have xs: "xs = x # ts @ ds" by (simp add: Cons ts_def ds_def)
    have same: "\<forall>y \<in> set ts. k y = k x" using set_takeWhileD unfolding ts_def by fastforce
    have sorted: "sorted (map k ds)" "\<forall>y \<in> set ds. k x \<le> k y"
      using less.prems unfolding xs by (auto simp: sorted_append)
    have above: "k x < k y" if "y \<in> set ds" for y
    proof (cases ds)
      case (Cons z zs)
      then have "k z \<noteq> k x" using hd_dropWhile [of ?same ys] by (simp add: ds_def)
      with sorted that Cons show ?thesis by force
    qed (use that in simp)
    have "dropWhile (\<lambda>y. y = k x) (map k ys) = map k ds" by (simp add: ds_def dropWhile_map comp_def)
    then have names: "remdups_adj (map k xs) = k x # remdups_adj (map k ds)"
      unfolding Cons by (simp only: list.map remdups_adj_Cons')
    have in_ts: "filter (\<lambda>y. k y = c) ts = (if c = k x then ts else [])" for c
      using same by (simp add: filter_id_conv filter_empty_conv)
    have "filter (\<lambda>y. k y = k x) ds = []" using above by (fastforce simp: filter_empty_conv)
    then have "filter (\<lambda>y. k y = k x) xs = x # ts" unfolding xs by (simp add: in_ts)
    moreover have "map (\<lambda>c. filter (\<lambda>y. k y = c) xs) (filter P (remdups_adj (map k ds))) =
        map (\<lambda>c. filter (\<lambda>y. k y = c) ds) (filter P (remdups_adj (map k ds)))"
    proof (rule map_cong [OF refl])
      fix c assume "c \<in> set (filter P (remdups_adj (map k ds)))"
      then obtain y where "y \<in> set ds" "c = k y" by auto
      with above [of y] have "c \<noteq> k x" by auto
      then show "filter (\<lambda>y. k y = c) xs = filter (\<lambda>y. k y = c) ds" unfolding xs by (simp add: in_ts)
    qed
    moreover have "concat (map (\<lambda>c. filter (\<lambda>x. k x = c) ds) (filter P (remdups_adj (map k ds)))) = filter (P \<circ> k) ds"
      using sorted(1) by (intro less.hyps) (simp_all add: xs)
    moreover have "filter (P \<circ> k) xs = (if P (k x) then x # ts else []) @ filter (P \<circ> k) ds"
    proof -
      have "filter (P \<circ> k) ts = (if P (k x) then ts else [])"
        using same by (simp add: filter_id_conv filter_empty_conv)
      then show ?thesis unfolding xs by simp
    qed
    ultimately show ?thesis unfolding names by (simp add: comp_def del: map_eq_conv)
  qed simp
qed

definition entries_of :: "dir \<Rightarrow> record_entry list" where
  "entries_of files = List.map_filter (\<lambda>f. case snd f of RecordFile e \<Rightarrow> Some e | _ \<Rightarrow> None) files"

lemma entries_of_simps [simp]:
  "entries_of [] = []"
  "entries_of (f # files) = (case snd f of RecordFile e \<Rightarrow> [e] | _ \<Rightarrow> []) @ entries_of files"
  "entries_of (xs @ ys) = entries_of xs @ entries_of ys"
  by (simp_all add: entries_of_def List.map_filter_def split: content.splits)

lemma entries_of_concat: "entries_of (concat xss) = concat (map entries_of xss)"
  by (induction xss) auto

definition strictly_ordered :: "dir \<Rightarrow> bool" where
  "strictly_ordered files = sorted_wrt (<) (map fst files)"

lemma entries_of_below: "entries_of (below c files) = entries_of (filter (\<lambda>f. hd (fst f) = c) (filter (\<lambda>f. fst f \<noteq> []) files))"
  by (induction files) (auto split: list.splits)

lemma strictly_ordered_below: "strictly_ordered files \<Longrightarrow> strictly_ordered (below c files)"
proof (induction files)
  case (Cons f files)
  have "(q, x) \<in> set (below c files) \<Longrightarrow> (c # q, x) \<in> set files" for q x
    by (auto simp: below_def List.map_filter_def split: list.splits if_splits)
  with Cons show ?case by (force simp: strictly_ordered_def split: list.splits)
qed (simp add: strictly_ordered_def)

lemma heads_sorted: "sorted_wrt (<) ps \<Longrightarrow> \<forall>p \<in> set ps. p \<noteq> [] \<Longrightarrow> sorted (map hd ps)"
proof (induction ps)
  case (Cons p ps)
  have "hd p \<le> hd q" if "q \<in> set ps" for q
    using Cons.prems that by (cases p; cases q) (auto dest!: bspec)
  with Cons show ?case by simp
qed simp

lemma subdirs_ordered:
  assumes "strictly_ordered files"
  shows "subdirs 1 files = remdups_adj (map (hd \<circ> fst) (filter (\<lambda>f. fst f \<noteq> []) files))"
    and "sorted (map (hd \<circ> fst) (filter (\<lambda>f. fst f \<noteq> []) files))"
proof -
  have "sorted_wrt (<) (map fst (filter (\<lambda>f. fst f \<noteq> []) files))"
    using assms unfolding strictly_ordered_def sorted_wrt_map by (rule sorted_wrt_filter)
  from heads_sorted [OF this] show s: "sorted (map (hd \<circ> fst) (filter (\<lambda>f. fst f \<noteq> []) files))" by simp
  have "filter (\<lambda>f. length (fst f) \<ge> 1) files = filter (\<lambda>f. fst f \<noteq> []) files"
    by (rule filter_cong) (auto simp: Suc_le_eq)
  with s show "subdirs 1 files = remdups_adj (map (hd \<circ> fst) (filter (\<lambda>f. fst f \<noteq> []) files))"
    by (simp add: subdirs_def sort_key_id_if_sorted)
qed

fun push_all :: "record_scan \<Rightarrow> record_entry list \<Rightarrow> record_entry list \<Rightarrow> bool \<times> record_entry list" where
  "push_all scan [] entries = (False, entries)"
| "push_all scan (e # es) entries =
    (case push_record scan e entries of (True, a) \<Rightarrow> (True, a) | (False, a) \<Rightarrow> push_all scan es a)"

lemma push_all_append:
  "unless_stopped (Inr (push_all scan xs a)) (\<lambda>a. Inr (push_all scan ys a)) = Inr (push_all scan (xs @ ys) a)"
proof (induction xs arbitrary: a)
  case (Cons x xs)
  then show ?case
    by (cases "push_record scan x a"; cases "fst (push_record scan x a)") (auto simp: unless_stopped_def)
qed (simp add: unless_stopped_def)

lemma unless_stopped_push [simp]:
  "unless_stopped (Inr (False, a)) f = f a" "unless_stopped r (\<lambda>a. Inr (False, a)) = r"
  by (auto simp: unless_stopped_def split: sum.splits prod.splits bool.splits)

text \<open>Cut off at the limit, but never empty: the limit is looked at after an entry was pushed.\<close>
lemma push_all_take:
  "snd (push_all scan es a) = a @ (case rs_limit scan of None \<Rightarrow> es | Some l \<Rightarrow> take (max 1 (l - length a)) es)"
proof (induction es arbitrary: a)
  case (Cons e es)
  show ?case
  proof (cases "rs_limit scan")
    case (Some l)
    show ?thesis
    proof (cases "l \<le> Suc (length a)")
      case True
      then have "max 1 (l - length a) = 1" by auto
      with True Some show ?thesis by (simp add: push_record_def)
    next
      case False
      then have "max 1 (l - length a) = Suc (max 1 (l - Suc (length a)))" by auto
      with False Some Cons [of "a @ [e]"] show ?thesis by (simp add: push_record_def)
    qed
  qed (use Cons in \<open>simp add: push_record_def\<close>)
qed (simp split: option.splits)

definition matching :: "record_scan \<Rightarrow> record_entry list \<Rightarrow> record_entry list" where
  "matching scan es = filter (\<lambda>e. matches_key scan (re_key e)) (if rs_reverse scan then rev es else es)"

text \<open>Every file is a record whose key is the one its path tells, if the path tells one.\<close>
definition well_placed :: "string \<Rightarrow> dir \<Rightarrow> bool" where
  "well_placed encoded_key files =
    (\<forall>f \<in> set files. \<exists>e. snd f = RecordFile e \<and>
      (case candidate_key (encoded_key @ concat (fst f)) of None \<Rightarrow> True | Some k \<Rightarrow> k = re_key e))"

lemma well_placed_below:
  assumes "well_placed encoded_key files"
  shows "well_placed (encoded_key @ c) (below c files)"
proof -
  have "(c # q, x) \<in> set files" if "(q, x) \<in> set (below c files)" for q x
    using that by (auto simp: below_def List.map_filter_def split: list.splits if_splits)
  with assms show ?thesis unfolding well_placed_def by force
qed

lemma visit_record_file_eq:
  assumes "strictly_ordered files" "well_placed encoded_key files"
  shows "visit_record_file files encoded_key scan a =
    Inr (push_all scan (matching scan (entries_of (filter (\<lambda>f. fst f = []) files))) a)"
proof -
  have distinct: "distinct (map fst files)"
    using assms(1) by (simp add: strictly_ordered_def strict_sorted_iff)
  show ?thesis
  proof (cases "map_of files []")
    case None
    then have "filter (\<lambda>f. fst f = []) files = []" by (force simp: map_of_eq_None_iff filter_empty_conv)
    with None show ?thesis by (simp add: visit_record_file_def matching_def)
  next
    case (Some c)
    then have mem: "([], c) \<in> set files" by (simp add: map_of_SomeD)
    with assms(2) obtain e where e: "c = RecordFile e"
      "case candidate_key encoded_key of None \<Rightarrow> True | Some k \<Rightarrow> k = re_key e"
      by (auto simp: well_placed_def)
    have "filter (\<lambda>f. fst f = []) files = [([], c)]"
      using distinct mem by (induction files) (auto simp: filter_empty_conv image_iff)
    with Some e show ?thesis
      by (auto simp: visit_record_file_def collect_record_entry_file_def read_record_entry_path_def matching_def
          split: option.splits prod.splits bool.splits)
  qed
qed

definition below_partial :: "string option \<Rightarrow> dir \<Rightarrow> dir" where
  "below_partial partial files =
    filter (\<lambda>f. fst f = [] \<or> (case partial of None \<Rightarrow> True | Some p \<Rightarrow> starts_with (hd (fst f)) p)) files"

lemma matching_append:
  "matching scan (xs @ ys) = (if rs_reverse scan then matching scan ys @ matching scan xs else matching scan xs @ matching scan ys)"
  by (simp add: matching_def)

lemma matching_concat:
  "matching scan (concat xss) = concat (map (matching scan) (if rs_reverse scan then rev xss else xss))"
  by (induction xss) (auto simp: matching_append matching_def)

lemma ordered_split:
  assumes "strictly_ordered files"
  shows "entries_of files = entries_of (filter (\<lambda>f. fst f = []) files) @ entries_of (filter (\<lambda>f. fst f \<noteq> []) files)"
proof (cases files)
  case (Cons f rest)
  then have "\<forall>g \<in> set rest. fst g \<noteq> []" using assms by (auto simp: strictly_ordered_def)
  then have "filter (\<lambda>f. fst f = []) rest = []" "filter (\<lambda>f. fst f \<noteq> []) rest = rest"
    by (simp_all add: filter_empty_conv filter_id_conv)
  with Cons show ?thesis by simp
qed simp

lemma strictly_ordered_filter: "strictly_ordered files \<Longrightarrow> strictly_ordered (filter P files)"
  unfolding strictly_ordered_def sorted_wrt_map by (rule sorted_wrt_filter)

lemma partial_split:
  assumes "strictly_ordered files"
  shows "entries_of (below_partial partial files) = entries_of (filter (\<lambda>f. fst f = []) files) @
    concat (map (\<lambda>c. entries_of (below c files))
      (filter (\<lambda>name. case partial of None \<Rightarrow> True | Some p \<Rightarrow> starts_with name p) (subdirs 1 files)))"
proof -
  let ?P = "\<lambda>name. case partial of None \<Rightarrow> True | Some p \<Rightarrow> starts_with name p"
  have "filter (\<lambda>f. fst f = []) (below_partial partial files) = filter (\<lambda>f. fst f = []) files"
    "filter (\<lambda>f. fst f \<noteq> []) (below_partial partial files) = filter (?P \<circ> (hd \<circ> fst)) (filter (\<lambda>f. fst f \<noteq> []) files)"
    unfolding below_partial_def filter_filter by (rule filter_cong [OF refl]; auto split: option.splits)+
  moreover have "strictly_ordered (below_partial partial files)"
    unfolding below_partial_def by (rule strictly_ordered_filter [OF assms])
  ultimately have "entries_of (below_partial partial files) = entries_of (filter (\<lambda>f. fst f = []) files) @
      entries_of (filter (?P \<circ> (hd \<circ> fst)) (filter (\<lambda>f. fst f \<noteq> []) files))"
    using ordered_split [of "below_partial partial files"] by (simp only: refl)
  moreover have "concat (map (\<lambda>c. entries_of (below c files)) (filter ?P (subdirs 1 files))) =
      entries_of (concat (map (\<lambda>c. filter (\<lambda>f. (hd \<circ> fst) f = c) (filter (\<lambda>f. fst f \<noteq> []) files))
        (filter ?P (remdups_adj (map (hd \<circ> fst) (filter (\<lambda>f. fst f \<noteq> []) files))))))"
    unfolding subdirs_ordered(1) [OF assms] entries_of_concat entries_of_below by (simp only: map_map comp_def)
  ultimately show ?thesis unfolding concat_groups [OF subdirs_ordered(2) [OF assms]] by simp
qed

lemma walk_exact:
  "strictly_ordered files \<Longrightarrow> well_placed encoded_key files \<Longrightarrow>
    collect_record_entries files encoded_key partial scan a =
      Inr (push_all scan (matching scan (entries_of (below_partial partial files))) a)"
  "strictly_ordered files \<Longrightarrow> well_placed encoded_key files \<Longrightarrow>
    collect_directories files encoded_key names scan a =
      Inr (push_all scan (concat (map (\<lambda>c. matching scan (entries_of (below c files))) names)) a)"
proof (induction files encoded_key partial scan a and files encoded_key names scan a
    rule: collect_record_entries_collect_directories.induct)
  case (1 files encoded_key partial scan a)
  let ?names = "filter (\<lambda>name. case partial of None \<Rightarrow> True | Some p \<Rightarrow> starts_with name p) (subdirs 1 files)"
  let ?own = "matching scan (entries_of (filter (\<lambda>f. fst f = []) files))"
  let ?first = "if rs_reverse scan then Inr (False, a) else visit_record_file files encoded_key scan a"
  have "collect_directories files encoded_key (if rs_reverse scan then rev ?names else ?names) scan b =
      Inr (push_all scan (matching scan (concat (map (\<lambda>c. entries_of (below c files)) ?names))) b)"
    if "?first = Inr (False, b)" for b
    using "1.IH" [OF refl that "1.prems"] by (simp add: matching_concat rev_map comp_def)
  then have unfold: "collect_record_entries files encoded_key partial scan a =
      unless_stopped ?first (\<lambda>b. unless_stopped
        (Inr (push_all scan (matching scan (concat (map (\<lambda>c. entries_of (below c files)) ?names))) b)) (\<lambda>b.
        if rs_reverse scan then visit_record_file files encoded_key scan b else Inr (False, b)))"
    unfolding collect_record_entries.simps Let_def by (intro unless_stopped_cong [OF refl]) simp
  have "matching scan (entries_of (below_partial partial files)) =
      (if rs_reverse scan then matching scan (concat (map (\<lambda>c. entries_of (below c files)) ?names)) @ ?own
       else ?own @ matching scan (concat (map (\<lambda>c. entries_of (below c files)) ?names)))"
    unfolding partial_split [OF "1.prems"(1)] matching_append ..
  then show ?case
    unfolding unfold using visit_record_file_eq [OF "1.prems"] by (simp add: push_all_append)
next
  case (3 files encoded_key name names scan a)
  let ?first = "collect_record_entries (below name files) (encoded_key @ name) None scan a"
  have "?first = Inr (push_all scan (matching scan (entries_of (below name files))) a)"
    using "3.IH"(1) "3.prems" by (simp add: strictly_ordered_below well_placed_below below_partial_def)
  moreover have "unless_stopped ?first (collect_directories files encoded_key names scan) =
      unless_stopped ?first (\<lambda>b. Inr (push_all scan (concat (map (\<lambda>c. matching scan (entries_of (below c files))) names)) b))"
    by (intro unless_stopped_cong [OF refl] "3.IH"(2) "3.prems")
  ultimately show ?case by (simp add: push_all_append)
qed simp

section \<open>Record scans are exact\<close>

lemma chunks_split:
  assumes "m \<le> length xs"
  shows "chunks 64 xs = chunks 64 (take (m div 64 * 64) xs) @ chunks 64 (drop (m div 64 * 64) xs)"
proof -
  have "chunks 64 xs = chunks 64 (take (k * 64) xs) @ chunks 64 (drop (k * 64) xs)" if "k * 64 \<le> length xs" for k
    using that
  proof (induction k arbitrary: xs)
    case (Suc k)
    then have "xs \<noteq> []" "k * 64 \<le> length (drop 64 xs)" by auto
    with Suc.IH [of "drop 64 xs"] show ?case
      by (subst (1 2) chunks.simps) (simp add: add.commute take_drop min_def)
  qed (simp add: chunks.simps)
  then show ?thesis using assms by (meson div_times_less_eq_dividend order_trans)
qed

lemma below_path_eq:
  "below_path root files = map (\<lambda>f. (drop (length root) (fst f), snd f)) (filter (\<lambda>f. prefix root (fst f)) files)"
proof (induction root arbitrary: files)
  case (Cons c root)
  have "below c files = map (\<lambda>f. (tl (fst f), snd f)) (filter (\<lambda>f. prefix [c] (fst f)) files)"
    by (induction files) (auto split: list.splits)
  then have "below_path (c # root) files =
      map (\<lambda>f. (drop (length root) (fst f), snd f)) (filter (\<lambda>f. prefix root (fst f))
        (map (\<lambda>f. (tl (fst f), snd f)) (filter (\<lambda>f. prefix [c] (fst f)) files)))"
    using Cons [of "below c files"] by (simp add: below_path_def)
  also have "\<dots> = map (\<lambda>f. (drop (length (c # root)) (fst f), snd f)) (filter (\<lambda>f. prefix (c # root) (fst f)) files)"
    by (induction files) (auto simp: drop_Suc prefix_def)
  finally show ?case .
qed (simp add: below_path_def)

lemma entries_of_map: "entries_of (map (\<lambda>f. (g (fst f), snd f)) files) = entries_of files"
  by (induction files) auto

lemma matching_filter:
  assumes "\<And>f e. f \<in> set files \<Longrightarrow> snd f = RecordFile e \<Longrightarrow> matches_key scan (re_key e) \<Longrightarrow> Q f"
  shows "matching scan (entries_of (filter Q files)) = matching scan (entries_of files)"
proof -
  have "filter (\<lambda>e. matches_key scan (re_key e)) (entries_of (filter Q files)) =
      filter (\<lambda>e. matches_key scan (re_key e)) (entries_of files)"
    using assms by (induction files) (auto split: content.splits)
  then show ?thesis by (simp add: matching_def flip: rev_filter)
qed

text \<open>Every record file holds the record of its path.\<close>
definition records_in_place :: "digests \<Rightarrow> fs \<Rightarrow> bool" where
  "records_in_place d fs = (\<forall>p c. fmlookup fs (PRecord p) = Some c \<longrightarrow>
     (\<exists>e. c = RecordFile e \<and> p = record_entry_path d (re_key e) \<and> utf8_valid (re_key e)))"

lemma encode_component_Nil [simp]: "encode_component s = [] \<longleftrightarrow> s = []"
  using encode_component_inj [of s "[]"] by (simp add: encode_component_def)

lemma parse_underscore: "CHR ''_'' \<in> set s \<Longrightarrow> parse_hex_pairs s = None"
proof (induction s rule: parse_hex_pairs.induct)
  case (3 a b s)
  have "hex_value CHR ''_'' = None" by code_simp
  then have "parse_hex_pair a CHR ''_'' = None" "parse_hex_pair CHR ''_'' b = None"
    by (simp_all add: parse_hex_pair_def split: option.split)
  with 3 show ?case by (auto split: option.split)
qed simp_all

lemma ends_with_set: "ends_with s p \<Longrightarrow> set p \<subseteq> set s"
  by (metis ends_with_def set_mono_prefix set_rev starts_with_iff_prefix)

lemma candidate_of_path:
  assumes "utf8_valid key"
  shows "case candidate_key (concat (record_entry_path d key)) of None \<Rightarrow> True | Some k \<Rightarrow> k = key"
proof -
  let ?enc = "encode_component key"
  have no: "CHR ''_'' \<notin> set ?enc" using encode_component_chars [of "CHR ''_''" key] by auto
  consider "key = []" | "key \<noteq> []" "length ?enc \<le> 512" | "key \<noteq> []" "length ?enc > 512" by linarith
  then show ?thesis
  proof cases
    case 1
    then show ?thesis by (simp add: record_entry_path_def candidate_key_def encode_component_def)
  next
    case 2
    have "\<not> ends_with ?enc ''_overflow''" using no ends_with_set [of ?enc "''_overflow''"] by auto
    moreover have "?enc \<noteq> ''_empty''" using no by (metis list.set_intros(1))
    ultimately show ?thesis using 2 assms by (simp add: record_entry_path_def candidate_key_def decode_encode)
  next
    case 3
    then have "concat (record_entry_path d key) = take 512 ?enc @ ''_overflow'' @ blake3_name d key"
      by (simp add: record_entry_path_def)
    moreover from 3 have "length (take 512 ?enc) = 512" by simp
    then have "take 512 ?enc @ ''_overflow'' @ blake3_name d key \<noteq> ''_empty''"
      by (auto dest: arg_cong [where f = length])
    ultimately show ?thesis by (simp add: candidate_key_def decode_component_def parse_underscore)
  qed
qed

lemma set_record_paths: "p \<in> set (record_paths fs) \<longleftrightarrow> fmlookup fs (PRecord p) \<noteq> None"
proof -
  have "record_path q = Some p \<longleftrightarrow> q = PRecord p" for q by (cases q) auto
  then show ?thesis by (force simp: record_paths_def fmlookup_dom_iff image_iff)
qed

lemma record_files_ordered: "strictly_ordered (record_files fs)"
  by (simp add: strictly_ordered_def record_files_def comp_def strict_sorted_iff) (simp add: record_paths_def)

lemma mem_record_files: "(p, c) \<in> set (record_files fs) \<longleftrightarrow> fmlookup fs (PRecord p) = Some c"
  by (auto simp: record_files_def set_record_paths)

lemma record_files_placed: "records_in_place d fs \<Longrightarrow> well_placed [] (record_files fs)"
  unfolding well_placed_def records_in_place_def using candidate_of_path [of _ d]
  by (fastforce simp: mem_record_files)

lemma below_path_ordered: "strictly_ordered files \<Longrightarrow> strictly_ordered (below_path root files)"
  by (induction root arbitrary: files) (simp_all add: below_path_def strictly_ordered_below)

lemma below_path_placed: "well_placed enc files \<Longrightarrow> well_placed (enc @ concat root) (below_path root files)"
proof (induction root arbitrary: files enc)
  case (Cons c root)
  from Cons.IH [OF well_placed_below [OF Cons.prems]] show ?case by (simp add: below_path_def)
qed (simp add: below_path_def)

lemma encode_prefix: "starts_with key p \<Longrightarrow> \<exists>r. encode_component key = encode_component p @ r"
  by (auto simp: starts_with_iff_prefix prefix_def encode_component_def)

lemma starts_with_take: "j \<le> m \<Longrightarrow> starts_with (take m xs) (take j xs)"
  by (metis min.absorb1 starts_with_iff_prefix take_is_prefix take_take)

text \<open>A record that matches a scan lies below the directory the scan starts from.\<close>
lemma root_covers:
  assumes "record_scan_root scan = (root, partial)" "matches_key scan key" "path = record_entry_path d key"
  shows "prefix root path \<and> (drop (length root) path = [] \<or>
    (case partial of None \<Rightarrow> True | Some p \<Rightarrow> starts_with (hd (drop (length root) path)) p))"
proof (cases "root = [] \<and> partial = None")
  case False
  then obtain kp where kp: "record_scan_key_prefix scan = Some kp" "encode_component kp \<noteq> []"
    using assms(1) by (auto simp: record_scan_root_def Let_def split: option.splits if_splits)
  let ?P = "encode_component kp" and ?E = "encode_component key"
  let ?n = "min (length ?P) 512"
  let ?full = "?n div 64 * 64"
  obtain r where E: "?E = ?P @ r" using encode_prefix record_scan_prefix_sound [OF kp(1) assms(2)] by blast
  have root: "root = chunks 64 (take ?full ?P)"
    and partial: "partial = (if ?full < ?n then Some (drop ?full (take ?n ?P)) else None)"
    using assms(1) kp by (simp_all add: record_scan_root_def Let_def)
  let ?I = "take 512 ?E"
  have n: "?n \<le> length ?I" "?full \<le> ?n" "?n - ?full \<le> 64" "?n \<le> length ?P" "?n \<le> 512"
    by (simp add: E, rule div_times_less_eq_dividend, simp_all add: minus_div_mult_eq_mod)
  have takes: "take m ?P = take m ?I" if "m \<le> ?n" for m
    using that n unfolding E by (simp add: min_absorb1)
  have "chunks 64 ?I = root @ chunks 64 (drop ?full ?I)"
    using chunks_split [OF n(1)] unfolding root takes [OF n(2)] .
  then obtain t where path: "path = root @ chunks 64 (drop ?full ?I) @ t"
    using kp(2) E unfolding assms(3) record_entry_path_def by (simp add: Let_def split: if_splits)
  show ?thesis
  proof (cases "?full < ?n")
    case True
    then have "?full < length ?I" using n(1) by (rule less_le_trans)
    then have "drop ?full ?I \<noteq> []" by (simp only: drop_eq_Nil not_le simp_thms)
    then have "hd (drop (length root) path) = take 64 (drop ?full ?I)"
      unfolding path by (subst chunks.simps) simp
    moreover have "drop ?full (take ?n ?P) = take (?n - ?full) (drop ?full ?I)"
      unfolding takes [OF order_refl] by (rule drop_take)
    ultimately show ?thesis using True n(3) unfolding partial by (simp only: if_True option.case starts_with_take) (simp add: path)
  next
    case False
    then have "partial = None" unfolding partial by (simp only: if_False)
    then show ?thesis by (simp add: path)
  qed
qed auto

lemma scan_record_entries_eq:
  assumes "records_in_place d fs"
  shows "scan_record_entries fs scan = Inr (Some (
    let es = matching scan (entries_of (record_files fs)) in case rs_limit scan of None \<Rightarrow> es | Some l \<Rightarrow> take (max 1 l) es))"
proof -
  obtain root partial where root: "record_scan_root scan = (root, partial)" by fastforce
  let ?files = "below_path root (record_files fs)"
  let ?Q = "\<lambda>f. prefix root (fst f) \<and> (drop (length root) (fst f) = [] \<or>
    (case partial of None \<Rightarrow> True | Some p \<Rightarrow> starts_with (hd (drop (length root) (fst f))) p))"
  have "entries_of (below_partial partial ?files) = entries_of (filter ?Q (record_files fs))"
    unfolding below_path_eq below_partial_def filter_map entries_of_map by (simp add: comp_def cong: option.case_cong)
  moreover have "matching scan (entries_of (filter ?Q (record_files fs))) = matching scan (entries_of (record_files fs))"
  proof (rule matching_filter)
    fix f e assume "f \<in> set (record_files fs)" "snd f = RecordFile e" "matches_key scan (re_key e)"
    moreover obtain p c where "f = (p, c)" by fastforce
    ultimately have "fst f = record_entry_path d (re_key e)" "matches_key scan (re_key e)"
      using assms by (auto simp: records_in_place_def mem_record_files)
    then show "?Q f" by (intro root_covers [OF root])
  qed
  moreover have "collect_record_entries ?files (concat root) partial scan [] =
      Inr (push_all scan (matching scan (entries_of (below_partial partial ?files))) [])"
    using below_path_placed [OF record_files_placed [OF assms]] record_files_ordered
    by (intro walk_exact(1) below_path_ordered) auto
  moreover have "matching scan (entries_of (below_partial partial ?files)) = []" if "?files = []"
    by (simp add: that below_partial_def matching_def)
  ultimately show ?thesis
    using push_all_take [of scan "matching scan (entries_of (record_files fs))" "[]"]
    by (auto simp: scan_record_entries_def root Let_def split: prod.splits option.splits)
qed

lemma lex_split: "xs < ys \<longleftrightarrow> take n xs < take n ys \<or> take n xs = take n ys \<and> drop n xs < drop n ys"
  for xs ys :: "'a::linorder list"
proof (induction n arbitrary: xs ys)
  case (Suc n)
  show ?case
  proof (cases xs)
    case (Cons x xs')
    with Suc [of xs' "tl ys"] show ?thesis by (cases ys) auto
  qed (cases ys; simp)
qed simp

lemma chunks_less: "0 < n \<Longrightarrow> chunks n xs < chunks n ys \<longleftrightarrow> xs < ys" for xs ys :: "'a::linorder list"
proof (induction n xs arbitrary: ys rule: chunks.induct)
  case (1 n xs)
  show ?case
  proof (cases "xs = [] \<or> ys = []")
    case True
    then show ?thesis using "1.prems" by (cases xs; cases ys) (simp_all add: chunks.simps)
  next
    case False
    with "1.prems" have "chunks n xs = take n xs # chunks n (drop n xs)" "chunks n ys = take n ys # chunks n (drop n ys)"
      by (simp_all add: chunks.simps)
    with 1 False show ?thesis using lex_split [of xs ys n] by simp
  qed
qed

text \<open>Keys whose file path is made of the whole encoded key.\<close>
definition ordinary_key :: "string \<Rightarrow> bool" where
  "ordinary_key key = (key \<noteq> [] \<and> length key \<le> 256)"

lemma length_encode: "length (encode_component s) = 2 * length s"
  by (induction s) (simp_all add: encode_component_def hex_byte_def)

lemma record_path_order:
  assumes "ordinary_key k" "ordinary_key l"
  shows "record_entry_path d k < record_entry_path d l \<longleftrightarrow> k < l"
proof -
  have "record_entry_path d k = chunks 64 (encode_component k)" if "ordinary_key k" for k
    using that by (simp add: record_entry_path_def ordinary_key_def length_encode Let_def)
  then show ?thesis using assms by (simp add: chunks_less encode_component_less)
qed

lemma record_files_paths:
  assumes "records_in_place d fs"
  shows "map fst (record_files fs) = map (\<lambda>e. record_entry_path d (re_key e)) (entries_of (record_files fs))"
    and "e \<in> set (entries_of (record_files fs)) \<longleftrightarrow> (\<exists>p. fmlookup fs (PRecord p) = Some (RecordFile e))"
proof -
  have "map fst files = map (\<lambda>e. record_entry_path d (re_key e)) (entries_of files)"
    if "\<forall>f \<in> set files. \<exists>e. snd f = RecordFile e \<and> fst f = record_entry_path d (re_key e)" for files
    using that by (induction files) auto
  moreover have "\<exists>e. snd f = RecordFile e \<and> fst f = record_entry_path d (re_key e)" if "f \<in> set (record_files fs)" for f
    using that assms unfolding records_in_place_def by (metis mem_record_files prod.collapse)
  ultimately show "map fst (record_files fs) = map (\<lambda>e. record_entry_path d (re_key e)) (entries_of (record_files fs))"
    by blast
  have "e \<in> set (entries_of files) \<longleftrightarrow> (\<exists>p. (p, RecordFile e) \<in> set files)" for files
    by (induction files) (auto split: content.splits)
  then show "e \<in> set (entries_of (record_files fs)) \<longleftrightarrow> (\<exists>p. fmlookup fs (PRecord p) = Some (RecordFile e))"
    by (simp add: mem_record_files)
qed

text \<open>
  C31: A scan of the record files is exact.  In a store whose record files are in place, the walk over
  the directories, pruned by the key prefix of the scan, returns the stored records that match
  the scan, each once, cut off at the limit; when no stored key is empty or longer than 256 bytes,
  they come in the order of their keys, or in reverse order.
\<close>
theorem record_scan_exact:
  assumes "records_in_place d fs"
  shows "\<exists>es. scan_record_entries fs scan =
      Inr (Some (case rs_limit scan of None \<Rightarrow> es | Some l \<Rightarrow> take (max 1 l) es)) \<and>
    set es = {e. (\<exists>p. fmlookup fs (PRecord p) = Some (RecordFile e)) \<and> matches_key scan (re_key e)} \<and>
    distinct (map re_key es) \<and>
    ((\<forall>p e. fmlookup fs (PRecord p) = Some (RecordFile e) \<longrightarrow> ordinary_key (re_key e)) \<longrightarrow>
      sorted_wrt (<) (map re_key (if rs_reverse scan then rev es else es)))"
proof (intro exI conjI impI)
  let ?all = "entries_of (record_files fs)"
  let ?es = "matching scan ?all"
  show "scan_record_entries fs scan = Inr (Some (case rs_limit scan of None \<Rightarrow> ?es | Some l \<Rightarrow> take (max 1 l) ?es))"
    using scan_record_entries_eq [OF assms] by (simp add: Let_def)
  show "set ?es = {e. (\<exists>p. fmlookup fs (PRecord p) = Some (RecordFile e)) \<and> matches_key scan (re_key e)}"
    using record_files_paths(2) [OF assms] by (auto simp: matching_def)
  have paths: "sorted_wrt (\<lambda>a b. record_entry_path d (re_key a) < record_entry_path d (re_key b)) ?all"
    using record_files_ordered [of fs] unfolding strictly_ordered_def record_files_paths(1) [OF assms] sorted_wrt_map .
  have "distinct (map (record_entry_path d) (map re_key ?all))"
    using record_files_ordered [of fs] record_files_paths(1) [OF assms]
    by (simp add: strictly_ordered_def strict_sorted_iff comp_def)
  then have "distinct (map re_key ?all)" by (simp only: distinct_map)
  then show "distinct (map re_key ?es)" by (simp add: matching_def distinct_map_filter rev_map [symmetric])
  assume ordinary: "\<forall>p e. fmlookup fs (PRecord p) = Some (RecordFile e) \<longrightarrow> ordinary_key (re_key e)"
  have "sorted_wrt (\<lambda>a b. re_key a < re_key b) ?all"
    using paths by (rule sorted_wrt_mono_rel [rotated])
      (use ordinary record_files_paths(2) [OF assms] record_path_order in blast)
  then have "sorted_wrt (\<lambda>a b. re_key a < re_key b) (filter (\<lambda>e. matches_key scan (re_key e)) ?all)"
    by (rule sorted_wrt_filter)
  then show "sorted_wrt (<) (map re_key (if rs_reverse scan then rev ?es else ?es))"
    by (simp add: matching_def sorted_wrt_map flip: rev_filter)
qed

definition any_record :: record_scan where
  "any_record = \<lparr> rs_prefix = None, rs_start_at = None, rs_start_after = None, rs_end_at = None,
     rs_end_before = None, rs_reverse = False, rs_limit = None, rs_cursor = None \<rparr>"

definition stored_record :: "digests \<Rightarrow> string \<Rightarrow> fs \<Rightarrow> fs" where
  "stored_record d key fs = fmupd (PRecord (record_entry_path d key)) (RecordFile \<lparr> re_key = key, re_value = RJson JNull \<rparr>) fs"

definition plain_digests :: digests where
  "plain_digests = \<lparr> blake3_name = id, commit_digest = (\<lambda>_. []), checkpoint_digest = (\<lambda>_. []) \<rparr>"

lemma stored_in_place: "utf8_valid key \<Longrightarrow> records_in_place d fs \<Longrightarrow> records_in_place d (stored_record d key fs)"
  by (auto simp: records_in_place_def stored_record_def)

theorem record_scan_exact_witness:
  "\<exists>es. scan_record_entries (stored_record plain_digests ''a'' fmempty) any_record = Inr (Some es) \<and>
    set es = {\<lparr> re_key = ''a'', re_value = RJson JNull \<rparr>}"
proof -
  let ?fs = "stored_record plain_digests ''a'' fmempty"
  have "utf8_valid ''a''" by code_simp
  then have "records_in_place plain_digests ?fs"
    by (intro stored_in_place) (simp_all add: records_in_place_def)
  moreover have "{e. (\<exists>p. fmlookup ?fs (PRecord p) = Some (RecordFile e)) \<and> matches_key any_record (re_key e)} =
      {\<lparr> re_key = ''a'', re_value = RJson JNull \<rparr>}"
    by (auto simp: stored_record_def any_record_def matches_key_def)
  ultimately show ?thesis
    using record_scan_exact [of plain_digests ?fs any_record] by (auto simp: any_record_def)
qed

end
