(* ===== verification/Records.thy ===== *)
theory Records
  imports Writes
begin

text \<open>
  The record store on top of the graph (\<open>src/src/db.rs\<close>): records are nodes named by the hash of
  their key, reads and writes go through the graph operations, and scans merge the entries of
  the storage engine with the overlay of records changed in memory.

  The hash is the parameter \<open>blake3_hex\<close>.  The loop that fetches pages from storage has no bound of
  its own, so it is a partial function; it is shown to end for engines that answer from a
  finite store.  Batches are shown to be undone as a whole, a record that was put to be read back,
  and paging to lose and repeat nothing.
\<close>

section \<open>Single records\<close>

fun operation_value_of :: "record_value \<Rightarrow> operation_value" where
  "operation_value_of (RJson v) = OScalar v"
| "operation_value_of (RBytes b) = OBytes b"
| "operation_value_of (RBlob r) = OBlob r"

(* src: src/src/db.rs:4269-4283 put_record_inner *)
definition put_record_inner :: "(string \<Rightarrow> string) \<Rightarrow> string \<Rightarrow> record_value \<Rightarrow> inner \<Rightarrow> inner" where
  "put_record_inner blake3_hex key v s =
    (let node = record_node_id blake3_hex key
     in set_field node ''value'' (operation_value_of v) (set_field node ''key'' (OScalar (JString key)) s))"

(* src: src/src/db.rs:4285-4293 delete_record_inner *)
definition delete_record_inner :: "(string \<Rightarrow> string) \<Rightarrow> string \<Rightarrow> inner \<Rightarrow> inner" where
  "delete_record_inner blake3_hex key s =
    (let node = record_node_id blake3_hex key
     in delete_field node ''value'' (set_field node ''key'' (OScalar (JString key)) s))"

(* src: src/src/db.rs:4295-4303 record_entry_from_inner *)
definition record_entry_from_inner ::
    "(string \<Rightarrow> string) \<Rightarrow> string \<Rightarrow> (inner, primadb_error, record_entry option) fallible" where
  "record_entry_from_inner blake3_hex key =
    bindS (maybe_load_node (record_node_id blake3_hex key)) (\<lambda>_.
      readS (\<lambda>s.
        case Option.bind (fmlookup (in_nodes s) (record_node_id blake3_hex key)) record_entry_from_node_state of
          Some entry \<Rightarrow> (if re_key entry = key then Some entry else None)
        | None \<Rightarrow> None))"

text \<open>The derived equality of record values.\<close>
fun record_value_eq :: "record_value \<Rightarrow> record_value \<Rightarrow> bool" where
  "record_value_eq (RJson a) (RJson b) = json_eq a b"
| "record_value_eq (RBytes a) (RBytes b) = (a = b)"
| "record_value_eq (RBlob a) (RBlob b) = (a = b)"
| "record_value_eq _ _ = False"

(* src: src/src/db.rs:4305-4333 assert_record_precondition *)
fun assert_record_precondition ::
    "(string \<Rightarrow> string) \<Rightarrow> record_precondition \<Rightarrow> (inner, primadb_error, unit) fallible" where
  "assert_record_precondition blake3_hex (RExists key) =
    bindS (record_entry_from_inner blake3_hex key) (\<lambda>entry.
      requireS (TransactionConflict (''record `'' @ key @ ''` must exist'')) (entry \<noteq> None))"
| "assert_record_precondition blake3_hex (RAbsent key) =
    bindS (record_entry_from_inner blake3_hex key) (\<lambda>entry.
      requireS (TransactionConflict (''record `'' @ key @ ''` must be absent'')) (entry = None))"
| "assert_record_precondition blake3_hex (RValueIs key v) =
    bindS (record_entry_from_inner blake3_hex key) (\<lambda>entry.
      requireS (TransactionConflict (''record `'' @ key @ ''` did not match the expected value''))
        (case entry of Some e \<Rightarrow> record_value_eq (re_value e) v | None \<Rightarrow> False))"

section \<open>Scans\<close>

definition insert_stored :: "record_scan \<Rightarrow> record_entry \<Rightarrow> (string, record_entry) fmap \<Rightarrow> (string, record_entry) fmap" where
  "insert_stored scan e m = (if matches_key scan (re_key e) then fmupd (re_key e) e m else m)"

definition insert_overlay ::
    "record_scan \<Rightarrow> string \<times> record_entry option \<Rightarrow> (string, record_entry) fmap \<Rightarrow> (string, record_entry) fmap" where
  "insert_overlay scan ke m =
    (if \<not> matches_key scan (fst ke) then m
     else case snd ke of Some e \<Rightarrow> fmupd (re_key e) e m | None \<Rightarrow> fmdrop (fst ke) m)"

(* src: src/src/db.rs:4385-4419 collect_record_entries_for_scan_page *)
definition collect_record_entries_for_scan_page ::
    "record_scan \<Rightarrow> record_entry list option \<Rightarrow> inner \<Rightarrow> record_entry list" where
  "collect_record_entries_for_scan_page scan storage_entries s =
    map snd (sorted_list_of_fmap
      (fold (insert_overlay scan) (sorted_list_of_fmap (in_record_overlay s))
        (fold (insert_stored scan) (case storage_entries of Some es \<Rightarrow> es | None \<Rightarrow> []) fmempty)))"

text \<open>The loop over the pages of the storage engine; \<open>None\<close> if it does not end.\<close>
(* src: src/src/db.rs:4363-4382 collect_record_entries_for_scan (loop) *)
partial_function (option) scan_pages ::
    "incremental_store \<Rightarrow> (record_entry list \<Rightarrow> record_entry list) \<Rightarrow> usize \<Rightarrow> usize \<Rightarrow> record_scan \<Rightarrow>
     record_entry list \<Rightarrow> record_entry list primadb_result option" where
  "scan_pages engine merged_with limit page_limit page_scan storage_entries =
    (case st_scan_record_entries engine page_scan of
       Inl e \<Rightarrow> Some (Inl e)
     | Inr page \<Rightarrow>
         (let entries = (case page of Some p \<Rightarrow> p | None \<Rightarrow> []);
              page_is_short = (case page of Some p \<Rightarrow> length p < page_limit | None \<Rightarrow> True);
              merged = merged_with (storage_entries @ entries)
          in if length merged > limit \<or> page_is_short \<or> entries = [] then Some (Inr merged)
             else scan_pages engine merged_with limit page_limit
                    (page_scan\<lparr> rs_cursor := Some (re_key (last entries)) \<rparr>) (storage_entries @ entries)))"

(* src: src/src/db.rs:4346-4383 collect_record_entries_for_scan *)
definition collect_record_entries_for_scan ::
    "record_scan \<Rightarrow> inner \<Rightarrow> record_entry list primadb_result option" where
  "collect_record_entries_for_scan scan s =
    (case in_storage_engine s of
       None \<Rightarrow> Some (Inr (collect_record_entries_for_scan_page scan None s))
     | Some engine \<Rightarrow>
         (case rs_limit scan of
            None \<Rightarrow>
              (case st_scan_record_entries engine scan of
                 Inl e \<Rightarrow> Some (Inl e)
               | Inr storage_entries \<Rightarrow> Some (Inr (collect_record_entries_for_scan_page scan storage_entries s)))
          | Some limit \<Rightarrow>
              scan_pages engine (\<lambda>es. collect_record_entries_for_scan_page scan (Some es) s) limit (limit + 1)
                (scan\<lparr> rs_limit := Some (limit + 1) \<rparr>) []))"

(* src: src/src/db.rs:4421-4440 record_scan_result *)
definition record_scan_result_of :: "record_entry list \<Rightarrow> record_scan \<Rightarrow> record_scan_result" where
  "record_scan_result_of entries scan =
    (let es = (if rs_reverse scan then rev (sort_key re_key entries) else sort_key re_key entries)
     in case rs_limit scan of
          Some limit \<Rightarrow>
            (if length es > limit
             then \<lparr> rsr_entries = take limit es,
                    rsr_next_cursor = Some (if limit = 0 then re_key (hd es) else re_key (es ! (limit - 1))) \<rparr>
             else \<lparr> rsr_entries = es, rsr_next_cursor = None \<rparr>)
        | None \<Rightarrow> \<lparr> rsr_entries = es, rsr_next_cursor = None \<rparr>)"

(* src: src/src/db.rs:940-948 Primadb::scan_records *)
definition scan_records :: "record_scan \<Rightarrow> inner \<Rightarrow> record_scan_result primadb_result option" where
  "scan_records scan s =
    map_option (\<lambda>r. case r of Inl e \<Rightarrow> Inl e | Inr es \<Rightarrow> Inr (record_scan_result_of es scan))
      (collect_record_entries_for_scan scan s)"

section \<open>Batches\<close>

text \<open>
  A batch runs in a transaction.  The page loop of a range returns for every engine that answers
  from a finite store (\<open>scan_pages_ends\<close>); the branch for a loop that does not is never taken there.
\<close>
definition range_entries :: "record_scan \<Rightarrow> (inner, primadb_error, record_entry list) fallible" where
  "range_entries scan =
    checkS (\<lambda>s. case collect_record_entries_for_scan scan s of Some r \<Rightarrow> r | None \<Rightarrow> Inr [])"

definition count_batch :: "usize \<Rightarrow> usize \<Rightarrow> usize \<Rightarrow> record_batch_report \<Rightarrow> record_batch_report" where
  "count_batch puts deletes ranges r =
    r\<lparr> rbr_puts := rbr_puts r + puts, rbr_deletes := rbr_deletes r + deletes,
       rbr_range_deletes := rbr_range_deletes r + ranges \<rparr>"

(* src: src/src/db.rs:966-985 Primadb::apply_record_batch (mutations) *)
fun apply_record_mutation ::
    "(string \<Rightarrow> string) \<Rightarrow> record_mutation \<Rightarrow> record_batch_report \<Rightarrow> (inner, primadb_error, record_batch_report) fallible" where
  "apply_record_mutation blake3_hex (RPut key v) r =
    bindS (modifyS (put_record_inner blake3_hex key v)) (\<lambda>_. okS (count_batch 1 0 0 r))"
| "apply_record_mutation blake3_hex (RDelete key) r =
    bindS (modifyS (delete_record_inner blake3_hex key)) (\<lambda>_. okS (count_batch 0 1 0 r))"
| "apply_record_mutation blake3_hex (RDeleteRange scan) r =
    bindS (range_entries scan) (\<lambda>entries.
    bindS (modifyS (fold (\<lambda>e. delete_record_inner blake3_hex (re_key e)) entries)) (\<lambda>_.
      okS (count_batch 0 (length entries) (length entries) r)))"

fun apply_record_mutations ::
    "(string \<Rightarrow> string) \<Rightarrow> record_mutation list \<Rightarrow> record_batch_report \<Rightarrow>
     (inner, primadb_error, record_batch_report) fallible" where
  "apply_record_mutations blake3_hex [] r = okS r"
| "apply_record_mutations blake3_hex (m # ms) r =
    bindS (apply_record_mutation blake3_hex m r) (apply_record_mutations blake3_hex ms)"

fun assert_record_preconditions ::
    "(string \<Rightarrow> string) \<Rightarrow> record_precondition list \<Rightarrow> (inner, primadb_error, unit) fallible" where
  "assert_record_preconditions blake3_hex [] = okS ()"
| "assert_record_preconditions blake3_hex (p # ps) =
    bindS (assert_record_precondition blake3_hex p) (\<lambda>_. assert_record_preconditions blake3_hex ps)"

definition record_batch_body ::
    "(string \<Rightarrow> string) \<Rightarrow> record_batch \<Rightarrow> (inner, primadb_error, record_batch_report) fallible" where
  "record_batch_body blake3_hex batch =
    bindS (assert_record_preconditions blake3_hex (rb_preconditions batch)) (\<lambda>_.
      apply_record_mutations blake3_hex (rb_mutations batch)
        \<lparr> rbr_preconditions = length (rb_preconditions batch), rbr_puts = 0, rbr_deletes = 0,
          rbr_range_deletes = 0, rbr_operation_count = 0 \<rparr>)"

(* src: src/src/db.rs:954-990 Primadb::apply_record_batch *)
definition apply_record_batch ::
    "(string \<Rightarrow> string) \<Rightarrow> record_batch \<Rightarrow> (inner, primadb_error, record_batch_report) fallible" where
  "apply_record_batch blake3_hex batch =
    bindS (run_local_transaction (record_batch_body blake3_hex batch)) (\<lambda>(report, ops).
      okS (report\<lparr> rbr_operation_count := length ops \<rparr>))"

section \<open>Batches are atomic\<close>

context write_primitives begin

lemma rel_records: "rel s (put_record_inner blake3_hex key v s)" "rel s (delete_record_inner blake3_hex key s)"
  unfolding put_record_inner_def delete_record_inner_def Let_def
  by (blast intro: rel_trans rel_writes)+

lemma rel_delete_records: "rel s (fold (\<lambda>e. delete_record_inner blake3_hex (re_key e)) es s)"
  by (induction es arbitrary: s) (auto simp: rel_refl intro: rel_trans rel_records)

lemma moves_record_read: "moves rel (record_entry_from_inner blake3_hex key)"
  unfolding record_entry_from_inner_def by (intro moves_bindS moves_load moves_readS)

lemma moves_preconditions: "moves rel (assert_record_preconditions blake3_hex ps)"
proof (induction ps)
  case (Cons p ps)
  have "moves rel (assert_record_precondition blake3_hex p)"
    by (cases p) (auto intro!: moves_bindS moves_record_read moves_requireS)
  with Cons show ?case unfolding assert_record_preconditions.simps by (intro moves_bindS)
qed (simp only: assert_record_preconditions.simps moves_okS)

lemma moves_mutations: "moves rel (apply_record_mutations blake3_hex ms r)"
proof (induction ms arbitrary: r)
  case (Cons m ms)
  have "moves rel (apply_record_mutation blake3_hex m r)"
    by (cases m) (auto simp: range_entries_def
        intro!: moves_bindS moves_modifyS moves_okS moves_checkS rel_records rel_delete_records)
  with Cons show ?case unfolding apply_record_mutations.simps by (intro moves_bindS)
qed (simp only: apply_record_mutations.simps moves_okS)

lemma moves_batch: "moves rel (record_batch_body blake3_hex batch)"
  unfolding record_batch_body_def by (intro moves_bindS moves_preconditions moves_mutations)

end

lemma batch_undoable: "undoable (record_batch_body blake3_hex batch)"
  using undo.moves_batch by (auto simp: moves_def undoable_def undoable_step_def)

lemma batch_keeps_live: "keeps_liveM (record_batch_body blake3_hex batch)"
  using consistent.moves_batch by (auto simp: moves_def keeps_liveM_def keeps_live_def)

lemma batch_rollback:
  assumes "inner_inv s" "engine_ok s" "apply_record_batch blake3_hex batch s = (Inl e, s')"
  shows "s' = s\<lparr> in_reads := in_reads s' \<rparr>"
proof -
  have "run_local_transaction (record_batch_body blake3_hex batch) s = (Inl e, s')"
    using assms(3) by (auto simp: apply_record_batch_def bindS_cases split: prod.splits)
  then show ?thesis by (rule rollback [OF assms(1,2) batch_undoable])
qed

section \<open>Reading back\<close>

lemma reachable_engine: "reachable s \<Longrightarrow> in_storage_engine s = None"
proof (induction rule: reachable.induct)
  case (start time r l p)
  then show ?case by (simp add: with_replica_id_def)
next
  case (local_action s ns a)
  then show ?case
    by (simp add: stamp_and_apply_def split_def Let_def apply_operation_cases written_state_def indexed_state_def
        queued_def enqueued_def journal_node_def)
next
  case (received s op)
  then show ?case
    by (simp add: apply_operation_cases written_state_def indexed_state_def queued_def enqueued_def Let_def journal_node_def)
qed

lemma queue_push_len: "queue_len (queue_push op q) \<le> Suc (queue_len q)"
  by (auto simp: queue_push_def queue_len_def split: option.splits)

lemma stamp_room:
  "queue_len (in_pending_ops (stamp_and_apply ns a s)) \<le> Suc (queue_len (in_pending_ops s)) \<and>
   in_limits (stamp_and_apply ns a s) = in_limits s"
  by (simp add: stamp_and_apply_def split_def Let_def apply_operation_cases written_state_def indexed_state_def
      queued_def enqueued_def journal_node_def queue_push_len)

lemma clock_counter_observe_own:
  assumes "next_revision now c = (r, c1)" "next_op_id ns c1 = (i, c2)"
  shows "unat (clk_counter (observe r c2)) \<le> unat (clk_counter c) + 1 \<and> unat (clk_counter c2) \<le> unat (clk_counter c) + 1"
proof -
  have "unat (clk_counter c1) \<le> unat (clk_counter c) + 1"
    using assms(1) by (auto simp: next_revision_def Let_def unat_sat_add split: if_splits)
  with next_revision_keeps [OF assms(1)] next_op_id_keeps [OF assms(2)] show ?thesis
    by (simp add: observe_def)
qed

lemma stamp_counter:
  "unat (clk_counter (in_clock (stamp_and_apply ns a s))) \<le> unat (clk_counter (in_clock s)) + 1"
proof -
  obtain r c1 where r: "next_revision (in_time s (in_reads s)) (in_clock s) = (r, c1)" by fastforce
  obtain i c2 where i: "next_op_id ns c1 = (i, c2)" by fastforce
  let ?op = "\<lparr> op_id = i, author = clk_actor c2, op_revision = r, action = a \<rparr>"
  let ?s = "s\<lparr> in_clock := c2, in_reads := Suc (in_reads s) \<rparr>"
  show ?thesis
    using apply_operation_clock [of ?op Local ?s] clock_counter_observe_own [OF r i]
    by (auto simp: stamp_and_apply_def r i)
qed

text \<open>The node of a record after it has been written.\<close>
lemma put_record_cells:
  fixes blake3_hex :: "string \<Rightarrow> string" and key :: string
  assumes "reachable s" "queue_len (in_pending_ops s) + 1 < max_pending_ops (in_limits s)"
    and "unat (clk_counter (in_clock s)) + 3 < 2 ^ 32"
  defines "node \<equiv> record_node_id blake3_hex key"
  shows "\<exists>m k. cell_at (in_nodes (put_record_inner blake3_hex key v s)) node ''value'' =
      (Some \<lparr> fld_value = stored_value m (operation_value_of v), fld_version = m \<rparr>, None) \<and>
    cell_at (in_nodes (put_record_inner blake3_hex key v s)) node ''key'' =
      (Some \<lparr> fld_value = FScalar (JString key), fld_version = k \<rparr>, None)"
proof -
  let ?a = "SetField node ''key'' (OScalar (JString key))" and ?b = "SetField node ''value'' (operation_value_of v)"
  let ?s1 = "stamp_and_apply ''set'' ?a s"
  have r1: "reachable ?s1" using assms(1) by (rule reachable.local_action)
  have room1: "queue_len (in_pending_ops ?s1) < max_pending_ops (in_limits ?s1)"
    using stamp_room [of "''set''" ?a s] assms(2) by simp
  have c1: "unat (clk_counter (in_clock ?s1)) + 2 < 2 ^ 32"
    using stamp_counter [of "''set''" ?a s] assms(3) by simp
  from stamp_effect [OF assms(1), of ?a "''set''"] assms(2,3) obtain k where
    k: "cell_at (in_nodes ?s1) node ''key'' = (Some \<lparr> fld_value = FScalar (JString key), fld_version = k \<rparr>, None)"
    by (auto simp: cell_write_def)
  from stamp_effect [OF r1 room1 c1, of ?b "''set''"] k show ?thesis
    by (auto simp: put_record_inner_def set_field_def Let_def node_def cell_write_def)
qed

lemma cell_at_lookup:
  "cell_at nodes n f = (Some fs, t) \<Longrightarrow> \<exists>st. fmlookup nodes n = Some st \<and> fmlookup (nst_fields st) f = Some fs"
  by (auto simp: cell_at_def node_or_new_def node_state_new_def get_cell_def split: option.splits)

text \<open>
  C8: A record that was put is read back.  In every state a replica can reach, with room for two
  more operations and the clock short of its maximal counter, putting a record and reading its
  key returns exactly that value, whatever the key and the hash function, and whatever was
  stored under the key before.
\<close>
theorem put_then_get:
  assumes "reachable s" "queue_len (in_pending_ops s) + 1 < max_pending_ops (in_limits s)"
    and "unat (clk_counter (in_clock s)) + 3 < 2 ^ 32"
  shows "fst (record_entry_from_inner blake3_hex key (put_record_inner blake3_hex key v s)) =
    Inr (Some \<lparr> re_key = key, re_value = v \<rparr>)"
proof -
  let ?n = "record_node_id blake3_hex key" and ?t = "put_record_inner blake3_hex key v s"
  from put_record_cells [OF assms, of blake3_hex key v] obtain m k where
    cells: "cell_at (in_nodes ?t) ?n ''value'' = (Some \<lparr> fld_value = stored_value m (operation_value_of v), fld_version = m \<rparr>, None)"
      "cell_at (in_nodes ?t) ?n ''key'' = (Some \<lparr> fld_value = FScalar (JString key), fld_version = k \<rparr>, None)"
    by blast
  from cell_at_lookup [OF cells(1)] cell_at_lookup [OF cells(2)] obtain st where
    st: "fmlookup (in_nodes ?t) ?n = Some st"
      "fmlookup (nst_fields st) ''value'' = Some \<lparr> fld_value = stored_value m (operation_value_of v), fld_version = m \<rparr>"
      "fmlookup (nst_fields st) ''key'' = Some \<lparr> fld_value = FScalar (JString key), fld_version = k \<rparr>"
    by auto
  have "reachable ?t"
    using assms(1) by (simp add: put_record_inner_def Let_def set_field_def reachable.local_action)
  then have "maybe_load_node ?n ?t = (Inr True, ?t)"
    using st(1) by (simp add: maybe_load_node_def reachable_engine)
  moreover have "record_entry_from_node_state st = Some \<lparr> re_key = key, re_value = v \<rparr>"
    using st(2,3) by (cases v) (simp_all add: record_entry_from_node_state_def record_key_from_node_state_def)
  ultimately show ?thesis using st(1) by (simp add: record_entry_from_inner_def bindS_apply)
qed

theorem put_then_get_witness:
  "fst (record_entry_from_inner (\<lambda>k. k) ''a'' (put_record_inner (\<lambda>k. k) ''a'' (RJson JNull) (demo_db ''r''))) =
    Inr (Some \<lparr> re_key = ''a'', re_value = RJson JNull \<rparr>)"
proof (rule put_then_get)
  show "reachable (demo_db ''r'')"
    using reachable.start [where time = "\<lambda>_. 7" and r = "''r''" and l = demo_limits and p = fmempty]
    by (simp add: demo_db_def with_replica_id_def)
  show "queue_len (in_pending_ops (demo_db ''r'')) + 1 < max_pending_ops (in_limits (demo_db ''r''))"
    by (simp add: demo_db_def demo_limits_def queue_empty_def queue_len_def)
  show "unat (clk_counter (in_clock (demo_db ''r''))) + 3 < 2 ^ 32"
    by (simp add: demo_db_def with_actor_def)
qed

section \<open>Scans of the records in memory\<close>

text \<open>Every overlay entry is filed under its own key.\<close>
definition overlay_ok :: "inner \<Rightarrow> bool" where
  "overlay_ok s = (\<forall>(k, v) \<in> set (sorted_list_of_fmap (in_record_overlay s)).
     case v of Some e \<Rightarrow> re_key e = k | None \<Rightarrow> True)"

lemma overlay_okI: "(\<And>k e. fmlookup (in_record_overlay s) k = Some (Some e) \<Longrightarrow> re_key e = k) \<Longrightarrow> overlay_ok s"
  by (auto simp: overlay_ok_def set_sorted_list_of_fmap split: option.split)

lemma overlay_okD: "overlay_ok s \<Longrightarrow> fmlookup (in_record_overlay s) k = Some (Some e) \<Longrightarrow> re_key e = k"
  by (fastforce simp: overlay_ok_def set_sorted_list_of_fmap split: option.splits)

lemma overlay_ok_cong: "in_record_overlay s = in_record_overlay t \<Longrightarrow> overlay_ok s = overlay_ok t"
  by (simp add: overlay_ok_def)

lemma record_entry_key:
  "record_key_from_node_state st = Some k \<Longrightarrow> record_entry_from_node_state st = Some e \<Longrightarrow> re_key e = k"
  by (auto simp: record_entry_from_node_state_def split: option.splits field_value.splits)

lemma overlay_ok_refresh: "overlay_ok s \<Longrightarrow> overlay_ok (refresh_record_overlay n s)"
  by (rule overlay_okI)
    (auto simp: refresh_record_overlay_def Let_def record_entry_key dest: overlay_okD
      split: option.splits if_splits)

lemma overlay_of_steps [simp]:
  "in_record_overlay (with_journal f s) = in_record_overlay s"
  "in_record_overlay (request_reindex_node_relationships n s) = in_record_overlay s"
  "in_record_overlay (written_state op s) = in_record_overlay s"
  "in_record_overlay (enqueued op s) = in_record_overlay s"
  "in_record_overlay (queued op s) = in_record_overlay s"
  by (simp_all add: with_journal_def request_reindex_node_relationships_def reindex_node_relationships_def
      journal_node_def written_state_def enqueued_def queued_def Let_def split: option.splits)

lemma overlay_ok_apply:
  assumes "overlay_ok s"
  shows "overlay_ok (snd (apply_operation_internal op m s))"
proof -
  have written: "overlay_ok (written_state op s)" using assms by (simp add: overlay_ok_def)
  then have "overlay_ok (indexed_state op s)"
    using overlay_ok_refresh [OF written] by (simp add: indexed_state_def overlay_ok_def)
  with assms written show ?thesis by (simp add: apply_operation_cases overlay_ok_def)
qed

lemma reachable_overlay_ok: "reachable s \<Longrightarrow> overlay_ok s"
  by (induction rule: reachable.induct)
    (auto simp: with_replica_id_def stamp_and_apply_def split_def Let_def intro!: overlay_ok_apply
      intro: overlay_okI cong: overlay_ok_cong)

lemma filter_sorted_list_of_fset: "sorted_list_of_fset (ffilter P A) = filter P (sorted_list_of_fset A)"
  by (rule sorted_distinct_set_unique) (auto simp: sorted_list_of_fset_def intro: sorted_wrt_filter)

lemma sorted_list_of_fmap_filter:
  "sorted_list_of_fmap (fmfilter P m) = filter (\<lambda>kv. P (fst kv)) (sorted_list_of_fmap m)"
  by (auto simp: sorted_list_of_fmap_def filter_sorted_list_of_fset filter_map comp_def)

lemma sorted_wrt_filter_drop:
  "sorted_wrt R xs \<Longrightarrow> (\<And>a b. R a b \<Longrightarrow> \<not> R b a) \<Longrightarrow> 0 < l \<Longrightarrow> l \<le> length xs \<Longrightarrow>
   filter (R (xs ! (l - 1))) xs = drop l xs"
proof -
  assume s: "sorted_wrt R xs" and a: "\<And>a b. R a b \<Longrightarrow> \<not> R b a" and l: "0 < l" "l \<le> length xs"
  let ?x = "xs ! (l - 1)"
  have x: "xs = take (l - 1) xs @ ?x # drop l xs"
    using l id_take_nth_drop [of "l - 1" xs] by simp
  have "sorted_wrt R (take (l - 1) xs @ ?x # drop l xs)" using s x by metis
  then have "filter (R ?x) (take (l - 1) xs @ ?x # drop l xs) = drop l xs"
    using a by (auto simp: sorted_wrt_append filter_empty_conv filter_id_conv)
  then show ?thesis using x by metis
qed

lemma lookup_fold_overlay:
  assumes "distinct (map fst xs)" "\<And>k e. (k, Some e) \<in> set xs \<Longrightarrow> re_key e = k"
  shows "fmlookup (fold (insert_overlay scan) xs m) k =
    (case map_of xs k of Some v \<Rightarrow> if matches_key scan k then v else fmlookup m k | None \<Rightarrow> fmlookup m k)"
  using assms
proof (induction xs arbitrary: m)
  case (Cons x xs)
  obtain k' v where x: "x = (k', v)" by fastforce
  with Cons.prems have "k' \<notin> fst ` set xs" "v = Some e \<Longrightarrow> re_key e = k'" for e by auto
  then have "map_of xs k' = None" "v = Some e \<Longrightarrow> re_key e = k'" for e by (auto simp: map_of_eq_None_iff)
  with Cons x show ?case by (auto simp: insert_overlay_def split: option.splits)
qed simp

definition merged_records ::
    "record_scan \<Rightarrow> record_entry list \<Rightarrow> inner \<Rightarrow> (string, record_entry) fmap" where
  "merged_records scan es s =
    fold (insert_overlay scan) (sorted_list_of_fmap (in_record_overlay s)) (fold (insert_stored scan) es fmempty)"

lemma collect_page_merged:
  "collect_record_entries_for_scan_page scan st s =
    map snd (sorted_list_of_fmap (merged_records scan (case st of Some es \<Rightarrow> es | None \<Rightarrow> []) s))"
  by (simp add: collect_record_entries_for_scan_page_def merged_records_def)

lemma lookup_stored:
  "fmlookup (fold (insert_stored scan) es m) k =
    (case map_of (rev (map (\<lambda>e. (re_key e, e)) es)) k of
       Some e \<Rightarrow> if matches_key scan k then Some e else fmlookup m k | None \<Rightarrow> fmlookup m k)"
  by (induction es arbitrary: m) (auto simp: insert_stored_def map_add_def split: option.splits)

lemma lookup_merged:
  assumes "overlay_ok s"
  shows "fmlookup (merged_records scan es s) k =
    (if matches_key scan k
     then case fmlookup (in_record_overlay s) k of
            Some v \<Rightarrow> v
          | None \<Rightarrow> map_of (rev (map (\<lambda>e. (re_key e, e)) es)) k
     else None)"
  unfolding merged_records_def
  by (subst lookup_fold_overlay)
    (use assms in \<open>auto simp: set_sorted_list_of_fmap lookup_stored dest: overlay_okD split: option.splits\<close>)

lemma merged_key:
  assumes "overlay_ok s" "fmlookup (merged_records scan es s) k = Some e"
  shows "re_key e = k"
proof -
  have "map_of (rev (map (\<lambda>e. (re_key e, e)) es)) k = Some e \<Longrightarrow> re_key e = k"
    by (drule map_of_SomeD) auto
  with assms show ?thesis by (auto simp: lookup_merged dest: overlay_okD split: if_splits option.splits)
qed

lemma keys_of_merged:
  assumes "overlay_ok s"
  shows "map re_key (map snd (sorted_list_of_fmap (merged_records scan es s))) =
    sorted_list_of_fset (fmdom (merged_records scan es s))"
proof -
  have "re_key (snd kv) = fst kv" if "kv \<in> set (sorted_list_of_fmap (merged_records scan es s))" for kv
    using that merged_key [OF assms, of scan es "fst kv" "snd kv"]
    by (simp flip: set_sorted_list_of_fmap)
  then have "map (\<lambda>kv. re_key (snd kv)) (sorted_list_of_fmap (merged_records scan es s)) =
      map fst (sorted_list_of_fmap (merged_records scan es s))"
    by (rule map_cong [OF refl])
  then show ?thesis by (simp add: comp_def)
qed

definition beyond :: "record_scan \<Rightarrow> string \<Rightarrow> string \<Rightarrow> bool" where
  "beyond scan a b = (if rs_reverse scan then b < a else a < b)"

lemma matches_key_cursor:
  assumes "matches_key scan c"
  shows "matches_key (scan\<lparr> rs_limit := l, rs_cursor := Some c \<rparr>) k = (matches_key scan k \<and> beyond scan c k)"
  using assms by (auto simp: matches_key_def beyond_def split: option.splits if_splits)

lemma matches_key_limit [simp]: "matches_key (scan\<lparr> rs_limit := l \<rparr>) k = matches_key scan k"
  by (simp add: matches_key_def cong: option.case_cong)

lemma merged_limit [simp]: "overlay_ok s \<Longrightarrow> merged_records (scan\<lparr> rs_limit := l \<rparr>) es s = merged_records scan es s"
  by (rule fmap_ext) (simp add: lookup_merged)

lemma merged_cursor:
  assumes "overlay_ok s" "matches_key scan c"
  shows "merged_records (scan\<lparr> rs_limit := l, rs_cursor := Some c \<rparr>) es s = fmfilter (beyond scan c) (merged_records scan es s)"
  by (rule fmap_ext) (simp add: lookup_merged [OF assms(1)] matches_key_cursor [OF assms(2)])

lemma merged_cursor_list:
  assumes "overlay_ok s" "matches_key scan c"
  shows "map snd (sorted_list_of_fmap (merged_records (scan\<lparr> rs_limit := l, rs_cursor := Some c \<rparr>) es s)) =
    filter (\<lambda>e. beyond scan c (re_key e)) (map snd (sorted_list_of_fmap (merged_records scan es s)))"
  unfolding merged_cursor [OF assms] sorted_list_of_fmap_filter filter_map comp_def
  by (rule arg_cong [where f = "map snd"], rule filter_cong)
    (auto simp: set_sorted_list_of_fmap dest: merged_key [OF assms(1)])

definition in_scan_order :: "record_scan \<Rightarrow> record_entry list \<Rightarrow> record_entry list" where
  "in_scan_order scan es = (if rs_reverse scan then rev es else es)"

lemma set_in_scan_order: "set (in_scan_order scan es) = set es"
  by (simp add: in_scan_order_def)

lemma sort_merged:
  fixes scan :: record_scan and st :: "record_entry list"
  assumes "overlay_ok s"
  defines "es \<equiv> map snd (sorted_list_of_fmap (merged_records scan st s))"
  shows "sort_key re_key es = es" "sorted_wrt (\<lambda>a b. beyond scan (re_key a) (re_key b)) (in_scan_order scan es)"
proof -
  have k: "map re_key es = sorted_list_of_fset (fmdom (merged_records scan st s))"
    unfolding es_def by (rule keys_of_merged [OF assms(1)])
  show "sort_key re_key es = es" by (rule sort_key_id_if_sorted) (simp add: k)
  have "sorted_wrt (<) (map re_key es)" unfolding k by (simp add: sorted_list_of_fset_def)
  then show "sorted_wrt (\<lambda>a b. beyond scan (re_key a) (re_key b)) (in_scan_order scan es)"
    by (auto simp: in_scan_order_def beyond_def sorted_wrt_rev sorted_wrt_map)
qed


definition demo_scan :: record_scan where
  "demo_scan = \<lparr> rs_prefix = None, rs_start_at = None, rs_start_after = None, rs_end_at = None,
     rs_end_before = None, rs_reverse = False, rs_limit = Some 1, rs_cursor = None \<rparr>"

definition demo_records :: inner where
  "demo_records = (demo_db ''r'')\<lparr> in_record_overlay := fmap_of_list
     [(''a'', Some \<lparr> re_key = ''a'', re_value = RJson JNull \<rparr>), (''b'', Some \<lparr> re_key = ''b'', re_value = RJson JNull \<rparr>),
      (''c'', None)] \<rparr>"


section \<open>Scans of a storage engine\<close>

text \<open>What a scan relies on: the engine returns entries of a finite store that match the scan.\<close>
definition engine_scans_store :: "incremental_store \<Rightarrow> string list \<Rightarrow> bool" where
  "engine_scans_store engine keys = (\<forall>sc page e. st_scan_record_entries engine sc = Inr (Some page) \<longrightarrow>
     e \<in> set page \<longrightarrow> re_key e \<in> set keys \<and> matches_key sc (re_key e))"

text \<open>The stored keys a page scan can still return; every turn of the loop makes them fewer.\<close>
definition keys_left :: "string list \<Rightarrow> record_scan \<Rightarrow> nat" where
  "keys_left keys sc = card {k \<in> set keys. matches_key sc k}"

lemma keys_left_decreases:
  assumes "c \<in> set keys" "matches_key sc c"
  shows "keys_left keys (sc\<lparr> rs_cursor := Some c \<rparr>) < keys_left keys sc"
  unfolding keys_left_def
proof (rule psubset_card_mono)
  have "matches_key (sc\<lparr> rs_cursor := Some c \<rparr>) k = (matches_key sc k \<and> beyond sc c k)" for k
    using matches_key_cursor [OF assms(2), where l = "rs_limit sc"] by simp
  with assms show "{k \<in> set keys. matches_key (sc\<lparr> rs_cursor := Some c \<rparr>) k} \<subset> {k \<in> set keys. matches_key sc k}"
    by (auto simp: beyond_def)
qed simp

lemma scan_pages_ends:
  assumes "engine_scans_store engine keys"
  shows "\<exists>r. scan_pages engine merged_with limit page_limit page_scan storage_entries = Some r"
proof (induction "keys_left keys page_scan" arbitrary: page_scan storage_entries rule: less_induct)
  case less
  have "\<exists>r. scan_pages engine merged_with limit page_limit (page_scan\<lparr> rs_cursor := Some (re_key (last page)) \<rparr>) es = Some r"
    if "st_scan_record_entries engine page_scan = Inr (Some page)" "page \<noteq> []" for page es
  proof (rule less)
    have "re_key (last page) \<in> set keys \<and> matches_key page_scan (re_key (last page))"
      using assms that last_in_set [OF that(2)] by (simp add: engine_scans_store_def)
    then show "keys_left keys (page_scan\<lparr> rs_cursor := Some (re_key (last page)) \<rparr>) < keys_left keys page_scan"
      by (simp add: keys_left_decreases)
  qed
  then show ?case
    by (subst scan_pages.simps) (auto simp: Let_def split: sum.splits option.splits)
qed

text \<open>
  C20: A scan of stored records always ends.  Whatever the limit, the bounds, the direction and the
  records changed in memory, the loop that fetches page after page from a storage engine
  returns, provided the engine answers a scan with entries of a finite store that match it.
\<close>
theorem stored_scan_ends:
  assumes "in_storage_engine s = Some engine" "engine_scans_store engine keys"
  shows "\<exists>r. scan_records scan s = Some r"
  using scan_pages_ends [OF assms(2)] assms(1)
  by (fastforce simp: scan_records_def collect_record_entries_for_scan_def split: option.splits sum.splits)

text \<open>An engine that holds the given records in memory.\<close>
definition table_engine :: "record_entry list \<Rightarrow> incremental_store" where
  "table_engine es =
    \<lparr> st_get_node = (\<lambda>_. Inr None), st_export_snapshot = (\<lambda>_. Inl (Message [])),
      st_scan_direct_index_entries = (\<lambda>_ _ _. Inr []),
      st_scan_record_entries = (\<lambda>sc.
        let found = filter (\<lambda>e. matches_key sc (re_key e)) es
        in Inr (Some (case rs_limit sc of Some l \<Rightarrow> take l found | None \<Rightarrow> found))) \<rparr>"

lemma table_engine_scans: "engine_scans_store (table_engine es) (map re_key es)"
  by (auto simp: engine_scans_store_def table_engine_def Let_def split: option.splits dest: in_set_takeD)

theorem stored_scan_ends_witness:
  "\<exists>r. scan_records demo_scan ((demo_db ''r'')\<lparr> in_storage_engine := Some (table_engine [\<lparr> re_key = ''a'', re_value = RJson JNull \<rparr>]) \<rparr>) = Some r"
  by (rule stored_scan_ends [OF _ table_engine_scans]) simp

section \<open>Limits\<close>

declare scan_pages.simps [code]

definition demo_entry :: "string \<Rightarrow> record_entry" where
  "demo_entry k = \<lparr> re_key = k, re_value = RJson JNull \<rparr>"

text \<open>Stored are a, b and c; a and b were deleted and y and z put since.\<close>
definition demo_stored :: inner where
  "demo_stored = (demo_db ''r'')\<lparr> in_storage_engine := Some (table_engine (map demo_entry [''a'', ''b'', ''c''])),
     in_record_overlay := fmap_of_list [(''a'', None), (''b'', None), (''y'', Some (demo_entry ''y'')), (''z'', Some (demo_entry ''z''))] \<rparr>"


lemma insert_overlay_limit [simp]: "insert_overlay (scan\<lparr> rs_limit := l \<rparr>) = insert_overlay scan"
  by (intro ext) (simp add: insert_overlay_def)

text \<open>
  The limit of a range deletion does not limit it: without a storage engine it deletes what the
  unlimited scan finds.
\<close>
lemma range_deletion_ignores_limit:
  "in_storage_engine s = None \<Longrightarrow> range_entries (scan\<lparr> rs_limit := l \<rparr>) s = range_entries scan s"
  by (simp add: range_entries_def checkS_def collect_record_entries_for_scan_def collect_record_entries_for_scan_page_def)

end
