(* ===== verification/Persist.thy ===== *)
theory Persist
  imports Recovery SegmentRead Records
begin

text \<open>
  The database together with what it persists to (\<open>src/src/db.rs\<close>, \<open>src/src/storage.rs\<close>): the locked
  state, the directory of the attached segment store, the snapshot file and the storage adapter.
  Changes are finished by \<open>finalize_change\<close>, which counts the revision, flushes the unflushed
  operations and announces the change; a store is opened by \<open>attach_incremental_store\<close>.

  The lemmas connect memory and disk: along every run of a database on a segment store, what is in
  memory is on disk after a flush, and a database reopened on the same directory reads it back.

  Snapshot and log files are modelled by what they parse to.  Watches, search caches and blob
  files, which hang off the same handlers, are left out.
\<close>

section \<open>Changes\<close>

(* src: src/src/db.rs:599-606 ChangeImpact *)
record change_impact =
  ci_data_changed :: bool
  ci_full_refresh :: bool
  ci_touched_paths :: "string list"
  ci_records_changed :: bool
  ci_touched_record_keys :: "string list"

(* src: src/src/db.rs:100-112 ChangeEvent *)
record change_event =
  ce_revision :: u64
  ce_pending_ops :: usize
  ce_data_changed :: bool
  ce_full_refresh :: bool
  ce_touched_paths :: "string list"
  ce_records_changed :: bool
  ce_touched_record_keys :: "string list"

(* src: src/src/db.rs:609-611 ChangeImpact::pending_only *)
definition pending_only :: change_impact where
  "pending_only = \<lparr> ci_data_changed = False, ci_full_refresh = False, ci_touched_paths = [],
     ci_records_changed = False, ci_touched_record_keys = [] \<rparr>"

(* src: src/src/db.rs:613-621 ChangeImpact::full_refresh *)
definition full_refresh :: change_impact where
  "full_refresh = \<lparr> ci_data_changed = True, ci_full_refresh = True, ci_touched_paths = [],
     ci_records_changed = False, ci_touched_record_keys = [] \<rparr>"

(* src: src/src/db.rs:7837-7844 operation_is_record_op *)
definition operation_is_record_op :: "operation \<Rightarrow> bool" where
  "operation_is_record_op op = is_record_node_id (action_node (action op))"

definition record_key_of_node :: "node_id \<Rightarrow> (node_id, node_state) fmap \<Rightarrow> string option" where
  "record_key_of_node n nodes =
    (if is_record_node_id n
     then case fmlookup nodes n of Some st \<Rightarrow> record_key_from_node_state st | None \<Rightarrow> None
     else None)"

(* src: src/src/db.rs:7846-7863 operation_touched_record_key *)
definition operation_touched_record_key :: "operation \<Rightarrow> (node_id, node_state) fmap \<Rightarrow> string option" where
  "operation_touched_record_key op nodes =
    (case action op of
       SetField n f (OScalar (JString key)) \<Rightarrow>
         (if is_record_node_id n \<and> f = ''key'' then Some key else record_key_of_node n nodes)
     | _ \<Rightarrow> record_key_of_node (action_node (action op)) nodes)"

text \<open>An incomplete list of record keys is reported as an empty one, which stands for all keys.\<close>
(* src: src/src/db.rs:623-650 ChangeImpact::from_ops *)
definition impact_from_ops :: "operation list \<Rightarrow> (node_id, node_state) fmap \<Rightarrow> change_impact" where
  "impact_from_ops ops nodes =
    (let record_ops = filter operation_is_record_op ops;
         keys = map (\<lambda>op. operation_touched_record_key op nodes) record_ops
     in \<lparr> ci_data_changed = (ops \<noteq> []), ci_full_refresh = False,
          ci_touched_paths = sorted_list_of_set (operation_touched_path ` set ops),
          ci_records_changed = (record_ops \<noteq> []),
          ci_touched_record_keys = (if None \<in> set keys then [] else sorted_list_of_set (the ` set keys)) \<rparr>)"

(* src: src/src/db.rs:652-658 ChangeImpact::is_empty *)
definition impact_is_empty :: "change_impact \<Rightarrow> bool" where
  "impact_is_empty i =
    (\<not> ci_data_changed i \<and> \<not> ci_full_refresh i \<and> ci_touched_paths i = [] \<and> \<not> ci_records_changed i \<and>
     ci_touched_record_keys i = [])"

definition merge_sorted :: "string list \<Rightarrow> string list \<Rightarrow> string list" where
  "merge_sorted xs ys = (if ys = [] then xs else sorted_list_of_set (set xs \<union> set ys))"

(* src: src/src/db.rs:763-779 ChangeEvent::merge *)
definition merge_event :: "change_event \<Rightarrow> change_event \<Rightarrow> change_event" where
  "merge_event e other =
    \<lparr> ce_revision = max (ce_revision e) (ce_revision other), ce_pending_ops = ce_pending_ops other,
      ce_data_changed = (ce_data_changed e \<or> ce_data_changed other),
      ce_full_refresh = (ce_full_refresh e \<or> ce_full_refresh other),
      ce_touched_paths = merge_sorted (ce_touched_paths e) (ce_touched_paths other),
      ce_records_changed = (ce_records_changed e \<or> ce_records_changed other),
      ce_touched_record_keys = merge_sorted (ce_touched_record_keys e) (ce_touched_record_keys other) \<rparr>"

section \<open>Snapshots\<close>

text \<open>The state of the database in memory as a snapshot.\<close>
definition inner_snapshot :: "inner \<Rightarrow> database_snapshot" where
  "inner_snapshot s =
    \<lparr> snap_clock = in_clock s, snap_nodes = in_nodes s, snap_pending_ops = cq_operations (in_pending_ops s),
      snap_scope_policies = in_scope_policies s,
      snap_provisional_transactions = in_provisional_transactions s,
      snap_next_provisional_transaction_id = in_next_provisional_transaction_id s \<rparr>"

definition rebuild_inner_index :: "inner \<Rightarrow> inner" where
  "rebuild_inner_index s = s\<lparr> in_relationship_index := rebuild_relationship_index (in_nodes s) \<rparr>"

(* src: src/src/db.rs:1872-1888 Primadb::load_snapshot (locked section) *)
definition load_snapshot_inner :: "database_snapshot \<Rightarrow> inner \<Rightarrow> inner" where
  "load_snapshot_inner snapshot s =
    (let s1 = rebuild_record_overlay (s\<lparr> in_clock := snap_clock snapshot, in_nodes := snap_nodes snapshot \<rparr>)
     in rebuild_inner_index (s1\<lparr> in_pending_ops := from_operations (snap_pending_ops snapshot),
          in_scope_policies := snap_scope_policies snapshot,
          in_provisional_transactions := snap_provisional_transactions snapshot,
          in_next_provisional_transaction_id := snap_next_provisional_transaction_id snapshot,
          in_unflushed_ops := queue_empty, in_missing_nodes := {||}, in_scheduled_node_fetches := {||} \<rparr>))"

(* src: src/src/db.rs:1902-1922 Primadb::load_persisted_snapshot (locked section) *)
definition load_persisted_snapshot_inner :: "database_snapshot \<Rightarrow> inner \<Rightarrow> inner" where
  "load_persisted_snapshot_inner snapshot s =
    (let local_actor = clk_actor (in_clock s);
         keep_pending = (clk_actor (snap_clock snapshot) = local_actor);
         s1 = rebuild_record_overlay
           (s\<lparr> in_clock := rebased_with_actor local_actor (snap_clock snapshot), in_nodes := snap_nodes snapshot \<rparr>)
     in rebuild_inner_index (s1\<lparr>
          in_pending_ops := (if keep_pending then from_operations (snap_pending_ops snapshot) else queue_empty),
          in_scope_policies := snap_scope_policies snapshot,
          in_provisional_transactions := snap_provisional_transactions snapshot,
          in_next_provisional_transaction_id := snap_next_provisional_transaction_id snapshot,
          in_unflushed_ops := queue_empty, in_missing_nodes := {||}, in_scheduled_node_fetches := {||} \<rparr>))"

(* src: src/src/db.rs:8033-8043 merge_snapshot_into_inner *)
definition merge_snapshot_into_inner :: "database_snapshot \<Rightarrow> inner \<Rightarrow> inner" where
  "merge_snapshot_into_inner snapshot s =
    (let s1 = fold (\<lambda>(_, st) s. s\<lparr> in_clock := observe_node_state st (in_clock s), in_nodes := merge_node_state (in_nodes s) st \<rparr>)
           (sorted_list_of_fmap (snap_nodes snapshot)) s
     in rebuild_record_overlay (rebuild_inner_index (s1\<lparr>
          in_scope_policies := in_scope_policies s1 ++\<^sub>f snap_scope_policies snapshot,
          in_missing_nodes := {||}, in_scheduled_node_fetches := {||} \<rparr>)))"

text \<open>The operations that were accepted, and the state after all of them.\<close>
(* src: src/src/db.rs:1993-2009 Primadb::apply_operations (locked section) *)
fun apply_operations_inner :: "operation list \<Rightarrow> inner \<Rightarrow> operation list \<times> inner" where
  "apply_operations_inner [] s = ([], s)"
| "apply_operations_inner (op # ops) s =
    (let (accepted, s1) = apply_operation_internal op Remote s;
         (applied, s2) = apply_operations_inner ops s1
     in (if accepted then op # applied else applied, s2))"

section \<open>Storage adapters\<close>

text \<open>A file and what it parses to.\<close>
datatype 'a text_file = NoFile | Unreadable | Parsed 'a

(* src: src/src/storage.rs:22-39 MemoryStorageAdapter, SnapshotFileAdapter, SnapshotLogFileAdapter (structs) *)
datatype storage_adapter =
    MemoryStorageAdapter "database_snapshot option" "operation list"
  | SnapshotFileAdapter "database_snapshot text_file"
  | SnapshotLogFileAdapter string usize "database_snapshot text_file" "operation list text_file"

(* src: src/src/storage.rs:116-137 SnapshotLogFileAdapter::read_log *)
definition read_log :: "operation list text_file \<Rightarrow> operation list primadb_result" where
  "read_log f = (case f of NoFile \<Rightarrow> Inr [] | Unreadable \<Rightarrow> Inl (Serde ''log'') | Parsed ops \<Rightarrow> Inr ops)"

definition read_snapshot :: "database_snapshot text_file \<Rightarrow> database_snapshot option primadb_result" where
  "read_snapshot f =
    (case f of NoFile \<Rightarrow> Inr None | Unreadable \<Rightarrow> Inl (Serde ''snapshot'') | Parsed s \<Rightarrow> Inr (Some s))"

text \<open>The checkpoint is loaded into a database of its own, to which the log is applied.\<close>
definition replay_log :: "(nat \<Rightarrow> u64) \<Rightarrow> string \<Rightarrow> database_snapshot option \<Rightarrow> operation list \<Rightarrow> database_snapshot" where
  "replay_log time replica_id checkpoint log =
    (let temp = with_replica_id time (case checkpoint of Some c \<Rightarrow> clk_actor (snap_clock c) | None \<Rightarrow> replica_id);
         temp1 = (case checkpoint of Some c \<Rightarrow> load_snapshot_inner c temp | None \<Rightarrow> temp)
     in inner_snapshot (snd (apply_operations_inner log temp1)))"

(* src: src/src/storage.rs:146-173 SnapshotLogFileAdapter::load_snapshot *)
fun adapter_load_snapshot :: "(nat \<Rightarrow> u64) \<Rightarrow> storage_adapter \<Rightarrow> database_snapshot option primadb_result" where
  "adapter_load_snapshot time (MemoryStorageAdapter snapshot log) = Inr snapshot"
| "adapter_load_snapshot time (SnapshotFileAdapter f) = read_snapshot f"
| "adapter_load_snapshot time (SnapshotLogFileAdapter replica_id threshold checkpoint log) =
    (case read_snapshot checkpoint of
       Inl e \<Rightarrow> Inl e
     | Inr c \<Rightarrow>
         (case read_log log of
            Inl e \<Rightarrow> Inl e
          | Inr ops \<Rightarrow> (if c = None \<and> ops = [] then Inr None else Inr (Some (replay_log time replica_id c ops)))))"

text \<open>Appending to a log that does not parse keeps it so.\<close>
definition append_log :: "operation list \<Rightarrow> operation list text_file \<Rightarrow> operation list text_file" where
  "append_log ops f =
    (if ops = [] then f else case f of NoFile \<Rightarrow> Parsed ops | Unreadable \<Rightarrow> Unreadable | Parsed old \<Rightarrow> Parsed (old @ ops))"

(* src: src/src/storage.rs:175-197 SnapshotLogFileAdapter::flush *)
fun adapter_flush :: "operation list \<Rightarrow> database_snapshot \<Rightarrow> (storage_adapter, primadb_error, unit) fallible" where
  "adapter_flush ops snapshot (MemoryStorageAdapter _ log) = (Inr (), MemoryStorageAdapter (Some snapshot) (log @ ops))"
| "adapter_flush ops snapshot (SnapshotFileAdapter f) = (Inr (), SnapshotFileAdapter (Parsed snapshot))"
| "adapter_flush ops snapshot (SnapshotLogFileAdapter replica_id threshold checkpoint log) =
    (let log1 = append_log ops log
     in case read_log log1 of
          Inl e \<Rightarrow> (Inl e, SnapshotLogFileAdapter replica_id threshold checkpoint log1)
        | Inr all \<Rightarrow>
            (if length all \<ge> threshold \<or> checkpoint = NoFile
             then (Inr (), SnapshotLogFileAdapter replica_id threshold (Parsed snapshot) (Parsed []))
             else (Inr (), SnapshotLogFileAdapter replica_id threshold checkpoint log1)))"

section \<open>The database and its storage\<close>

text \<open>How the segment store was opened.\<close>
record store_options =
  so_digests :: digests
  so_durability :: segment_durability
  so_retention :: usize

record database =
  db_inner :: inner
  db_disk :: fs
  db_persistence :: "database_snapshot text_file option"
  db_storage_adapter :: "storage_adapter option"
  db_external_storage_hooks :: usize
  db_events :: "change_event list"

text \<open>The directory changed: an attached engine answers from the new one.\<close>
definition set_disk :: "store_options \<Rightarrow> fs \<Rightarrow> database \<Rightarrow> database" where
  "set_disk opts fs db =
    db\<lparr> db_disk := fs,
        db_inner := (db_inner db)\<lparr> in_storage_engine :=
          map_option (\<lambda>_. segment_store (so_digests opts) fs) (in_storage_engine (db_inner db)) \<rparr> \<rparr>"

definition update_inner :: "(inner \<Rightarrow> inner) \<Rightarrow> database \<Rightarrow> database" where
  "update_inner f db = db\<lparr> db_inner := f (db_inner db) \<rparr>"

(* src: src/src/db.rs:753-760 storage_metadata_from_inner *)
definition storage_metadata_from_inner :: "inner \<Rightarrow> u64 \<Rightarrow> storage_metadata" where
  "storage_metadata_from_inner s next_tx_id =
    (storage_metadata_new (in_clock s) (cq_operations (in_pending_ops s)) next_tx_id)\<lparr>
      sm_scope_policies := in_scope_policies s,
      sm_provisional_transactions := in_provisional_transactions s,
      sm_next_provisional_transaction_id := in_next_provisional_transaction_id s \<rparr>"

(* src: src/src/db.rs:1698-1740 Primadb::snapshot *)
definition snapshot :: "store_options \<Rightarrow> database \<Rightarrow> database_snapshot \<times> database" where
  "snapshot opts db =
    (let s = db_inner db
     in case in_storage_engine s of
          None \<Rightarrow> (inner_snapshot s, db)
        | Some _ \<Rightarrow>
            (let (exported, fs) = export_snapshot (so_digests opts) None (db_disk db);
                 db1 = set_disk opts fs db
             in case exported of
                  Inl _ \<Rightarrow> (inner_snapshot s, db1)
                | Inr e \<Rightarrow> ((inner_snapshot s)\<lparr> snap_nodes := snap_nodes e ++\<^sub>f in_nodes s \<rparr>, db1)))"

(* src: src/src/db.rs:1808-1819 Primadb::mark_durable_operations_flushed *)
definition mark_durable_operations_flushed :: "operation list \<Rightarrow> inner \<Rightarrow> inner" where
  "mark_durable_operations_flushed ops s =
    (if ops \<noteq> [] \<and> length ops \<le> queue_len (in_unflushed_ops s) \<and>
        take (length ops) (cq_operations (in_unflushed_ops s)) = ops
     then s\<lparr> in_unflushed_ops := drain_prefix (length ops) (in_unflushed_ops s) \<rparr> else s)"

definition clear_overlay_of :: "node_id \<times> node_state \<Rightarrow> inner \<Rightarrow> inner" where
  "clear_overlay_of = (\<lambda>(n, st) s.
    if \<not> is_record_node_id n \<or> fmlookup (in_nodes s) n \<noteq> Some st then s
    else case fmlookup (in_record_overlay_node_keys s) n of
           None \<Rightarrow> s
         | Some key \<Rightarrow>
             s\<lparr> in_record_overlay_node_keys := fmdrop n (in_record_overlay_node_keys s),
                in_record_overlay := fmdrop key (in_record_overlay s) \<rparr>)"

(* src: src/src/db.rs:6081-6093 Inner::clear_flushed_record_overlay *)
definition clear_flushed_record_overlay :: "storage_transaction \<Rightarrow> inner \<Rightarrow> inner" where
  "clear_flushed_record_overlay t s = fold clear_overlay_of (sorted_list_of_fmap (tx_nodes t)) s"

(* src: src/src/db.rs:1783-1794 Primadb::mark_storage_transaction_flushed *)
definition mark_storage_transaction_flushed :: "storage_transaction \<Rightarrow> inner \<Rightarrow> inner" where
  "mark_storage_transaction_flushed t s =
    (let s1 = mark_durable_operations_flushed (tx_journal_ops t) s
     in clear_flushed_record_overlay t
          (s1\<lparr> in_next_storage_tx_id := max (in_next_storage_tx_id s1) (sat_add (tx_id t) 1) \<rparr>))"

text \<open>The transaction a flush writes.\<close>
definition pending_transaction :: "inner \<Rightarrow> storage_transaction" where
  "pending_transaction s =
    (let i = in_next_storage_tx_id s;
         metadata = storage_metadata_from_inner s (sat_add i 1);
         ops = cq_operations (in_unflushed_ops s)
     in if ops = [] then build_storage_transaction i metadata (in_nodes s)
        else build_storage_transaction_from_ops i metadata (in_nodes s) ops)"

definition flush_target :: "store_options \<Rightarrow> (database, primadb_error, unit) fallible" where
  "flush_target opts db =
    (case db_persistence db of
       None \<Rightarrow> (Inr (), db)
     | Some _ \<Rightarrow>
         (let (payload, db1) = snapshot opts db in (Inr (), db1\<lparr> db_persistence := Some (Parsed payload) \<rparr>)))"

definition flush_adapter :: "operation list \<Rightarrow> database_snapshot \<Rightarrow> (database, primadb_error, unit) fallible" where
  "flush_adapter ops snap db =
    (case db_storage_adapter db of
       None \<Rightarrow> (Inr (), db)
     | Some adapter \<Rightarrow>
         (let (r, adapter1) = adapter_flush ops snap adapter in (r, db\<lparr> db_storage_adapter := Some adapter1 \<rparr>)))"

definition flush_engine :: "store_options \<Rightarrow> storage_transaction \<Rightarrow> (database, primadb_error, unit) fallible" where
  "flush_engine opts t db =
    (let (r, fs) = apply_transaction (so_digests opts) (so_durability opts) (so_retention opts) t (db_disk db);
         db1 = set_disk opts fs db
     in case r of
          Inl e \<Rightarrow> (Inl e, db1)
        | Inr _ \<Rightarrow> (Inr (), update_inner (mark_storage_transaction_flushed t) db1))"

text \<open>The transaction and the snapshot are taken before anything is written.\<close>
(* src: src/src/db.rs:2963-3024 Primadb::persist_if_needed *)
definition persist_if_needed :: "store_options \<Rightarrow> (database, primadb_error, unit) fallible" where
  "persist_if_needed opts db =
    (let s = db_inner db;
         t = pending_transaction s;
         unflushed_ops = cq_operations (in_unflushed_ops s);
         has_sync_durable_backend = (db_persistence db \<noteq> None \<or> db_storage_adapter db \<noteq> None \<or> in_storage_engine s \<noteq> None)
     in bindS (flush_target opts) (\<lambda>_.
        bindS (flush_adapter unflushed_ops (inner_snapshot s)) (\<lambda>_.
          if in_storage_engine s \<noteq> None then flush_engine opts t
          else if has_sync_durable_backend \<or> db_external_storage_hooks db = 0
          then modifyS (update_inner (mark_durable_operations_flushed unflushed_ops))
          else okS ())) db)"

definition announce :: "change_event \<Rightarrow> database \<Rightarrow> database" where
  "announce event db = db\<lparr> db_events := db_events db @ [event\<lparr> ce_pending_ops := queue_len (in_pending_ops (db_inner db)) \<rparr>] \<rparr>"

(* src: src/src/db.rs:3026-3052 Primadb::finalize_change *)
definition finalize_change :: "store_options \<Rightarrow> change_impact \<Rightarrow> (database, primadb_error, unit) fallible" where
  "finalize_change opts impact db =
    (let revision = sat_add (in_change_revision (db_inner db)) 1;
         db1 = update_inner (\<lambda>s. s\<lparr> in_change_revision := revision \<rparr>) db;
         event = \<lparr> ce_revision = revision, ce_pending_ops = queue_len (in_pending_ops (db_inner db)),
                   ce_data_changed = ci_data_changed impact, ce_full_refresh = ci_full_refresh impact,
                   ce_touched_paths = ci_touched_paths impact, ce_records_changed = ci_records_changed impact,
                   ce_touched_record_keys = ci_touched_record_keys impact \<rparr>
     in bindS (persist_if_needed opts) (\<lambda>_. modifyS (announce event)) db1)"

(* src: src/src/db.rs:3054-3060 Primadb::finalize_local_change *)
definition finalize_local_change :: "store_options \<Rightarrow> (database, primadb_error, unit) fallible" where
  "finalize_local_change opts db =
    finalize_change opts (impact_from_ops (cq_operations (in_unflushed_ops (db_inner db))) (in_nodes (db_inner db))) db"

(* src: src/src/db.rs:1876-1892 Primadb::load_snapshot *)
definition load_snapshot :: "store_options \<Rightarrow> database_snapshot \<Rightarrow> (database, primadb_error, unit) fallible" where
  "load_snapshot opts snap =
    bindS (modifyS (update_inner (load_snapshot_inner snap))) (\<lambda>_. finalize_change opts full_refresh)"

(* src: src/src/db.rs:1894-1900 Primadb::merge_snapshot *)
definition merge_snapshot :: "store_options \<Rightarrow> database_snapshot \<Rightarrow> (database, primadb_error, unit) fallible" where
  "merge_snapshot opts snap =
    bindS (modifyS (update_inner (merge_snapshot_into_inner snap))) (\<lambda>_. finalize_change opts full_refresh)"

(* src: src/src/db.rs:1902-1924 Primadb::load_persisted_snapshot *)
definition load_persisted_snapshot :: "store_options \<Rightarrow> database_snapshot \<Rightarrow> (database, primadb_error, unit) fallible" where
  "load_persisted_snapshot opts snap =
    bindS (modifyS (update_inner (load_persisted_snapshot_inner snap))) (\<lambda>_. finalize_change opts full_refresh)"

(* src: src/src/db.rs:1994-2015 Primadb::apply_operations *)
definition apply_operations :: "store_options \<Rightarrow> operation list \<Rightarrow> (database, primadb_error, usize) fallible" where
  "apply_operations opts ops db =
    (let (applied, s) = apply_operations_inner ops (db_inner db);
         db1 = db\<lparr> db_inner := s \<rparr>
     in if applied = [] then (Inr 0, db1)
        else bindS (finalize_change opts (impact_from_ops applied (in_nodes s))) (\<lambda>_. okS (length applied)) db1)"

(* src: src/src/db.rs:1941-1950 Primadb::drain_pending_operations *)
definition drain_pending_operations :: "store_options \<Rightarrow> (database, primadb_error, operation list) fallible" where
  "drain_pending_operations opts db =
    (let ops = cq_operations (in_pending_ops (db_inner db));
         db1 = update_inner (\<lambda>s. s\<lparr> in_pending_ops := queue_empty \<rparr>) db
     in if ops = [] then (Inr [], db1) else bindS (finalize_change opts pending_only) (\<lambda>_. okS ops) db1)"

(* src: src/src/db.rs:1952-1968 Primadb::requeue_pending_operations *)
definition requeue_pending_operations :: "store_options \<Rightarrow> operation list \<Rightarrow> (database, primadb_error, usize) fallible" where
  "requeue_pending_operations opts ops db =
    (let db1 = update_inner (\<lambda>s. s\<lparr> in_pending_ops := fold queue_push ops (in_pending_ops s) \<rparr>) db
     in if ops = [] then (Inr 0, db1) else bindS (finalize_change opts pending_only) (\<lambda>_. okS (length ops)) db1)"

(* src: src/src/db.rs:2804-2819 Primadb::attach_storage_adapter *)
definition attach_storage_adapter ::
    "store_options \<Rightarrow> (nat \<Rightarrow> u64) \<Rightarrow> storage_adapter \<Rightarrow> (database, primadb_error, bool) fallible" where
  "attach_storage_adapter opts time adapter =
    bindS (checkS (\<lambda>_. adapter_load_snapshot time adapter)) (\<lambda>loaded.
    bindS (case loaded of Some snap \<Rightarrow> load_snapshot opts snap | None \<Rightarrow> okS ()) (\<lambda>_.
    bindS (modifyS (\<lambda>db. db\<lparr> db_storage_adapter := Some adapter \<rparr>)) (\<lambda>_.
    bindS (persist_if_needed opts) (\<lambda>_. okS (loaded \<noteq> None)))))"

text \<open>The state of the database after the metadata of a store was read.\<close>
definition opened_inner :: "storage_metadata option \<Rightarrow> inner \<Rightarrow> inner" where
  "opened_inner metadata s =
    (case metadata of
       Some m \<Rightarrow>
         s\<lparr> in_clock := sm_clock m, in_pending_ops := from_operations (sm_pending_ops m),
            in_scope_policies := sm_scope_policies m, in_provisional_transactions := sm_provisional_transactions m,
            in_next_provisional_transaction_id := sm_next_provisional_transaction_id m,
            in_unflushed_ops := queue_empty, in_nodes := fmempty, in_record_overlay := fmempty,
            in_record_overlay_node_keys := fmempty, in_missing_nodes := {||}, in_scheduled_node_fetches := {||},
            in_relationship_index := relationship_index_empty, in_next_storage_tx_id := max (sm_next_tx_id m) 1 \<rparr>
     | None \<Rightarrow>
         s\<lparr> in_next_storage_tx_id := 1, in_missing_nodes := {||}, in_scheduled_node_fetches := {||},
            in_relationship_index := relationship_index_empty \<rparr>)"

text \<open>The directory is the one the store was opened on.\<close>
(* src: src/src/db.rs:2821-2849 Primadb::attach_incremental_store *)
definition attach_incremental_store :: "store_options \<Rightarrow> fs \<Rightarrow> (database, primadb_error, bool) fallible" where
  "attach_incremental_store opts store db =
    (case load_metadata (so_digests opts) store of
       (Inl e, fs) \<Rightarrow> (Inl e, db)
     | (Inr metadata, fs) \<Rightarrow>
         bindS (persist_if_needed opts) (\<lambda>_. okS (metadata \<noteq> None))
           (db\<lparr> db_disk := fs,
               db_inner := (opened_inner metadata (db_inner db))\<lparr> in_storage_engine := Some (segment_store (so_digests opts) fs) \<rparr> \<rparr>))"

(* src: src/src/db.rs:2851-2857 Primadb::close_durable_storage *)
definition close_durable_storage :: "database \<Rightarrow> database" where
  "close_durable_storage db =
    db\<lparr> db_inner := (rebuild_record_overlay (db_inner db))\<lparr> in_storage_engine := None \<rparr>,
        db_persistence := None, db_storage_adapter := None \<rparr>"

text \<open>The sum \<open>next_storage_tx_id + 1\<close> wraps in a release build.\<close>
(* src: src/src/db.rs:2752-2779 Primadb::vacuum_storage (storage) *)
definition vacuum_storage :: "store_options \<Rightarrow> (database, primadb_error, unit) fallible" where
  "vacuum_storage opts db =
    (let s = db_inner db
     in if in_storage_engine s = None then (Inr (), db)
        else
          let t = build_storage_transaction (in_next_storage_tx_id s)
                    (storage_metadata_from_inner s (in_next_storage_tx_id s + 1)) (in_nodes s);
              (r, fs) = vacuum (so_digests opts) (so_durability opts) (so_retention opts) t (db_disk db)
          in (r, set_disk opts fs db))"

section \<open>Memory mirrors the disk\<close>

text \<open>A field is newer than a tombstone of the same name.\<close>
definition coherent :: "node_state \<Rightarrow> bool" where
  "coherent st = (\<forall>f fs t. get_cell f st = (Some fs, Some t) \<longrightarrow> t < fld_version fs)"

definition nodes_ok :: "(node_id, node_state) fmap \<Rightarrow> bool" where
  "nodes_ok nodes = (\<forall>n st. fmlookup nodes n = Some st \<longrightarrow> nst_id st = n \<and> coherent st)"

definition stored_ok :: "fs \<Rightarrow> bool" where
  "stored_ok fs = (\<forall>n st. get_node fs n = Inr (Some st) \<longrightarrow> nst_id st = n \<and> coherent st)"

text \<open>The node is stored with the fields it has in memory.\<close>
definition stored_as :: "fs \<Rightarrow> node_id \<Rightarrow> node_state \<Rightarrow> bool" where
  "stored_as fs n st = (\<exists>st'. get_node fs n = Inr (Some st') \<and> nst_fields st' = nst_fields st)"

text \<open>Every node in memory is empty, waits to be flushed or is stored as it is.\<close>
definition mirrored :: "fs \<Rightarrow> inner \<Rightarrow> bool" where
  "mirrored fs s = (\<forall>n st. fmlookup (in_nodes s) n = Some st \<longrightarrow>
     node_state_is_empty st \<or> n |\<in>| touched_nodes (cq_operations (in_unflushed_ops s)) \<or> stored_as fs n st)"

definition log_below :: "fs \<Rightarrow> u64 \<Rightarrow> bool" where
  "log_below fs i = (checkpoint_id fs < i \<and> (\<forall>k \<in> set (journal_keys fs). fst k < i))"

definition mirrors :: "digests \<Rightarrow> fs \<Rightarrow> inner \<Rightarrow> bool" where
  "mirrors d fs s =
    (in_storage_engine s = Some (segment_store d fs) \<and> queue_inv (in_unflushed_ops s) \<and> nodes_ok (in_nodes s) \<and>
     stored_ok fs \<and> mirrored fs s \<and> log_below fs (in_next_storage_tx_id s))"

text \<open>What the flush of a database looks at.\<close>
lemma mirrors_cong:
  assumes "in_storage_engine t = in_storage_engine s" "in_unflushed_ops t = in_unflushed_ops s"
    "in_nodes t = in_nodes s" "in_next_storage_tx_id t = in_next_storage_tx_id s"
  shows "mirrors d fs t = mirrors d fs s"
  by (simp add: mirrors_def mirrored_def assms)

lemma coherent_new: "coherent (node_state_new n)"
  by (simp add: coherent_def get_cell_def node_state_new_def)

lemma coherent_put_cell:
  "coherent st \<Longrightarrow> (\<And>fs t. c = (Some fs, Some t) \<Longrightarrow> t < fld_version fs) \<Longrightarrow> coherent (put_cell f c st)"
  by (auto simp: coherent_def)

lemma cell_apply_coherent:
  assumes "\<And>fs t. c = (Some fs, Some t) \<Longrightarrow> t < fld_version fs" "cell_apply m a c = (Some fs, Some t)"
  shows "t < fld_version fs"
  using assms
  by (cases a; cases c)
    (auto simp: cell_write_def cell_member_def blocks_def less_max_iff_disj
      split: option.splits field_value.splits if_splits intro: order.strict_trans)

lemma touched_iff: "n |\<in>| touched_nodes ops \<longleftrightarrow> (\<exists>op \<in> set ops. action_node (action op) = n)"
  by (induction ops) auto

lemma compaction_key_node: "compaction_key a = compaction_key b \<Longrightarrow> action_node (action a) = action_node (action b)"
  by (cases "action a"; cases "action b") (auto simp: compaction_key_def)

lemma touched_push:
  assumes "queue_inv q"
  shows "n |\<in>| touched_nodes (cq_operations (queue_push op q)) \<longleftrightarrow>
    n = action_node (action op) \<or> n |\<in>| touched_nodes (cq_operations q)"
proof (cases "fmlookup (cq_indices q) (compaction_key op)")
  case None
  then show ?thesis by (auto simp: queue_push_new touched_iff)
next
  case (Some i)
  then have i: "i < length (cq_operations q)" "compaction_key (cq_operations q ! i) = compaction_key op"
    using assms by (simp_all add: queue_inv_lookup)
  from compaction_key_node [OF i(2)] have node: "action_node (action (cq_operations q ! i)) = action_node (action op)" .
  have "(\<exists>x \<in> set ((cq_operations q)[i := op]). action_node (action x) = n) \<longleftrightarrow>
      (\<exists>x \<in> set (cq_operations q). action_node (action x) = n)"
    unfolding Bex_def in_set_conv_nth using i(1) node by (auto simp: nth_list_update) (metis nth_list_update_neq)+
  moreover have "action_node (action op) = n \<Longrightarrow> \<exists>x \<in> set (cq_operations q). action_node (action x) = n"
    using i(1) node nth_mem by metis
  ultimately show ?thesis using Some by (auto simp: queue_push_old touched_iff)
qed

lemma nodes_ok_upd: "nodes_ok nodes \<Longrightarrow> nst_id st = n \<Longrightarrow> coherent st \<Longrightarrow> nodes_ok (fmupd n st nodes)"
  by (simp add: nodes_ok_def)

lemma nodes_ok_or_new: "nodes_ok nodes \<Longrightarrow> nst_id (node_or_new nodes n) = n \<and> coherent (node_or_new nodes n)"
  by (auto simp: nodes_ok_def node_or_new_def coherent_new split: option.splits) (simp add: node_state_new_def)

lemma nodes_ok_apply:
  assumes "nodes_ok nodes"
  shows "nodes_ok (apply_step op nodes)"
proof -
  let ?n = "action_node (action op)" and ?f = "action_field (action op)"
  let ?st = "node_or_new nodes ?n"
  have st: "nst_id ?st = ?n" "coherent ?st" using nodes_ok_or_new [OF assms] by auto
  have "coherent (put_cell ?f (cell_apply (marker_of op) (action op) (get_cell ?f ?st)) ?st)"
    by (rule coherent_put_cell [OF st(2)], rule cell_apply_coherent) (use st(2) in \<open>auto simp: coherent_def\<close>)
  then show ?thesis
    unfolding apply_step_eq node_apply_def using st(1) by (intro nodes_ok_upd [OF assms]) simp_all
qed

lemma rejected_node:
  assumes "\<not> fst (apply_action op nodes)"
  shows "snd (apply_action op nodes) = fmupd (action_node (action op)) (node_or_new nodes (action_node (action op))) nodes"
proof -
  have "snd (apply_to_node m a st) = st" if "\<not> fst (apply_to_node m a st)" for m a st
    using that by (cases a)
      (auto simp: apply_set_field_def apply_add_member_def apply_remove_member_def apply_delete_field_def
        split: option.splits field_value.splits if_splits)
  with assms show ?thesis by (simp add: apply_action_def node_or_new_def Let_def split_def)
qed

lemma mirrored_touch: "mirrored fs s \<Longrightarrow> in_unflushed_ops t = in_unflushed_ops s \<Longrightarrow>
    in_nodes t = fmupd n (node_or_new (in_nodes s) n) (in_nodes s) \<Longrightarrow> mirrored fs t"
  by (auto simp: mirrored_def node_or_new_def node_state_is_empty_def node_state_new_def split: option.splits if_splits)

lemma frame_simps [simp]:
  "in_next_storage_tx_id (with_journal f s) = in_next_storage_tx_id s"
  "in_next_storage_tx_id (refresh_record_overlay n s) = in_next_storage_tx_id s"
  "in_next_storage_tx_id (request_reindex_node_relationships n s) = in_next_storage_tx_id s"
  by (simp_all add: with_journal_def refresh_record_overlay_def request_reindex_node_relationships_def
      reindex_node_relationships_def journal_node_def Let_def split: option.split)

text \<open>What an operation changes of the parts that are flushed.\<close>
lemma apply_operation_effect:
  defines "t op origin s \<equiv> snd (apply_operation_internal op origin s)"
  shows "in_storage_engine (t op origin s) = in_storage_engine s" "in_next_storage_tx_id (t op origin s) = in_next_storage_tx_id s"
    "in_nodes (t op origin s) = in_nodes s \<and> in_unflushed_ops (t op origin s) = in_unflushed_ops s \<or>
     \<not> fst (apply_action op (in_nodes s)) \<and> in_nodes (t op origin s) = snd (apply_action op (in_nodes s)) \<and>
       in_unflushed_ops (t op origin s) = in_unflushed_ops s \<or>
     in_nodes (t op origin s) = apply_step op (in_nodes s) \<and>
       in_unflushed_ops (t op origin s) = queue_push op (in_unflushed_ops s)"
  by (simp_all add: t_def apply_operation_cases written_state_def indexed_state_def queued_def enqueued_def Let_def
      journal_node_def apply_step_def)

lemma mirrors_apply:
  assumes "mirrors d fs s"
  shows "mirrors d fs (snd (apply_operation_internal op origin s))"
proof -
  let ?t = "snd (apply_operation_internal op origin s)"
  note effect = apply_operation_effect [of op origin s]
  consider "in_nodes ?t = in_nodes s" "in_unflushed_ops ?t = in_unflushed_ops s"
    | "\<not> fst (apply_action op (in_nodes s))" "in_nodes ?t = snd (apply_action op (in_nodes s))" "in_unflushed_ops ?t = in_unflushed_ops s"
    | "in_nodes ?t = apply_step op (in_nodes s)" "in_unflushed_ops ?t = queue_push op (in_unflushed_ops s)"
    using effect(3) by blast
  then show ?thesis
  proof cases
    case 1
    with assms show ?thesis using mirrors_cong [OF effect(1) 1(2,1) effect(2)] by simp
  next
    case 2
    have "mirrored fs s" using assms by (simp add: mirrors_def)
    then have "mirrored fs ?t" by (rule mirrored_touch [OF _ 2(3)]) (simp only: 2(2) rejected_node [OF 2(1)])
    moreover have "nodes_ok (in_nodes ?t)" using assms nodes_ok_apply [of "in_nodes s" op] 2(2) by (simp add: mirrors_def apply_step_def)
    ultimately show ?thesis using assms effect(1,2) 2(3) by (simp add: mirrors_def)
  next
    case 3
    have q: "queue_inv (in_unflushed_ops s)" and m: "mirrored fs s" using assms by (simp_all add: mirrors_def)
    have "mirrored fs ?t"
      unfolding mirrored_def 3 touched_push [OF q]
    proof (intro allI impI)
      fix n st assume st: "fmlookup (apply_step op (in_nodes s)) n = Some st"
      show "node_state_is_empty st \<or> (n = action_node (action op) \<or>
          n |\<in>| touched_nodes (cq_operations (in_unflushed_ops s))) \<or> stored_as fs n st"
        using m st by (cases "n = action_node (action op)") (auto simp: mirrored_def apply_step_eq)
    qed
    then show ?thesis using assms effect(1,2) 3 by (simp add: mirrors_def nodes_ok_apply queue_inv_push)
  qed
qed

text \<open>Merging two nodes merges their cells.\<close>

definition tombstone_cell :: "version_marker \<Rightarrow> cell \<Rightarrow> cell" where
  "tombstone_cell t c = (if cell_blocks c t then c else (None, Some t))"

definition field_cell :: "field_state \<Rightarrow> cell \<Rightarrow> cell" where
  "field_cell fs c =
    (if blocks (snd c) (fld_version fs) then c
     else (Some (case fst c of Some existing \<Rightarrow> merge_field_state existing fs | None \<Rightarrow> fs), None))"

lemma merge_cells:
  "merge_tombstone = (\<lambda>(f, t) st. put_cell f (tombstone_cell t (get_cell f st)) st)"
  "merge_field = (\<lambda>(f, fs) st. put_cell f (field_cell fs (get_cell f st)) st)"
  by (auto simp: fun_eq_iff merge_tombstone_def merge_field_def tombstone_cell_def field_cell_def cell_blocks_def get_cell_def
      put_cell_def fmupd_put_entry)

lemma fold_put_cell:
  "distinct (map fst xs) \<Longrightarrow>
    get_cell f (fold (\<lambda>(k, v) st. put_cell k (g v (get_cell k st)) st) xs st) =
      (case map_of xs f of Some v \<Rightarrow> g v (get_cell f st) | None \<Rightarrow> get_cell f st)"
proof (induction xs arbitrary: st)
  case (Cons x xs)
  obtain k v where x: "x = (k, v)" by fastforce
  with Cons.prems have "map_of xs k = None" by (auto simp: map_of_eq_None_iff)
  with Cons x show ?case by (auto split: option.splits)
qed simp

lemma fold_put_cell_id: "nst_id (fold (\<lambda>(k, v) st. put_cell k (g v (get_cell k st)) st) xs st) = nst_id st"
  by (induction xs arbitrary: st) auto

lemma get_cell_merge:
  "get_cell f (merge_into_node current incoming) =
    (let c = (case fmlookup (nst_tombstones incoming) f of Some t \<Rightarrow> tombstone_cell t (get_cell f current) | None \<Rightarrow> get_cell f current)
     in case fmlookup (nst_fields incoming) f of Some fs \<Rightarrow> field_cell fs c | None \<Rightarrow> c)"
  by (simp add: merge_into_node_def merge_cells fold_put_cell Let_def split: option.split)

lemma merge_into_new:
  assumes "coherent st"
  shows "get_cell f (merge_into_node (node_state_new n) st) =
    (fmlookup (nst_fields st) f, if fmlookup (nst_fields st) f = None then fmlookup (nst_tombstones st) f else None)"
proof -
  have "fmlookup (nst_fields st) f = Some fs \<Longrightarrow> fmlookup (nst_tombstones st) f = Some t \<Longrightarrow> t < fld_version fs" for fs t
    using assms by (simp add: coherent_def get_cell_def)
  moreover have "get_cell f (node_state_new n) = (None, None)" by (simp add: get_cell_def node_state_new_def)
  ultimately show ?thesis
    unfolding get_cell_merge
    by (auto simp: tombstone_cell_def field_cell_def cell_blocks_def blocks_def Let_def split: option.splits)
      (meson leD)
qed

lemma loaded_ok:
  fixes n :: node_id
  assumes "coherent st"
  defines "st' \<equiv> merge_into_node (node_state_new n) st"
  shows "nst_fields st' = nst_fields st" "coherent st'" "nst_id st' = n"
proof -
  show "nst_fields st' = nst_fields st"
  proof (rule fmap_ext)
    fix f show "fmlookup (nst_fields st') f = fmlookup (nst_fields st) f"
      using arg_cong [OF merge_into_new [OF assms(1), of f n], of fst] by (simp add: get_cell_def st'_def)
  qed
  show "coherent st'" unfolding coherent_def st'_def merge_into_new [OF assms(1)] by simp
  show "nst_id st' = n" by (simp add: st'_def merge_into_node_def merge_cells fold_put_cell_id) (simp add: node_state_new_def)
qed

lemma empty_is_new: "node_state_is_empty st \<Longrightarrow> nst_id st = n \<Longrightarrow> st = node_state_new n"
  by (simp add: node_state_is_empty_def node_state_new_def)

lemma mirrors_load:
  assumes "mirrors d fs s"
  shows "mirrors d fs (snd (maybe_load_node n s))"
proof (cases rule: maybe_load_cases [where n = n and s = s])
  case 1
  with assms show ?thesis by simp
next
  case 2
  have "mirrors d fs (marked_missing n s) = mirrors d fs s"
    by (rule mirrors_cong) (simp_all add: marked_missing_def Let_def journal_missing_node_def)
  with 2 assms show ?thesis by simp
next
  case (3 engine st)
  show ?thesis
  proof (cases "case fmlookup (in_nodes s) n of Some e \<Rightarrow> \<not> node_state_is_empty e | None \<Rightarrow> False")
    case True
    with assms 3(1) show ?thesis by (simp add: maybe_load_node_def split: option.splits)
  next
    case False
    have "get_node fs n = Inr (Some st)" using 3(1,2) assms by (auto simp: mirrors_def segment_store_def)
    then have st: "nst_id st = n" "coherent st" "get_node fs n = Inr (Some st)"
      using assms by (auto simp: mirrors_def stored_ok_def)
    have "node_or_new (in_nodes s) n = node_state_new n"
      using False assms by (auto simp: node_or_new_def mirrors_def nodes_ok_def split: option.splits intro: empty_is_new)
    then have merged: "merge_node_state (in_nodes s) st = fmupd n (merge_into_node (node_state_new n) st) (in_nodes s)"
      by (simp add: merge_node_state_def st(1) Let_def node_or_new_def)
    let ?t = "loaded_node n st s"
    have t: "in_storage_engine ?t = in_storage_engine s" "in_unflushed_ops ?t = in_unflushed_ops s"
      "in_nodes ?t = fmupd n (merge_into_node (node_state_new n) st) (in_nodes s)" "in_next_storage_tx_id ?t = in_next_storage_tx_id s"
      by (simp_all add: loaded_node_def Let_def journal_missing_node_def journal_node_def merged)
    note ok = loaded_ok [OF st(2), of n]
    have "mirrored fs ?t"
      using assms ok(1) st(3) by (auto simp: mirrored_def t mirrors_def stored_as_def)
    moreover have "nodes_ok (in_nodes ?t)" unfolding t using assms ok by (intro nodes_ok_upd) (simp_all add: mirrors_def)
    ultimately show ?thesis using assms 3(3) by (simp add: mirrors_def t)
  qed
qed

text \<open>Every write and read keeps memory and disk in step and takes no transaction id.\<close>
definition in_step :: "inner \<Rightarrow> inner \<Rightarrow> bool" where
  "in_step s t = (in_next_storage_tx_id t = in_next_storage_tx_id s \<and> (\<forall>d fs. mirrors d fs s \<longrightarrow> mirrors d fs t))"

lemma in_step_cong:
  assumes "in_storage_engine t = in_storage_engine s" "in_unflushed_ops t = in_unflushed_ops s"
    "in_nodes t = in_nodes s" "in_next_storage_tx_id t = in_next_storage_tx_id s"
  shows "in_step s t"
  using mirrors_cong [OF assms] assms(4) by (simp add: in_step_def)

lemma in_step_apply: "in_step s (snd (apply_operation_internal op origin s))"
  by (simp add: in_step_def mirrors_apply apply_operation_effect)

lemma in_step_trans: "in_step s t \<Longrightarrow> in_step t u \<Longrightarrow> in_step s u"
  by (simp add: in_step_def)

interpretation mirror: write_primitives in_step
proof
  show "in_step s (snd (maybe_load_node n s))" for s n
  proof -
    have "in_next_storage_tx_id (snd (maybe_load_node n s)) = in_next_storage_tx_id s"
      by (cases rule: maybe_load_cases [where n = n and s = s])
        (simp_all add: marked_missing_def loaded_node_def Let_def journal_missing_node_def journal_node_def)
    then show ?thesis by (simp add: in_step_def mirrors_load)
  qed
  show "in_step s (ensure_node n s)" for s n
  proof -
    let ?t = "ensure_node n s"
    have t: "in_storage_engine ?t = in_storage_engine s" "in_unflushed_ops ?t = in_unflushed_ops s"
      "in_next_storage_tx_id ?t = in_next_storage_tx_id s"
      "in_nodes ?t = fmupd n (node_or_new (in_nodes s) n) (in_nodes s)"
      by (auto simp: ensure_node_def Let_def journal_missing_node_def journal_node_def node_or_new_def fmlookup_dom_iff
          split: option.splits intro!: fmap_ext)
    have "mirrors d fs ?t" if m: "mirrors d fs s" for d fs
    proof -
      from m have "mirrored fs ?t" by (intro mirrored_touch [OF _ t(2,4)]) (simp add: mirrors_def)
      moreover have "nodes_ok (in_nodes ?t)"
        unfolding t using m nodes_ok_or_new by (intro nodes_ok_upd) (auto simp: mirrors_def)
      ultimately show ?thesis using m by (simp add: mirrors_def t)
    qed
    then show ?thesis by (simp add: in_step_def t)
  qed
  show "in_step s (stamp_and_apply ns a s)" for s ns a
  proof -
    have "in_step s (s\<lparr> in_clock := c, in_reads := k \<rparr>)" for c k by (rule in_step_cong) simp_all
    from in_step_trans [OF this in_step_apply] show ?thesis by (simp add: stamp_and_apply_def split_def Let_def)
  qed
  show "in_step s (s\<lparr> in_clock := c \<rparr>)" for s c by (rule in_step_cong) simp_all
qed (auto simp: in_step_def)

section \<open>Flushing\<close>

lemma materialize_paths:
  assumes "w \<in> set (concat (fst (materialize_steps d fs payload)))"
  shows "journal_key (fst w) = None" "fst w \<noteq> PCheckpoint"
proof -
  have "is_data (fst w) \<or> (\<exists>path. fst w = PDirect path)"
  proof (cases "materialize_direct_index_changes d fs payload")
    case (Inl e)
    then show ?thesis using assms by (auto simp: materialize_steps_def node_steps_def write_file_def)
  next
    case (Inr buckets)
    have "fst w' = PDirect path" if "w' \<in> set (concat (bucket_step fs (path, b)))" for w' path b
      using bucket_steps_paths [OF that] by simp
    then have "\<exists>path. fst w = PDirect path" if "w \<in> set (concat buckets)"
      using Inr that by (fastforce simp: materialize_direct_index_changes_def split: sum.splits)
    then show ?thesis
      using assms Inr by (auto simp: materialize_steps_def node_steps_def record_steps_def write_file_def remove_file_def)
  qed
  then show "journal_key (fst w) = None" "fst w \<noteq> PCheckpoint" by (cases "fst w"; auto)+
qed

lemma commit_log:
  assumes "apply_steps d durability retention t fs = (steps, None)"
  shows "fmlookup (run steps fs) PCheckpoint = fmlookup fs PCheckpoint"
    "fmlookup (run steps fs) (PJournal i b) \<noteq> None \<Longrightarrow> i = tx_id t \<or> fmlookup fs (PJournal i b) \<noteq> None"
proof -
  have writes: "fst w \<noteq> PCheckpoint \<and> (fst w = PJournal i b \<longrightarrow> i = tx_id t \<or> snd w = None)"
    if mem: "w \<in> set (concat steps)" for w i b
  proof -
    obtain payload where payload: "build_commit_payload fs t = Inr payload"
      using assms by (auto simp: apply_steps_def split: sum.splits)
    let ?p = "write_file (PJournal (tx_id t) True) (JournalFile (commit_record_for_payload d payload))"
    obtain ms where ms: "materialize_steps d (run [?p] fs) payload = (ms, None)"
      using assms payload by (auto simp: apply_steps_def Let_def split: prod.splits option.splits)
    have prunes: "fst w \<noteq> PCheckpoint \<and> snd w = None" if "w \<in> set (concat (prune_journal durability retention g))" for g w
      using that by (auto simp: prune_journal_def prune_journal_with_report_def Let_def remove_file_def split: if_splits)
    let ?f = "rename_file (run (?p # ms) fs) (PJournal (tx_id t) True) (PJournal (tx_id t) False)"
    let ?pruned = "prune_journal durability retention (run (?p # ms @ [?f]) fs)"
    have "steps = ?p # ms @ [?f] @ ?pruned" using assms payload ms by (simp add: apply_steps_def Let_def)
    with mem have "w \<in> set ?p \<union> set (concat ms) \<union> set ?f \<union> set (concat ?pruned)" by auto
    then consider "w \<in> set ?p" | "w \<in> set (concat (fst (materialize_steps d (run [?p] fs) payload)))"
      | "w \<in> set ?f" | "w \<in> set (concat ?pruned)" unfolding ms by auto
    then show ?thesis
    proof cases
      case 2
      from materialize_paths [OF this] show ?thesis by auto
    next
      case 4
      from prunes [OF this] show ?thesis by simp
    qed (auto simp: write_file_def rename_file_def)
  qed
  show "fmlookup (run steps fs) PCheckpoint = fmlookup fs PCheckpoint"
    by (rule lookup_run_other) (metis imageE writes)
  assume "fmlookup (run steps fs) (PJournal i b) \<noteq> None"
  then show "i = tx_id t \<or> fmlookup fs (PJournal i b) \<noteq> None"
    using writes by (fastforce simp: lookup_run split: option.splits dest!: map_of_rev_mem)
qed

lemma assigned_manifest: "assigned d payload (File PManifest) = Some (Some (VFile (ManifestFile (tx_metadata (cp_transaction payload)))))"
  by (simp add: assigned_def plain_writes_def record_steps_def write_file_def)

lemma commit_ok:
  assumes "at_rest d fs" "fresh t fs" "transaction_ok t" "durability = Full \<or> fmlookup fs PCheckpoint = None"
  obtains fs' where "apply_transaction d durability retention t fs = (Inr (), fs')" "at_rest d fs'"
    "\<And>n. get_node fs' n = (case fmlookup (tx_nodes t) n of Some st \<Rightarrow> Inr (Some st) | None \<Rightarrow> get_node fs n)"
    "fmlookup fs' PManifest = Some (ManifestFile (tx_metadata t))" "fmlookup fs' PCheckpoint = fmlookup fs PCheckpoint"
    "\<And>i b. fmlookup fs' (PJournal i b) \<noteq> None \<Longrightarrow> i = tx_id t \<or> fmlookup fs (PJournal i b) \<noteq> None"
proof -
  obtain payload w steps finish pruned where a:
    "apply_steps d durability retention t fs = (w # steps @ [finish] @ prune_steps pruned, None)" "cp_transaction payload = t"
    "\<And>m. at_rest d (run (prune_steps (take m pruned)) (run (w # steps @ [finish]) fs))"
    "\<And>m. contents d (run (prune_steps (take m pruned)) (run (w # steps @ [finish]) fs)) = override d payload (contents d fs)"
    using apply_steps_shape [OF assms] by metis
  let ?fs = "run (w # steps @ [finish] @ prune_steps pruned) fs"
  have all: "?fs = run (prune_steps pruned) (run (w # steps @ [finish]) fs)"
    using run_append [of "w # steps @ [finish]" "prune_steps pruned" fs] by simp
  have new: "contents d ?fs = override d payload (contents d fs)" unfolding all using a(4) [of "length pruned"] by simp
  have "contents d ?fs (File PManifest) = Some (VFile (ManifestFile (tx_metadata t)))"
    unfolding new override_def using assigned_manifest [of d payload] a(2) by simp
  then have "fmlookup ?fs PManifest = Some (ManifestFile (tx_metadata t))" by (auto simp: contents_def)
  moreover have "apply_transaction d durability retention t fs = (Inr (), ?fs)" by (simp add: apply_transaction_def a(1))
  moreover have "at_rest d ?fs" unfolding all using a(3) [of "length pruned"] by simp
  ultimately show thesis
    using that get_node_override [OF new] commit_log [OF a(1)] unfolding a(2) by metis
qed

text \<open>The manifest is there as soon as anything is, and its next transaction is newer than the log.\<close>
definition manifest_ahead :: "fs \<Rightarrow> bool" where
  "manifest_ahead fs =
    (case fmlookup fs PManifest of
       Some (ManifestFile m) \<Rightarrow> sm_schema_version m = 1 \<and> log_below fs (sm_next_tx_id m)
     | Some _ \<Rightarrow> False
     | None \<Rightarrow> fmlookup fs PCheckpoint = None \<and> journal_keys fs = [])"

definition disk_ok :: "store_options \<Rightarrow> fs \<Rightarrow> bool" where
  "disk_ok opts fs =
    (at_rest (so_digests opts) fs \<and> (so_durability opts = Full \<or> fmlookup fs PCheckpoint = None) \<and> stored_ok fs \<and> manifest_ahead fs)"

text \<open>A database on a segment store, between two operations.\<close>
definition settled :: "store_options \<Rightarrow> database \<Rightarrow> bool" where
  "settled opts db =
    (disk_ok opts (db_disk db) \<and> mirrors (so_digests opts) (db_disk db) (db_inner db) \<and> inner_inv (db_inner db) \<and>
     db_persistence db = None \<and> db_storage_adapter db = None)"

lemma built_metadata:
  "tx_metadata (build_storage_transaction i metadata nodes) = metadata" "tx_journal_ops (build_storage_transaction i metadata nodes) = []"
proof -
  have "tx_metadata (fst (fold (index_node nodes) ns tc)) = tx_metadata (fst tc) \<and>
      tx_journal_ops (fst (fold (index_node nodes) ns tc)) = tx_journal_ops (fst tc)" for ns tc
    by (induction ns arbitrary: tc) (auto simp: index_node_def Let_def split_def split: option.splits)
  then show "tx_metadata (build_storage_transaction i metadata nodes) = metadata"
    "tx_journal_ops (build_storage_transaction i metadata nodes) = []"
    by (simp_all add: build_storage_transaction_def)
qed

lemma touched_stored: "n |\<in>| touched_nodes ops \<Longrightarrow> n |\<in>| touched_storage_nodes nodes ops"
proof -
  have inner: "n |\<in>| fold (\<lambda>p t. if fmlookup nodes p \<noteq> None then finsert p t else t) ps A" if "n |\<in>| A" for ps A
    using that by (induction ps arbitrary: A) auto
  have "n |\<in>| fold (\<lambda>n t. fold (\<lambda>p t. if fmlookup nodes p \<noteq> None then finsert p t else t) (ancestor_paths n) t) ns A"
    if "n |\<in>| A" for ns A
    using that
  proof (induction ns arbitrary: A)
    case (Cons m ns)
    show ?case using Cons.IH [OF inner [OF Cons.prems]] by simp
  qed simp
  then show "n |\<in>| touched_nodes ops \<Longrightarrow> n |\<in>| touched_storage_nodes nodes ops"
    by (simp add: touched_storage_nodes_def)
qed

lemma pending_transaction_simps:
  defines "t s \<equiv> pending_transaction s"
  shows "tx_id (t s) = in_next_storage_tx_id s" "transaction_ok (t s)"
    "tx_metadata (t s) = storage_metadata_from_inner s (sat_add (in_next_storage_tx_id s) 1)"
    "tx_journal_ops (t s) = cq_operations (in_unflushed_ops s)"
    "fmlookup (tx_nodes (t s)) n = Some st \<Longrightarrow> fmlookup (in_nodes s) n = Some st"
    "n |\<in>| touched_nodes (cq_operations (in_unflushed_ops s)) \<Longrightarrow> fmlookup (tx_nodes (t s)) n = fmlookup (in_nodes s) n"
  using built_transaction_ok touched_stored
  by (auto simp: t_def pending_transaction_def build_storage_transaction_from_ops_def built_id built_metadata Let_def
      transaction_ok_def listed_entries_def split: if_splits)

lemma overlay_cleared:
  "\<exists>a b. clear_flushed_record_overlay t s = s\<lparr> in_record_overlay := a, in_record_overlay_node_keys := b \<rparr>"
proof -
  have "\<exists>a b. fold clear_overlay_of xs s = s\<lparr> in_record_overlay := a, in_record_overlay_node_keys := b \<rparr>" for xs
  proof (induction xs arbitrary: s)
    case (Cons x xs)
    have "clear_overlay_of x s = s\<lparr> in_record_overlay := in_record_overlay (clear_overlay_of x s),
        in_record_overlay_node_keys := in_record_overlay_node_keys (clear_overlay_of x s) \<rparr>"
      by (cases x) (simp add: clear_overlay_of_def split: option.split)
    then obtain a b where "clear_overlay_of x s = s\<lparr> in_record_overlay := a, in_record_overlay_node_keys := b \<rparr>" by (rule that)
    with Cons.IH [of "clear_overlay_of x s"] show ?case by auto
  next
    case Nil
    have "s = s\<lparr> in_record_overlay := in_record_overlay s, in_record_overlay_node_keys := in_record_overlay_node_keys s \<rparr>" by simp
    then show ?case by (metis fold_simps(1))
  qed
  then show ?thesis by (simp add: clear_flushed_record_overlay_def)
qed

text \<open>What a flush leaves in memory.\<close>
lemma flushed_inner:
  assumes "queue_inv (in_unflushed_ops s)" "tx_journal_ops t = cq_operations (in_unflushed_ops s)" "tx_id t = in_next_storage_tx_id s"
  obtains a b q where "mark_storage_transaction_flushed t s = s\<lparr> in_unflushed_ops := q,
      in_next_storage_tx_id := sat_add (in_next_storage_tx_id s) 1, in_record_overlay := a, in_record_overlay_node_keys := b \<rparr>"
    "queue_inv q" "cq_operations q = []"
proof -
  let ?ops = "cq_operations (in_unflushed_ops s)"
  let ?q = "if ?ops = [] then in_unflushed_ops s else drain_prefix (length ?ops) (in_unflushed_ops s)"
  have mark: "mark_durable_operations_flushed (tx_journal_ops t) s = s\<lparr> in_unflushed_ops := ?q \<rparr>"
    by (simp add: mark_durable_operations_flushed_def assms(2) queue_len_def)
  have "max (in_next_storage_tx_id s) (sat_add (in_next_storage_tx_id s) 1) = sat_add (in_next_storage_tx_id s) 1"
    by (rule max_absorb2) (rule sat_add_ge)
  then obtain a b where "mark_storage_transaction_flushed t s = s\<lparr> in_unflushed_ops := ?q,
      in_next_storage_tx_id := sat_add (in_next_storage_tx_id s) 1, in_record_overlay := a, in_record_overlay_node_keys := b \<rparr>"
    using overlay_cleared [of t "s\<lparr> in_unflushed_ops := ?q, in_next_storage_tx_id := sat_add (in_next_storage_tx_id s) 1 \<rparr>"]
    by (auto simp: mark_storage_transaction_flushed_def mark assms(3) Let_def)
  moreover have "queue_inv ?q" using assms(1) queue_inv_drain by simp
  moreover have "cq_operations ?q = []" by (simp add: drain_prefix_def)
  ultimately show thesis by (rule that)
qed

lemma flush_ok:
  assumes "settled opts db" "in_next_storage_tx_id (db_inner db) \<noteq> - 1"
  defines "s \<equiv> db_inner db"
  obtains db' a b q where "persist_if_needed opts db = (Inr (), db')" "settled opts db'"
    "db_inner db' = s\<lparr> in_storage_engine := Some (segment_store (so_digests opts) (db_disk db')), in_unflushed_ops := q,
       in_next_storage_tx_id := sat_add (in_next_storage_tx_id s) 1, in_record_overlay := a, in_record_overlay_node_keys := b \<rparr>"
    "cq_operations q = []"
    "fmlookup (db_disk db') PManifest = Some (ManifestFile (storage_metadata_from_inner s (sat_add (in_next_storage_tx_id s) 1)))"
    "\<And>n st. fmlookup (in_nodes s) n = Some st \<Longrightarrow> node_state_is_empty st \<or> stored_as (db_disk db') n st"
    "\<And>n. fmlookup (in_nodes s) n = None \<Longrightarrow> get_node (db_disk db') n = get_node (db_disk db) n"
proof -
  let ?d = "so_digests opts" and ?fs = "db_disk db" and ?i = "in_next_storage_tx_id s"
  let ?t = "pending_transaction s"
  have m: "mirrors ?d ?fs s" and disk: "disk_ok opts ?fs" using assms(1) by (simp_all add: settled_def s_def)
  note t = pending_transaction_simps [where s = s]
  have fresh: "fresh ?t ?fs" using m by (simp add: fresh_def t(1) mirrors_def log_below_def)
  obtain fs' where c: "apply_transaction ?d (so_durability opts) (so_retention opts) ?t ?fs = (Inr (), fs')" "at_rest ?d fs'"
    "\<And>n. get_node fs' n = (case fmlookup (tx_nodes ?t) n of Some st \<Rightarrow> Inr (Some st) | None \<Rightarrow> get_node ?fs n)"
    "fmlookup fs' PManifest = Some (ManifestFile (tx_metadata ?t))" "fmlookup fs' PCheckpoint = fmlookup ?fs PCheckpoint"
    "\<And>i b. fmlookup fs' (PJournal i b) \<noteq> None \<Longrightarrow> i = tx_id ?t \<or> fmlookup ?fs (PJournal i b) \<noteq> None"
    using commit_ok [OF _ fresh t(2)] disk unfolding disk_ok_def by metis
  let ?s = "s\<lparr> in_storage_engine := Some (segment_store ?d fs') \<rparr>"
  have pre: "queue_inv (in_unflushed_ops ?s)" "tx_journal_ops ?t = cq_operations (in_unflushed_ops ?s)"
    "tx_id ?t = in_next_storage_tx_id ?s"
    using m t(1,4) by (simp_all add: mirrors_def)
  obtain a b q where f: "mark_storage_transaction_flushed ?t ?s = ?s\<lparr> in_unflushed_ops := q,
      in_next_storage_tx_id := sat_add ?i 1, in_record_overlay := a, in_record_overlay_node_keys := b \<rparr>"
    "queue_inv q" "cq_operations q = []"
    by (rule flushed_inner [OF pre], rule that) simp_all
  let ?s' = "?s\<lparr> in_unflushed_ops := q, in_next_storage_tx_id := sat_add ?i 1, in_record_overlay := a, in_record_overlay_node_keys := b \<rparr>"
  let ?db = "db\<lparr> db_disk := fs', db_inner := ?s' \<rparr>"
  have engine: "in_storage_engine s = Some (segment_store ?d ?fs)" using m by (simp add: mirrors_def)
  have run: "persist_if_needed opts db = (Inr (), ?db)"
    using assms(1) engine c(1) f(1)
    by (simp add: persist_if_needed_def flush_target_def flush_adapter_def flush_engine_def settled_def set_disk_def
        update_inner_def bindS_def s_def Let_def)
  have stored: "node_state_is_empty st \<or> stored_as fs' n st" if "fmlookup (in_nodes s) n = Some st" for n st
  proof (cases "fmlookup (tx_nodes ?t) n")
    case (Some st')
    with t(5) [OF Some] that have "get_node fs' n = Inr (Some st)" by (simp add: c(3))
    then show ?thesis by (simp add: stored_as_def)
  next
    case None
    with that t(6) have "n |\<notin>| touched_nodes (cq_operations (in_unflushed_ops s))" by force
    with m that have "node_state_is_empty st \<or> stored_as ?fs n st" by (auto simp: mirrors_def mirrored_def)
    with None show ?thesis by (simp add: stored_as_def c(3))
  qed
  have below: "log_below fs' (sat_add ?i 1)"
  proof -
    have gt: "?i < sat_add ?i 1" using assms(2) by (simp add: s_def sat_add_one_gt)
    have old: "checkpoint_id ?fs < ?i" "\<And>k. k \<in> set (journal_keys ?fs) \<Longrightarrow> fst k < ?i"
      using m by (auto simp: mirrors_def log_below_def)
    have "checkpoint_id fs' = checkpoint_id ?fs" by (simp add: checkpoint_id_def c(5))
    then have "checkpoint_id fs' < sat_add ?i 1" using old(1) gt by (metis order.strict_trans)
    moreover have "fst k < sat_add ?i 1" if mem: "k \<in> set (journal_keys fs')" for k
    proof -
      obtain i b where k: "k = (i, b)" by (cases k)
      have "fmlookup fs' (PJournal i b) \<noteq> None" using mem by (simp add: k set_journal_keys)
      then consider "i = ?i" | "(i, b) \<in> set (journal_keys ?fs)" using c(6) [of i b] by (auto simp: set_journal_keys t(1))
      then show ?thesis using gt old(2) [of k] by cases (simp_all add: k order.strict_trans)
    qed
    ultimately show ?thesis by (simp add: log_below_def)
  qed
  have "stored_ok fs'"
    using m t(5) unfolding stored_ok_def c(3) mirrors_def nodes_ok_def by (fastforce split: option.splits)
  moreover have "manifest_ahead fs'"
    using below by (simp add: manifest_ahead_def c(4) t(3) storage_metadata_from_inner_def storage_metadata_new_def)
  ultimately have "disk_ok opts fs'" using disk c(2,5) by (simp add: disk_ok_def)
  moreover have "mirrors ?d fs' ?s'"
    using m f(2) stored below \<open>stored_ok fs'\<close> by (auto simp: mirrors_def mirrored_def)
  moreover have "inner_inv ?s'" using assms(1) f(2) by (simp add: settled_def inner_inv_def s_def)
  ultimately have "settled opts ?db" using assms(1) by (simp add: settled_def)
  moreover have "get_node fs' n = get_node ?fs n" if "fmlookup (in_nodes s) n = None" for n
    using that t(5) [of n] by (cases "fmlookup (tx_nodes ?t) n") (simp_all add: c(3))
  ultimately show thesis using that [OF run] f(3) stored c(4) t(3) by simp
qed

section \<open>Runs on a segment store\<close>

(* src: src/src/db.rs:805-857 Primadb::with_replica_id (storage) *)
definition new_database :: "(nat \<Rightarrow> u64) \<Rightarrow> string \<Rightarrow> database" where
  "new_database time replica_id =
    \<lparr> db_inner = with_replica_id time replica_id, db_disk = fmempty, db_persistence = None, db_storage_adapter = None,
      db_external_storage_hooks = 0, db_events = [] \<rparr>"

text \<open>
  The runs of a database on one directory: it is opened on an empty directory, runs transactions,
  record batches and node loads, receives operations, hands out and takes back pending operations,
  counts and announces changes, flushes, and is opened again by a new process.
\<close>
inductive running :: "store_options \<Rightarrow> database \<Rightarrow> bool" for opts where
  running_created: "attach_incremental_store opts fmempty (new_database time r) = (res, db) \<Longrightarrow> running opts db"
| running_steps: "running opts db \<Longrightarrow> run_local_transaction (apply_transaction_steps ext scope steps) (db_inner db) = (res, s) \<Longrightarrow>
    running opts (db\<lparr> db_inner := s \<rparr>)"
| running_batch: "running opts db \<Longrightarrow> run_local_transaction (record_batch_body blake3_hex batch) (db_inner db) = (res, s) \<Longrightarrow>
    running opts (db\<lparr> db_inner := s \<rparr>)"
| running_load: "running opts db \<Longrightarrow> running opts (db\<lparr> db_inner := snd (maybe_load_node n (db_inner db)) \<rparr>)"
| running_receive: "running opts db \<Longrightarrow> running opts (db\<lparr> db_inner := snd (apply_operations_inner ops (db_inner db)) \<rparr>)"
| running_pending: "running opts db \<Longrightarrow> q = queue_empty \<or> q = fold queue_push ops (in_pending_ops (db_inner db)) \<Longrightarrow>
    running opts (update_inner (\<lambda>s. s\<lparr> in_pending_ops := q \<rparr>) db)"
| running_change: "running opts db \<Longrightarrow> running opts (db\<lparr> db_inner := (db_inner db)\<lparr> in_change_revision := i \<rparr>, db_events := es \<rparr>)"
| running_flush: "running opts db \<Longrightarrow> in_next_storage_tx_id (db_inner db) \<noteq> - 1 \<Longrightarrow>
    running opts (snd (persist_if_needed opts db))"
| running_reopen: "running opts db \<Longrightarrow> in_next_storage_tx_id (db_inner db) \<noteq> - 1 \<Longrightarrow>
    attach_incremental_store opts (db_disk db) (new_database time r) = (res, db') \<Longrightarrow> running opts db'"

text \<open>The manifest on disk carries the next transaction id.\<close>
definition numbered :: "database \<Rightarrow> bool" where
  "numbered db = (\<exists>m. fmlookup (db_disk db) PManifest = Some (ManifestFile m) \<and> sm_schema_version m = 1 \<and>
     sm_next_tx_id m = in_next_storage_tx_id (db_inner db))"

definition sound :: "store_options \<Rightarrow> database \<Rightarrow> bool" where
  "sound opts db = (settled opts db \<and> numbered db)"

lemma sound_moved:
  assumes "sound opts db" "in_step (db_inner db) s" "inner_inv s"
  shows "sound opts (db\<lparr> db_inner := s, db_events := es \<rparr>)"
  using assms by (simp add: sound_def settled_def numbered_def in_step_def)

lemma settled_engine: "settled opts db \<Longrightarrow> engine_ok (db_inner db)"
  by (auto simp: settled_def mirrors_def engine_ok_def segment_store_def stored_ok_def)

lemma in_step_reindex: "in_step s (fold reindex_node_relationships ns s)"
proof (induction ns arbitrary: s)
  case (Cons n ns)
  have "in_step s (reindex_node_relationships n s)"
    by (rule in_step_cong) (simp_all add: reindex_node_relationships_def Let_def journal_node_def)
  with Cons show ?case by (auto intro: in_step_trans)
qed (simp add: in_step_def)

lemma in_step_indexed: "in_step s ((flush_pending_relationship_index s)\<lparr> in_transaction_journal := None \<rparr>)"
proof -
  have close: "in_step t (t\<lparr> in_transaction_journal := j \<rparr>)" for t j by (rule in_step_cong) simp_all
  show ?thesis
    unfolding flush_pending_relationship_index_def Let_def
    by (cases "in_transaction_journal s") (auto intro!: in_step_trans [OF close in_step_trans [OF in_step_reindex close]] intro: close)
qed

text \<open>A transaction leaves memory and disk in step, whether it commits or not.\<close>
lemma transaction_in_step:
  assumes "inner_inv s" "engine_ok s" "undoable body" "keeps_liveM body" "moves in_step body"
    "run_local_transaction body s = (res, s')"
  shows "in_step s s' \<and> inner_inv s'"
proof (cases res)
  case (Inl e)
  then have s': "s' = s\<lparr> in_reads := in_reads s' \<rparr>" using rollback [OF assms(1-3)] assms(6) by blast
  have "in_step s (s\<lparr> in_reads := k \<rparr>)" "inner_inv (s\<lparr> in_reads := k \<rparr>)" for k
    using assms(1) by (auto intro: in_step_cong simp: inner_inv_def)
  then show ?thesis by (subst (1 2) s') blast
next
  case (Inr r)
  let ?b = "s\<lparr> in_transaction_journal := Some (journal_begin s) \<rparr>"
  let ?t = "flush_pending_relationship_index (snd (body ?b))"
  have "s' = ?t\<lparr> in_transaction_journal := None \<rparr>"
    using assms(6) Inr by (auto simp: run_local_transaction_def Let_def split_def split: sum.splits option.splits)
  moreover have "in_step (snd (body ?b)) (?t\<lparr> in_transaction_journal := None \<rparr>)"
    by (rule in_step_indexed)
  moreover have "in_step s ?b" by (rule in_step_cong) simp_all
  moreover have "in_step ?b (snd (body ?b))" using assms(5) by (simp add: moves_def)
  ultimately show ?thesis
    using commit_keeps_inv [OF assms(1,2,4)] assms(6) Inr in_step_trans by blast
qed

lemma live_between: "in_transaction_journal s = None \<Longrightarrow> live s \<Longrightarrow> inner_inv s"
  using live_flush [of s] by (simp add: flush_pending_relationship_index_def inner_inv_def)

lemma between_live: "inner_inv s \<Longrightarrow> engine_ok s \<Longrightarrow> live s"
  by (auto simp: inner_inv_def live_def live_upto_def index_consistent_def pending_sources_def dest: denoted_edges_source)

lemma keeps_inner_inv:
  assumes "keeps_live f" "inner_inv s" "engine_ok s"
  shows "inner_inv (f s)"
proof -
  have "in_transaction_journal s = None" using assms(2) by (simp add: inner_inv_def)
  with assms(1) between_live [OF assms(2,3)] show ?thesis by (auto simp: keeps_live_def intro: live_between)
qed

lemma receive_step:
  "in_step s (snd (apply_operations_inner ops s))" "keeps_live (\<lambda>s. snd (apply_operations_inner ops s))"
proof (induction ops arbitrary: s)
  case Nil
  { case 1 show ?case by (simp add: in_step_def) }
  { case 2 show ?case by (simp add: keeps_live_def) }
next
  case (Cons op ops)
  { case 1 show ?case using in_step_trans [OF in_step_apply Cons.IH(1)] by (simp add: Let_def split_def) }
  { case 2 show ?case using keeps_live_comp [OF Cons.IH(2) keeps_live_apply [of op Remote]] by (simp add: Let_def split_def) }
qed

definition manifest_of :: "fs \<Rightarrow> storage_metadata option" where
  "manifest_of fs = (case fmlookup fs PManifest of Some (ManifestFile m) \<Rightarrow> Some m | _ \<Rightarrow> None)"

text \<open>Opening a store at rest changes nothing that is read.\<close>
lemma recovered_ok:
  assumes "disk_ok opts fs"
  obtains fs' where "load_metadata (so_digests opts) fs = (Inr (manifest_of fs), fs')" "disk_ok opts fs'"
    "\<And>n. get_node fs' n = get_node fs n" "manifest_of fs' = manifest_of fs"
proof -
  let ?d = "so_digests opts"
  obtain rep fs' where r: "recover ?d fs = (Inr rep, fs')" "at_rest ?d fs'" "contents ?d fs' = contents ?d fs"
    "fmlookup fs' PCheckpoint = fmlookup fs PCheckpoint" "journal_keys fs' = journal_keys fs"
    by (rule recover_at_rest [of ?d fs]) (use assms in \<open>simp add: disk_ok_def\<close>)
  have data: "fmlookup fs' p = fmlookup fs p" if "is_data p" for p
  proof -
    have "map_option VFile (fmlookup fs' p) = map_option VFile (fmlookup fs p)"
      using fun_cong [OF r(3), of "File p"] that by (simp add: contents_def)
    then show ?thesis by (cases "fmlookup fs' p"; cases "fmlookup fs p") simp_all
  qed
  have nodes: "get_node fs' n = get_node fs n" for n by (simp add: get_node_def data)
  have manifest: "fmlookup fs' PManifest = fmlookup fs PManifest" by (simp add: data)
  have below: "log_below fs' i = log_below fs i" for i by (simp add: log_below_def checkpoint_id_def r(4,5))
  have "manifest_ahead fs' = manifest_ahead fs"
    by (simp add: manifest_ahead_def manifest below r(4,5) split: option.split content.split)
  then have "disk_ok opts fs'" using assms r(2) by (simp add: disk_ok_def r(4) stored_ok_def nodes)
  moreover have "read_manifest_unrecovered fs' = Inr (manifest_of fs)"
    using assms by (auto simp: disk_ok_def manifest_ahead_def read_manifest_unrecovered_def manifest_of_def manifest
        split: option.splits content.splits)
  then have "load_metadata ?d fs = (Inr (manifest_of fs), fs')"
    using r(1) by (simp add: load_metadata_def bindS_apply checkS_def)
  ultimately show thesis using that nodes manifest by (simp add: manifest_of_def)
qed

lemma from_operations_again:
  assumes "queue_inv q"
  shows "from_operations (cq_operations q) = q"
proof -
  have ops: "cq_operations (from_operations ops) = ops" if "distinct (map compaction_key ops)" for ops
    using that
  proof (induction ops rule: rev_induct)
    case (snoc op ops)
    let ?q = "from_operations ops"
    have "queue_inv ?q" by (simp add: from_operations_def queue_inv_fold)
    with snoc have "fmlookup (cq_indices ?q) (compaction_key op) = None" by (auto simp: queue_inv_lookup_None)
    moreover have "from_operations (ops @ [op]) = queue_push op ?q" by (simp add: from_operations_def)
    ultimately show ?case using snoc by (simp add: queue_push_new)
  qed (simp add: from_operations_def queue_empty_def)
  have inv: "queue_inv (from_operations (cq_operations q))" by (simp add: from_operations_def queue_inv_fold)
  have same: "cq_operations (from_operations (cq_operations q)) = cq_operations q" by (rule ops [OF queue_inv_distinct [OF assms]])
  have "fmlookup (cq_indices (from_operations (cq_operations q))) k = Some i \<longleftrightarrow> fmlookup (cq_indices q) k = Some i" for k i
    by (simp add: queue_inv_lookup [OF inv] queue_inv_lookup [OF assms] same)
  then have "fmlookup (cq_indices (from_operations (cq_operations q))) k = fmlookup (cq_indices q) k" for k
    by (metis not_Some_eq)
  then have "cq_indices (from_operations (cq_operations q)) = cq_indices q" by (rule fmap_ext)
  with same show ?thesis by (simp add: compacted_operations.equality)
qed

definition opened :: "store_options \<Rightarrow> fs \<Rightarrow> (nat \<Rightarrow> u64) \<Rightarrow> string \<Rightarrow> database" where
  "opened opts fs time r =
    (new_database time r)\<lparr> db_disk := fs,
      db_inner := (opened_inner (manifest_of fs) (with_replica_id time r))\<lparr> in_storage_engine := Some (segment_store (so_digests opts) fs) \<rparr> \<rparr>"

lemma opened_nodes: "in_nodes (db_inner (opened opts fs time r)) = fmempty"
  by (simp add: opened_def opened_inner_def with_replica_id_def split: option.split)

lemma opened_settled:
  assumes "disk_ok opts fs"
  shows "settled opts (opened opts fs time r)"
proof -
  let ?s = "db_inner (opened opts fs time r)"
  have "log_below fs (in_next_storage_tx_id ?s)"
    using assms
    by (auto simp: disk_ok_def manifest_ahead_def manifest_of_def opened_def opened_inner_def log_below_def checkpoint_id_def
        less_max_iff_disj split: option.splits content.splits)
  moreover have "queue_inv (in_unflushed_ops ?s)" "queue_inv (in_pending_ops ?s)" "in_transaction_journal ?s = None"
      "in_relationship_index ?s = relationship_index_empty"
    by (simp_all add: opened_def opened_inner_def with_replica_id_def from_operations_def queue_inv_fold split: option.split)
  moreover have "index_consistent fmempty relationship_index_empty"
    using inner_inv_new [where time = time and r = r and l = "in_limits (with_replica_id time r)"] by (simp add: inner_inv_def with_replica_id_def)
  ultimately show ?thesis
    using assms by (simp add: settled_def mirrors_def inner_inv_def opened_nodes nodes_ok_def mirrored_def disk_ok_def)
      (simp add: opened_def new_database_def)
qed

lemma sound_flush:
  assumes "settled opts db" "in_next_storage_tx_id (db_inner db) \<noteq> - 1"
  shows "fst (persist_if_needed opts db) = Inr ()" "sound opts (snd (persist_if_needed opts db))"
proof -
  obtain db' a b q where f: "persist_if_needed opts db = (Inr (), db')" "settled opts db'"
    "db_inner db' = (db_inner db)\<lparr> in_storage_engine := Some (segment_store (so_digests opts) (db_disk db')), in_unflushed_ops := q,
       in_next_storage_tx_id := sat_add (in_next_storage_tx_id (db_inner db)) 1, in_record_overlay := a, in_record_overlay_node_keys := b \<rparr>"
    "fmlookup (db_disk db') PManifest =
      Some (ManifestFile (storage_metadata_from_inner (db_inner db) (sat_add (in_next_storage_tx_id (db_inner db)) 1)))"
    using flush_ok [OF assms] by metis
  then show "fst (persist_if_needed opts db) = Inr ()" "sound opts (snd (persist_if_needed opts db))"
    by (simp_all add: sound_def numbered_def storage_metadata_from_inner_def storage_metadata_new_def)
qed

lemma attach_opens:
  assumes "disk_ok opts fs" "\<And>m. manifest_of fs = Some m \<Longrightarrow> sm_next_tx_id m \<noteq> - 1"
  obtains db a b q where "attach_incremental_store opts fs (new_database time r) = (Inr (manifest_of fs \<noteq> None), db)" "sound opts db"
    "\<And>n. get_node (db_disk db) n = get_node fs n"
    "db_inner db = (opened_inner (manifest_of fs) (with_replica_id time r))\<lparr>
       in_storage_engine := Some (segment_store (so_digests opts) (db_disk db)), in_unflushed_ops := q,
       in_next_storage_tx_id := sat_add (in_next_storage_tx_id (opened_inner (manifest_of fs) (with_replica_id time r))) 1,
       in_record_overlay := a, in_record_overlay_node_keys := b \<rparr>"
proof -
  obtain fs' where r: "load_metadata (so_digests opts) fs = (Inr (manifest_of fs), fs')" "disk_ok opts fs'"
    "\<And>n. get_node fs' n = get_node fs n" "manifest_of fs' = manifest_of fs"
    using recovered_ok [OF assms(1)] by metis
  let ?db = "opened opts fs' time r"
  have ok: "settled opts ?db" by (rule opened_settled [OF r(2)])
  have room: "in_next_storage_tx_id (db_inner ?db) \<noteq> - 1"
    using assms(2) r(4) by (auto simp: opened_def opened_inner_def max_def split: option.split)
  obtain db' a b q where f: "persist_if_needed opts ?db = (Inr (), db')"
    "db_inner db' = (db_inner ?db)\<lparr> in_storage_engine := Some (segment_store (so_digests opts) (db_disk db')), in_unflushed_ops := q,
       in_next_storage_tx_id := sat_add (in_next_storage_tx_id (db_inner ?db)) 1, in_record_overlay := a, in_record_overlay_node_keys := b \<rparr>"
    "\<And>n. fmlookup (in_nodes (db_inner ?db)) n = None \<Longrightarrow> get_node (db_disk db') n = get_node (db_disk ?db) n"
    using flush_ok [OF ok room] by metis
  have run: "attach_incremental_store opts fs (new_database time r) = (Inr (manifest_of fs \<noteq> None), db')"
    using f(1) by (simp add: attach_incremental_store_def r(1,4) bindS_apply opened_def new_database_def)
  have nodes: "get_node (db_disk db') n = get_node fs n" for n
    using f(3) [of n] r(3) by (simp add: opened_nodes) (simp add: opened_def)
  have "sound opts db'" using sound_flush(2) [OF ok room] f(1) by simp
  then show thesis by (rule that [OF run _ nodes]) (use f(2) r(4) in \<open>simp add: opened_def\<close>)
qed

lemma manifest_of_numbered:
  assumes "numbered db"
  obtains m where "manifest_of (db_disk db) = Some m" "sm_next_tx_id m = in_next_storage_tx_id (db_inner db)"
  using assms by (auto simp: numbered_def manifest_of_def)

lemma empty_disk_ok: "disk_ok opts fmempty"
  by (simp add: disk_ok_def empty_at_rest stored_ok_def get_node_def manifest_ahead_def)

lemma sound_body:
  assumes "sound opts db" "undoable body" "keeps_liveM body" "moves in_step body" "run_local_transaction body (db_inner db) = (res, s)"
  shows "sound opts (db\<lparr> db_inner := s \<rparr>)"
proof -
  have "inner_inv (db_inner db)" "engine_ok (db_inner db)" using assms(1) settled_engine by (auto simp: sound_def settled_def)
  from transaction_in_step [OF this assms(2-5)] show ?thesis using sound_moved [OF assms(1), of s "db_events db"] by simp
qed

lemma sound_live:
  assumes "sound opts db" "in_step (db_inner db) (f (db_inner db))" "keeps_live f"
  shows "sound opts (db\<lparr> db_inner := f (db_inner db) \<rparr>)"
proof -
  have "inner_inv (f (db_inner db))"
    by (rule keeps_inner_inv [OF assms(3)]) (use assms(1) settled_engine in \<open>auto simp: sound_def settled_def\<close>)
  from sound_moved [OF assms(1,2) this, of "db_events db"] show ?thesis by simp
qed

text \<open>Along every run memory mirrors the disk.\<close>
lemma running_sound: "running opts db \<Longrightarrow> sound opts db"
proof (induction rule: running.induct)
  case (running_created time r res db)
  show ?case
    by (rule attach_opens [OF empty_disk_ok, where opts = opts and time = time and r = r])
      (use running_created in \<open>simp_all add: manifest_of_def\<close>)
next
  case (running_steps db ext scope steps res s)
  show ?case by (rule sound_body [OF running_steps.IH steps_undoable steps_keep_live mirror.moves_steps running_steps.hyps(2)])
next
  case (running_batch db blake3_hex batch res s)
  show ?case by (rule sound_body [OF running_batch.IH batch_undoable batch_keeps_live mirror.moves_batch running_batch.hyps(2)])
next
  case (running_load db n)
  show ?case
    by (rule sound_live [where f = "\<lambda>s. snd (maybe_load_node n s)", OF running_load.IH mirror.rel_load])
      (use keeps_live_maybe_load [of n] in \<open>simp add: keeps_liveM_def\<close>)
next
  case (running_receive db ops)
  show ?case by (rule sound_live [where f = "\<lambda>s. snd (apply_operations_inner ops s)", OF running_receive.IH receive_step])
next
  case (running_pending db q ops)
  let ?s = "(db_inner db)\<lparr> in_pending_ops := q \<rparr>"
  have "in_step (db_inner db) ?s" by (rule in_step_cong) simp_all
  moreover have "inner_inv ?s"
    using running_pending.hyps(2) running_pending.IH by (auto simp: sound_def settled_def inner_inv_def queue_inv_fold)
  ultimately show ?case using sound_moved [OF running_pending.IH, of ?s "db_events db"] by (simp add: update_inner_def)
next
  case (running_change db i es)
  show ?case
    by (rule sound_moved [OF running_change.IH])
      (use running_change.IH in \<open>auto intro: in_step_cong simp: sound_def settled_def inner_inv_def\<close>)
next
  case (running_flush db)
  then show ?case using sound_flush(2) by (simp add: sound_def)
next
  case (running_reopen db time r res db')
  then obtain m where m: "manifest_of (db_disk db) = Some m" "sm_next_tx_id m = in_next_storage_tx_id (db_inner db)"
    by (auto simp: sound_def elim: manifest_of_numbered)
  have "disk_ok opts (db_disk db)" using running_reopen.IH by (simp add: sound_def settled_def)
  then show ?case
    by (rule attach_opens [where time = time and r = r]) (use m running_reopen.hyps(2,3) in simp_all)
qed

lemma load_stored:
  assumes "mirrors d fs s" "fmlookup (in_nodes s) n = None" "n |\<notin>| in_missing_nodes s" "stored_as fs n st"
  obtains st' where "fst (maybe_load_node n s) = Inr True" "fmlookup (in_nodes (snd (maybe_load_node n s))) n = Some st'"
    "nst_fields st' = nst_fields st"
proof -
  obtain st1 where st: "get_node fs n = Inr (Some st1)" "nst_fields st1 = nst_fields st" using assms(4) by (auto simp: stored_as_def)
  then have ok: "nst_id st1 = n" "coherent st1" using assms(1) by (auto simp: mirrors_def stored_ok_def)
  have "in_storage_engine s = Some (segment_store d fs)" using assms(1) by (simp add: mirrors_def)
  then have load: "maybe_load_node n s = (Inr True, loaded_node n st1 s)"
    using assms(2,3) st(1) by (simp add: maybe_load_node_def loaded_node_def segment_store_def restore_set_membership_def Let_def)
  have "fmlookup (in_nodes (loaded_node n st1 s)) n = Some (merge_into_node (node_state_new n) st1)"
    using assms(2) ok(1) by (simp add: loaded_node_def Let_def journal_missing_node_def journal_node_def merge_node_state_def node_or_new_def)
  then show thesis using that load loaded_ok(1) [OF ok(2)] st(2) by simp
qed

lemma room_after: "i < - 2 \<Longrightarrow> i \<noteq> - 1 \<and> sat_add i 1 \<noteq> - 1" for i :: u64
proof -
  assume "i < - 2"
  then have i: "unat i < 2 ^ 64 - 2" by (simp add: word_less_nat_alt)
  then have "unat (sat_add i 1) < 2 ^ 64 - 1" unfolding unat_sat_add by simp
  moreover have "unat (- 1 :: u64) = 2 ^ 64 - 1" by (simp add: unsigned_minus_1_eq_mask mask_eq_exp_minus_1)
  ultimately show ?thesis using i by auto
qed


definition demo_opts :: store_options where
  "demo_opts = \<lparr> so_digests = demo_digests, so_durability = Full, so_retention = 1 \<rparr>"

definition demo_created :: database where
  "demo_created = snd (attach_incremental_store demo_opts fmempty (new_database (\<lambda>_. 7) ''r''))"

definition demo_link :: operation where
  "demo_link = demo_op 1 (SetField ''a'' ''b'' (OLink ''x''))"

definition demo_written :: database where
  "demo_written = demo_created\<lparr> db_inner := snd (apply_operations_inner [demo_link] (db_inner demo_created)) \<rparr>"

definition demo_reopened :: database where
  "demo_reopened = snd (attach_incremental_store demo_opts
     (db_disk (snd (persist_if_needed demo_opts demo_written))) (new_database (\<lambda>_. 7) ''r''))"

lemma demo_running: "running demo_opts demo_written"
proof -
  have "running demo_opts demo_created" unfolding demo_created_def by (rule running_created, rule prod.collapse [symmetric])
  then show ?thesis unfolding demo_written_def by (rule running_receive)
qed

lemma demo_created_empty:
  "in_nodes (db_inner demo_created) = fmempty" "in_scope_policies (db_inner demo_created) = fmempty"
  "in_next_storage_tx_id (db_inner demo_created) = 2"
proof -
  have none: "manifest_of fmempty = None" by (simp add: manifest_of_def)
  obtain db a b q where "attach_incremental_store demo_opts fmempty (new_database (\<lambda>_. 7) ''r'') = (Inr False, db)"
    "db_inner db = (opened_inner None (with_replica_id (\<lambda>_. 7) ''r''))\<lparr>
       in_storage_engine := Some (segment_store (so_digests demo_opts) (db_disk db)), in_unflushed_ops := q,
       in_next_storage_tx_id := sat_add (in_next_storage_tx_id (opened_inner None (with_replica_id (\<lambda>_. 7) ''r''))) 1,
       in_record_overlay := a, in_record_overlay_node_keys := b \<rparr>"
    by (rule attach_opens [OF empty_disk_ok, where opts = demo_opts and time = "\<lambda>_. 7" and r = "''r''"]) (auto simp: none)
  then show "in_nodes (db_inner demo_created) = fmempty" "in_scope_policies (db_inner demo_created) = fmempty"
    "in_next_storage_tx_id (db_inner demo_created) = 2"
    by (simp_all add: demo_created_def opened_inner_def with_replica_id_def sat_add_def)
qed

lemma demo_written_node:
  shows "fmlookup (in_nodes (db_inner demo_written)) ''a'' =
    Some \<lparr> nst_id = ''a'', nst_fields = fmap_of_list [(''b'', \<lparr> fld_value = FLink ''x'', fld_version = marker_of demo_link \<rparr>)],
           nst_tombstones = fmempty \<rparr>" (is ?node)
    and "in_next_storage_tx_id (db_inner demo_written) < - 2"
proof -
  have "sorted_list_of_fmap (fmempty :: (string, scope_policy) fmap) = []"
    by (simp add: sorted_list_of_fmap_def sorted_list_of_fset_def)
  then have allowed: "remote_operation_allowed demo_link (db_inner demo_created)"
    by (simp add: remote_operation_allowed_def demo_created_empty policy_for_path_def)
  have "fst (apply_action demo_link fmempty)"
    by (simp add: demo_link_def demo_op_def apply_action_def apply_set_field_def node_or_new_def node_state_new_def blocks_def Let_def)
  with allowed have "in_nodes (db_inner demo_written) = apply_step demo_link fmempty"
    by (simp add: demo_written_def apply_operation_cases demo_created_empty queued_def indexed_state_def written_state_def
        Let_def split_def journal_node_def apply_step_def)
  then show ?node
    by (simp add: apply_step_eq node_apply_def demo_link_def demo_op_def node_or_new_def node_state_new_def put_cell_def
        get_cell_def cell_write_def cell_blocks_def blocks_def put_entry_def)
  have "in_step (db_inner demo_created) (db_inner demo_written)" 
    using receive_step(1) [of "db_inner demo_created" "[demo_link]"] by (simp add: demo_written_def)
  then show "in_next_storage_tx_id (db_inner demo_written) < - 2" by (simp add: in_step_def demo_created_empty)
qed


section \<open>Vacuum and nodes that are not loaded\<close>

lemma vacuum_buckets_nodes: "fmlookup (snd (vacuum_buckets t paths fs)) (PNode n) = fmlookup fs (PNode n)"
proof (induction paths arbitrary: fs)
  case (Cons path paths)
  have "fmlookup (run [vacuum_bucket t path bucket] fs) (PNode n) = fmlookup fs (PNode n)" for bucket
    by (rule lookup_run_other) (auto simp: vacuum_bucket_def Let_def remove_file_def write_file_def)
  with Cons show ?case by (simp add: bindS_apply checkS_def modifyS_def split: sum.split)
qed (simp add: okS_def)

lemma pruned_nodes:
  "fmlookup (run (prune_journal_through i g) fs) (PNode n) = fmlookup fs (PNode n)"
  "fmlookup (run (prune_journal_with_report k g) fs) (PNode n) = fmlookup fs (PNode n)"
  by (rule lookup_run_other; auto simp: prune_journal_through_def prune_journal_with_report_def Let_def remove_file_def)+

text \<open>
  A vacuum takes the nodes in memory for all nodes of the database: stored nodes that were never
  loaded, all of them right after a store was opened, are deleted.
\<close>
lemma vacuum_deletes_unloaded:
  assumes "in_storage_engine (db_inner db) \<noteq> None" "fmlookup (in_nodes (db_inner db)) n = None" "vacuum_storage opts db = (Inr u, db')"
  shows "get_node (db_disk db') n = Inr None"
proof -
  let ?s = "db_inner db"
  let ?t = "build_storage_transaction (in_next_storage_tx_id ?s) (storage_metadata_from_inner ?s (in_next_storage_tx_id ?s + 1)) (in_nodes ?s)"
  have t: "fmlookup (tx_nodes ?t) n = None" using assms(2) by (simp add: built_id)
  obtain fs' where v: "vacuum (so_digests opts) (so_durability opts) (so_retention opts) ?t (db_disk db) = (Inr u, fs')" "db_disk db' = fs'"
    using assms(1,3) by (auto simp: vacuum_storage_def Let_def set_disk_def split: prod.splits)
  let ?prune = "\<lambda>fs. run (if so_durability opts = Full then prune_journal_through (sat_sub (tx_id ?t) 1) fs
      else prune_journal_with_report (so_retention opts) fs) fs"
  let ?rest = "bindS (modifyS (fmfilter (live_file ?t))) (\<lambda>_. bindS (readS bucket_paths) (\<lambda>paths.
      bindS (vacuum_buckets ?t paths) (\<lambda>_. modifyS ?prune)))"
  have rest: "fmlookup fs2 (PNode n) = None" if run: "?rest fs1 = (Inr u, fs2)" for fs1 fs2
  proof -
    obtain paths fs3 where "vacuum_buckets ?t paths (fmfilter (live_file ?t) fs1) = (Inr (), fs3)" "fs2 = ?prune fs3"
      using run by (auto simp: bindS_apply modifyS_def readS_def split: sum.splits prod.splits)
    then show ?thesis
      using vacuum_buckets_nodes [of ?t paths "fmfilter (live_file ?t) fs1" n] t by (simp add: pruned_nodes)
  qed
  obtain fs1 where "?rest fs1 = (Inr u, fs')"
    using v(1) unfolding vacuum_def by (subst (asm) bindS_apply) (auto split: prod.splits sum.splits)
  then have "fmlookup fs' (PNode n) = None" by (rule rest)
  then show ?thesis by (simp add: v(2) get_node_def)
qed

end
