(* ===== verification/Router.thy ===== *)
theory Router
  imports StorageTx "HOL-Library.Multiset"
begin

text \<open>
  Routing between peers (\<open>src/src/router.rs\<close>, \<open>src/src/transport.rs\<close>): envelopes with a time to
  live, the router of a peer, which drops duplicates, delivers and forwards, the relay, which hands an
  envelope to the sessions it is meant for, and the hub of sessions inside one process.

  Router and relay recognise duplicates by the same two caches; the interface
  \<open>duplicate_filter\<close> collects what both promise.  The lemmas bound the caches, show that
  a route is accepted once while the caches hold it, and that flooding a network ends.

  The messages an envelope carries are not looked at and are a type parameter \<open>'m\<close>; the hash of a
  payload is an argument, as is the wall clock, read by the \<open>i\<close>-th call as \<open>time i\<close>.
\<close>

section \<open>Envelopes\<close>

type_synonym u16 = "16 word"

(* src: src/src/router.rs:11-17 RouteTarget *)
datatype route_target = Broadcast | Peer string | Topic string

(* src: src/src/session_auth.rs:51-64 PresenceIdentity *)
record presence_identity =
  pi_public_key :: string
  pi_alias :: "string option"
  pi_key_scheme :: string
  pi_session_id :: string
  pi_claims :: "(string, string) fmap"
  pi_issued_at_millis :: u64
  pi_expires_at_millis :: "u64 option"

(* src: src/src/router.rs:19-32 PeerPresence *)
record peer_presence =
  pp_peer_id :: string
  pp_replica_id :: string
  pp_transport :: string
  pp_identity :: "presence_identity option"
  pp_capabilities :: "string list"
  pp_topics :: "string list"
  pp_metadata :: "(string, string) fmap"

(* src: src/src/router.rs:34-43 PeerRecommendation *)
record peer_recommendation =
  pr_peer :: peer_presence
  pr_relay_urls :: "string list"
  pr_score :: u16
  pr_discovered_at_millis :: u64

(* src: src/src/router.rs:47-90 RouteBatchItem *)
datatype 'm route_batch_item =
    ItemApplication 'm
  | ItemSync string json
  | ItemPresence peer_presence
  | ItemSignal string json
  | ItemSnapshotRequest "string option"
  | ItemSnapshotResponse "string option" database_snapshot
  | ItemPullRequest 'm
  | ItemPullResponse 'm
  | ItemWatchRequest 'm
  | ItemWatchEvent 'm
  | ItemPeerExchange "peer_recommendation list"
  | ItemAuthChallenge 'm
  | ItemAuthResponse 'm

(* src: src/src/router.rs:94-140 RoutePayload *)
datatype 'm route_payload =
    Application 'm
  | Sync string json
  | Presence peer_presence
  | Signal string json
  | SnapshotRequest "string option"
  | SnapshotResponse "string option" database_snapshot
  | PullRequest 'm
  | PullResponse 'm
  | WatchRequest 'm
  | WatchEvent 'm
  | PeerExchange "peer_recommendation list"
  | AuthChallenge 'm
  | AuthResponse 'm
  | Batch "'m route_batch_item list"

(* src: src/src/router.rs:143-158 RouteEnvelope *)
record 'm route_envelope =
  route_id :: string
  env_from :: string
  env_channel :: string
  env_target :: route_target
  ttl :: u8
  hops :: u8
  env_issued_at_millis :: u64
  env_reply_to :: "string option"
  env_content_hash :: "string option"
  seen_by :: "string list"
  env_payload :: "'m route_payload"

(* src: src/src/router.rs:527-545 RoutePayload::from_batch_item *)
fun from_batch_item :: "'m route_batch_item \<Rightarrow> 'm route_payload" where
  "from_batch_item (ItemApplication m) = Application m"
| "from_batch_item (ItemSync e p) = Sync e p"
| "from_batch_item (ItemPresence p) = Presence p"
| "from_batch_item (ItemSignal r p) = Signal r p"
| "from_batch_item (ItemSnapshotRequest r) = SnapshotRequest r"
| "from_batch_item (ItemSnapshotResponse r s) = SnapshotResponse r s"
| "from_batch_item (ItemPullRequest m) = PullRequest m"
| "from_batch_item (ItemPullResponse m) = PullResponse m"
| "from_batch_item (ItemWatchRequest m) = WatchRequest m"
| "from_batch_item (ItemWatchEvent m) = WatchEvent m"
| "from_batch_item (ItemPeerExchange ps) = PeerExchange ps"
| "from_batch_item (ItemAuthChallenge m) = AuthChallenge m"
| "from_batch_item (ItemAuthResponse m) = AuthResponse m"

section \<open>Seen caches\<close>

type_synonym seen_cache = "(string, u64) fmap"

(* src: src/src/router.rs:556-564 dedupe_key *)
definition dedupe_key :: "'m route_envelope \<Rightarrow> string option" where
  "dedupe_key e = map_option (\<lambda>h. env_from e @ '':'' @ (case env_reply_to e of Some r \<Rightarrow> r | None \<Rightarrow> '''') @ '':'' @ h)
     (env_content_hash e)"

(* src: src/src/router.rs:574-581 trim_seen_cache *)
function trim_seen_cache :: "usize \<Rightarrow> seen_cache \<Rightarrow> seen_cache" where
  "trim_seen_cache limit seen =
    (if fcard (fmdom seen) > limit
     then case first_key seen of None \<Rightarrow> seen | Some oldest \<Rightarrow> trim_seen_cache limit (fmdrop oldest seen)
     else seen)"
  by pat_completeness auto
termination
proof (relation "measure (\<lambda>(_, seen). fcard (fmdom seen))")
  fix limit seen oldest
  assume "first_key seen = Some oldest"
  then have "oldest |\<in>| fmdom seen" by (rule first_key_Some)
  then show "((limit, fmdrop oldest seen), (limit, seen)) \<in> measure (\<lambda>(_, seen). fcard (fmdom seen))"
    using fcard_fminus1_less [of oldest "fmdom seen"] by simp
qed simp

declare trim_seen_cache.simps [simp del]

definition remember :: "usize \<Rightarrow> string \<Rightarrow> u64 \<Rightarrow> seen_cache \<Rightarrow> seen_cache" where
  "remember limit k t seen = trim_seen_cache limit (fmupd k t seen)"

definition remember_content :: "usize \<Rightarrow> 'm route_envelope \<Rightarrow> u64 \<Rightarrow> seen_cache \<Rightarrow> seen_cache" where
  "remember_content limit e t seen = (case dedupe_key e of Some k \<Rightarrow> remember limit k t seen | None \<Rightarrow> seen)"

text \<open>The three signs of a duplicate.\<close>
definition is_duplicate :: "string \<Rightarrow> seen_cache \<Rightarrow> seen_cache \<Rightarrow> 'm route_envelope \<Rightarrow> bool" where
  "is_duplicate me routes content e =
    (me \<in> set (seen_by e) \<or> route_id e |\<in>| fmdom routes \<or>
     (case dedupe_key e of Some k \<Rightarrow> k |\<in>| fmdom content | None \<Rightarrow> False))"

definition add_seen_by :: "string \<Rightarrow> 'm route_envelope \<Rightarrow> 'm route_envelope" where
  "add_seen_by me e = (if me \<in> set (seen_by e) then e else e\<lparr> seen_by := seen_by e @ [me] \<rparr>)"

section \<open>The router of a peer\<close>

(* src: src/src/router.rs:161-166 RouterConfig *)
record router_config =
  rc_peer_id :: string
  rc_default_channel :: string
  rc_default_ttl :: u8
  rc_max_seen_routes :: usize

(* src: src/src/router.rs:169-175 RouterStats *)
record router_stats =
  rs_seen_routes :: usize
  rs_known_peers :: usize
  rs_delivered_routes :: u64
  rs_forwarded_routes :: u64
  rs_duplicate_routes :: u64

(* src: src/src/router.rs:178-192 Router, RouterInner (structs) *)
record router =
  config :: router_config
  next_route_seq :: u64
  seen_routes :: seen_cache
  seen_content :: seen_cache
  peers :: "(string, peer_presence) fmap"
  delivered_routes :: u64
  forwarded_routes :: u64
  duplicate_routes :: u64

(* src: src/src/router.rs:195-199 RouteDecision *)
record 'm route_decision =
  deliver :: bool
  forward :: "'m route_envelope option"
  duplicate :: bool

(* src: src/src/router.rs:202-209 RouterConfig::new *)
definition router_config_new :: "string \<Rightarrow> router_config" where
  "router_config_new peer =
    \<lparr> rc_peer_id = peer, rc_default_channel = ''primadb'', rc_default_ttl = 6, rc_max_seen_routes = 4096 \<rparr>"

(* src: src/src/router.rs:219-232 Router::new *)
definition router_new :: "router_config \<Rightarrow> router" where
  "router_new c =
    \<lparr> config = c, next_route_seq = 0, seen_routes = fmempty, seen_content = fmempty, peers = fmempty,
      delivered_routes = 0, forwarded_routes = 0, duplicate_routes = 0 \<rparr>"

abbreviation peer_id :: "router \<Rightarrow> string" where
  "peer_id r \<equiv> rc_peer_id (config r)"

(* src: src/src/router.rs:238-240 Router::known_peers *)
definition known_peers :: "router \<Rightarrow> peer_presence list" where
  "known_peers r = map snd (sorted_list_of_fmap (peers r))"

(* src: src/src/router.rs:242-244 Router::forget_peer *)
definition forget_peer :: "string \<Rightarrow> router \<Rightarrow> router" where
  "forget_peer p r = r\<lparr> peers := fmdrop p (peers r) \<rparr>"

(* src: src/src/router.rs:246-255 Router::stats *)
definition stats :: "router \<Rightarrow> router_stats" where
  "stats r =
    \<lparr> rs_seen_routes = fcard (fmdom (seen_routes r)), rs_known_peers = fcard (fmdom (peers r)),
      rs_delivered_routes = delivered_routes r, rs_forwarded_routes = forwarded_routes r,
      rs_duplicate_routes = duplicate_routes r \<rparr>"

(* src: src/src/router.rs:548-554 update_peer_presence *)
definition update_peer_presence :: "peer_presence \<Rightarrow> (string, peer_presence) fmap \<Rightarrow> (string, peer_presence) fmap" where
  "update_peer_presence peer ps =
    (if fmlookup (pp_metadata peer) ''state'' = Some ''offline'' then fmdrop (pp_peer_id peer) ps
     else fmupd (pp_peer_id peer) peer ps)"

(* src: src/src/router.rs:566-572 matches_target *)
definition matches_target :: "string \<Rightarrow> string \<Rightarrow> 'm route_envelope \<Rightarrow> bool" where
  "matches_target me channel e =
    (case env_target e of
       Broadcast \<Rightarrow> env_channel e = channel
     | Peer target \<Rightarrow> target = me
     | Topic topic \<Rightarrow> env_channel e = topic \<or> topic = channel)"

definition note_presence :: "'m route_payload \<Rightarrow> (string, peer_presence) fmap \<Rightarrow> (string, peer_presence) fmap" where
  "note_presence payload ps = (case payload of Presence peer \<Rightarrow> update_peer_presence peer ps | _ \<Rightarrow> ps)"

definition count_if :: "bool \<Rightarrow> u64 \<Rightarrow> u64" where
  "count_if b n = (if b then sat_add n 1 else n)"

text \<open>Below a time to live of two nothing is forwarded, so the subtraction does not saturate.\<close>
(* src: src/src/router.rs:425-495 Router::accept *)
definition accept :: "u64 \<Rightarrow> 'm route_envelope \<Rightarrow> router \<Rightarrow> 'm route_decision \<times> router" where
  "accept now e r =
    (if is_duplicate (peer_id r) (seen_routes r) (seen_content r) e
     then (\<lparr> deliver = False, forward = None, duplicate = True \<rparr>, r\<lparr> duplicate_routes := sat_add (duplicate_routes r) 1 \<rparr>)
     else
       let limit = rc_max_seen_routes (config r);
           r1 = r\<lparr> seen_routes := remember limit (route_id e) now (seen_routes r),
                   seen_content := remember_content limit e now (seen_content r),
                   peers := note_presence (env_payload e) (peers r) \<rparr>;
           deliver = matches_target (peer_id r) (rc_default_channel (config r)) e;
           forward = (if ttl e > 1 then Some (add_seen_by (peer_id r) (e\<lparr> ttl := ttl e - 1, hops := sat_add (hops e) 1 \<rparr>)) else None)
       in (\<lparr> deliver = deliver, forward = forward, duplicate = False \<rparr>,
           r1\<lparr> delivered_routes := count_if deliver (delivered_routes r),
               forwarded_routes := count_if (forward \<noteq> None) (forwarded_routes r) \<rparr>))"

(* src: src/src/router.rs:497-523 Router::wrap_payload *)
definition wrap_payload ::
    "('m route_payload \<Rightarrow> string option) \<Rightarrow> u64 \<Rightarrow> 'm route_payload \<Rightarrow> route_target \<Rightarrow> string option \<Rightarrow>
     router \<Rightarrow> 'm route_envelope \<times> router" where
  "wrap_payload stable_content_hash now payload target reply_to r =
    (let seq = sat_add (next_route_seq r) 1
     in (\<lparr> route_id = peer_id r @ ''/route/'' @ hex (unat seq), env_from = peer_id r, env_channel = rc_default_channel (config r),
           env_target = target, ttl = rc_default_ttl (config r), hops = 0, env_issued_at_millis = now, env_reply_to = reply_to,
           env_content_hash = stable_content_hash payload, seen_by = [peer_id r], env_payload = payload \<rparr>,
         r\<lparr> next_route_seq := seq \<rparr>))"

(* src: src/src/router.rs:257-271 Router::wrap_sync *)
definition wrap_sync ::
    "('m route_payload \<Rightarrow> string option) \<Rightarrow> u64 \<Rightarrow> string \<Rightarrow> json \<Rightarrow> route_target \<Rightarrow> router \<Rightarrow> 'm route_envelope \<times> router" where
  "wrap_sync h now encoding payload target = wrap_payload h now (Sync encoding payload) target None"

(* src: src/src/router.rs:273-287 Router::wrap_signal *)
definition wrap_signal ::
    "('m route_payload \<Rightarrow> string option) \<Rightarrow> u64 \<Rightarrow> string \<Rightarrow> json \<Rightarrow> route_target \<Rightarrow> router \<Rightarrow> 'm route_envelope \<times> router" where
  "wrap_signal h now room payload target = wrap_payload h now (Signal room payload) target None"

(* src: src/src/router.rs:289-300 Router::wrap_application *)
definition wrap_application ::
    "('m route_payload \<Rightarrow> string option) \<Rightarrow> u64 \<Rightarrow> 'm \<Rightarrow> route_target \<Rightarrow> string option \<Rightarrow> router \<Rightarrow> 'm route_envelope \<times> router" where
  "wrap_application h now message = wrap_payload h now (Application message)"

(* src: src/src/router.rs:302-304 Router::wrap_pull_request *)
definition wrap_pull_request ::
    "('m route_payload \<Rightarrow> string option) \<Rightarrow> u64 \<Rightarrow> 'm \<Rightarrow> route_target \<Rightarrow> router \<Rightarrow> 'm route_envelope \<times> router" where
  "wrap_pull_request h now request target = wrap_payload h now (PullRequest request) target None"

(* src: src/src/router.rs:306-317 Router::wrap_pull_response *)
definition wrap_pull_response ::
    "('m route_payload \<Rightarrow> string option) \<Rightarrow> u64 \<Rightarrow> 'm \<Rightarrow> route_target \<Rightarrow> string option \<Rightarrow> router \<Rightarrow> 'm route_envelope \<times> router" where
  "wrap_pull_response h now response = wrap_payload h now (PullResponse response)"

(* src: src/src/router.rs:346-353 Router::wrap_batch *)
definition wrap_batch ::
    "('m route_payload \<Rightarrow> string option) \<Rightarrow> u64 \<Rightarrow> 'm route_batch_item list \<Rightarrow> route_target \<Rightarrow> string option \<Rightarrow> router \<Rightarrow> 'm route_envelope \<times> router" where
  "wrap_batch h now items = wrap_payload h now (Batch items)"

(* src: src/src/router.rs:387-398 Router::peer_exchange *)
definition peer_exchange ::
    "('m route_payload \<Rightarrow> string option) \<Rightarrow> u64 \<Rightarrow> peer_recommendation list \<Rightarrow> route_target \<Rightarrow> string option \<Rightarrow> router \<Rightarrow> 'm route_envelope \<times> router" where
  "peer_exchange h now ps = wrap_payload h now (PeerExchange ps)"

(* src: src/src/router.rs:400-402 Router::auth_challenge *)
definition auth_challenge ::
    "('m route_payload \<Rightarrow> string option) \<Rightarrow> u64 \<Rightarrow> 'm \<Rightarrow> route_target \<Rightarrow> router \<Rightarrow> 'm route_envelope \<times> router" where
  "auth_challenge h now challenge target = wrap_payload h now (AuthChallenge challenge) target None"

(* src: src/src/router.rs:404-406 Router::auth_response *)
definition auth_response ::
    "('m route_payload \<Rightarrow> string option) \<Rightarrow> u64 \<Rightarrow> 'm \<Rightarrow> route_target \<Rightarrow> router \<Rightarrow> 'm route_envelope \<times> router" where
  "auth_response h now response target = wrap_payload h now (AuthResponse response) target None"

(* src: src/src/router.rs:408-410 Router::snapshot_request *)
definition snapshot_request ::
    "('m route_payload \<Rightarrow> string option) \<Rightarrow> u64 \<Rightarrow> string option \<Rightarrow> route_target \<Rightarrow> router \<Rightarrow> 'm route_envelope \<times> router" where
  "snapshot_request h now root target = wrap_payload h now (SnapshotRequest root) target None"

(* src: src/src/router.rs:412-423 Router::snapshot_response *)
definition snapshot_response ::
    "('m route_payload \<Rightarrow> string option) \<Rightarrow> u64 \<Rightarrow> string option \<Rightarrow> database_snapshot \<Rightarrow> route_target \<Rightarrow> router \<Rightarrow> 'm route_envelope \<times> router" where
  "snapshot_response h now root snap target = wrap_payload h now (SnapshotResponse root snap) target None"

text \<open>Watch messages are sent without a content hash.\<close>
definition wrap_unhashed ::
    "('m route_payload \<Rightarrow> string option) \<Rightarrow> u64 \<Rightarrow> 'm route_payload \<Rightarrow> route_target \<Rightarrow> string option \<Rightarrow>
     router \<Rightarrow> 'm route_envelope \<times> router" where
  "wrap_unhashed h now payload target reply_to r =
    (let (e, r1) = wrap_payload h now payload target reply_to r in (e\<lparr> env_content_hash := None \<rparr>, r1))"

(* src: src/src/router.rs:319-332 Router::wrap_watch_request *)
definition wrap_watch_request ::
    "('m route_payload \<Rightarrow> string option) \<Rightarrow> u64 \<Rightarrow> 'm \<Rightarrow> route_target \<Rightarrow> string option \<Rightarrow> router \<Rightarrow> 'm route_envelope \<times> router" where
  "wrap_watch_request h now request = wrap_unhashed h now (WatchRequest request)"

(* src: src/src/router.rs:334-344 Router::wrap_watch_event *)
definition wrap_watch_event ::
    "('m route_payload \<Rightarrow> string option) \<Rightarrow> u64 \<Rightarrow> 'm \<Rightarrow> route_target \<Rightarrow> string option \<Rightarrow> router \<Rightarrow> 'm route_envelope \<times> router" where
  "wrap_watch_event h now event = wrap_unhashed h now (WatchEvent event)"

(* src: src/src/router.rs:355-362 Router::wrap_batch_item *)
definition wrap_batch_item ::
    "('m route_payload \<Rightarrow> string option) \<Rightarrow> u64 \<Rightarrow> 'm route_batch_item \<Rightarrow> route_target \<Rightarrow> string option \<Rightarrow>
     router \<Rightarrow> 'm route_envelope \<times> router" where
  "wrap_batch_item h now i = wrap_payload h now (from_batch_item i)"

(* src: src/src/router.rs:364-385 Router::presence *)
definition presence ::
    "('m route_payload \<Rightarrow> string option) \<Rightarrow> u64 \<Rightarrow> string \<Rightarrow> string \<Rightarrow> string list \<Rightarrow> string list \<Rightarrow> router \<Rightarrow> 'm route_envelope \<times> router" where
  "presence h now replica_id transport capabilities topics r =
    wrap_payload h now (Presence \<lparr> pp_peer_id = peer_id r, pp_replica_id = replica_id, pp_transport = transport, pp_identity = None,
      pp_capabilities = capabilities, pp_topics = topics, pp_metadata = fmempty \<rparr>) Broadcast None r"

section \<open>The relay\<close>

text \<open>Text is a sequence of bytes; these are the characters of white space in UTF-8.\<close>
definition white_space :: "string list" where
  "white_space = map (map char_of)
    ([[9], [10], [11], [12], [13], [32], [194, 133], [194, 160], [225, 154, 128], [226, 128, 168], [226, 128, 169],
      [226, 128, 175], [226, 129, 159], [227, 128, 128]] @ map (\<lambda>i. [226, 128, i]) [128..<139] :: nat list list)"

definition leading_space :: "string list \<Rightarrow> string \<Rightarrow> string option" where
  "leading_space ws s = find (\<lambda>w. w \<noteq> [] \<and> take (length w) s = w) ws"

function trim_start :: "string list \<Rightarrow> string \<Rightarrow> string" where
  "trim_start ws s = (case leading_space ws s of None \<Rightarrow> s | Some w \<Rightarrow> trim_start ws (drop (length w) s))"
  by pat_completeness auto
termination
proof (relation "measure (\<lambda>(_, s). length s)")
  fix ws s w
  assume "leading_space ws s = Some w"
  then have "w \<noteq> []" "take (length w) s = w" by (auto simp: leading_space_def find_Some_iff)
  then have "0 < length w" "length w \<le> length s" by (simp, metis length_take min.cobounded1)
  then have "length s - length w < length s" by linarith
  then show "((ws, drop (length w) s), (ws, s)) \<in> measure (\<lambda>(_, s). length s)" by simp
qed simp

declare trim_start.simps [simp del]

definition trim :: "string \<Rightarrow> string" where
  "trim s = rev (trim_start (map rev white_space) (rev (trim_start white_space s)))"

(* src: src/src/transport.rs:53-62 PresenceRecord, RouteRelaySession (structs) *)
record ('m, 'h) relay_session =
  sess_handle :: 'h
  sess_presence :: "(peer_presence \<times> 'm route_envelope) option"

(* src: src/src/transport.rs:65-69 RouteRelayForward *)
record ('m, 'h) relay_forward =
  rf_bootstrap :: "'m route_envelope option"
  rf_recipients :: "'h list"
  rf_route :: "'m route_envelope option"

definition no_forward :: "('m, 'h) relay_forward" where
  "no_forward = \<lparr> rf_bootstrap = None, rf_recipients = [], rf_route = None \<rparr>"

text \<open>The counter that numbers the envelopes of relays belongs to the process.\<close>
(* src: src/src/transport.rs:82-89 RouteRelayCore *)
record ('m, 'h) relay =
  relay_peer_id :: string
  relay_max_seen_routes :: usize
  sessions :: "(u64, ('m, 'h) relay_session) fmap"
  peer_index :: "(string, u64) fmap"
  relay_seen_routes :: seen_cache
  relay_seen_content :: seen_cache
  next_relay_id :: u64

(* src: src/src/transport.rs:92-101 RouteRelayCore::new *)
definition relay_new :: "string \<Rightarrow> usize \<Rightarrow> ('m, 'h) relay" where
  "relay_new me limit =
    \<lparr> relay_peer_id = me, relay_max_seen_routes = max limit 1, sessions = fmempty, peer_index = fmempty,
      relay_seen_routes = fmempty, relay_seen_content = fmempty, next_relay_id = 1 \<rparr>"

(* src: src/src/transport.rs:103-111 RouteRelayCore::insert_session *)
definition insert_session :: "u64 \<Rightarrow> 'h \<Rightarrow> ('m, 'h) relay \<Rightarrow> ('m, 'h) relay" where
  "insert_session i h c = c\<lparr> sessions := fmupd i \<lparr> sess_handle = h, sess_presence = None \<rparr> (sessions c) \<rparr>"

(* src: src/src/transport.rs:121-125 RouteRelayCore::session_handle *)
definition session_handle :: "u64 \<Rightarrow> ('m, 'h) relay \<Rightarrow> 'h option" where
  "session_handle i c = map_option sess_handle (fmlookup (sessions c) i)"

text \<open>The sessions other than one, in the order of their numbers.\<close>
definition other_sessions :: "u64 \<Rightarrow> ('m, 'h) relay \<Rightarrow> ('m, 'h) relay_session list" where
  "other_sessions i c = map snd (filter (\<lambda>(j, _). j \<noteq> i) (sorted_list_of_fmap (sessions c)))"

(* src: src/src/transport.rs:127-138 RouteRelayCore::session_handles_except *)
definition session_handles_except :: "u64 \<Rightarrow> ('m, 'h) relay \<Rightarrow> 'h list" where
  "session_handles_except i c = map sess_handle (other_sessions i c)"

definition reaches :: "'m route_envelope \<Rightarrow> ('m, 'h) relay_session \<Rightarrow> bool" where
  "reaches e s =
    (case env_target e of
       Broadcast \<Rightarrow> (case sess_presence s of Some (_, route) \<Rightarrow> env_channel route = env_channel e | None \<Rightarrow> True)
     | Topic topic \<Rightarrow> (case sess_presence s of Some (peer, route) \<Rightarrow> topic \<in> set (pp_topics peer) \<or> env_channel route = topic | None \<Rightarrow> False)
     | Peer _ \<Rightarrow> False)"

(* src: src/src/transport.rs:261-317 RouteRelayCore::collect_route_recipients *)
definition collect_route_recipients :: "u64 \<Rightarrow> 'm route_envelope \<Rightarrow> ('m, 'h) relay \<Rightarrow> 'h list" where
  "collect_route_recipients sender e c =
    (case env_target e of
       Peer p \<Rightarrow>
         (case fmlookup (peer_index c) p of
            None \<Rightarrow> []
          | Some i \<Rightarrow> if i = sender then [] else (case session_handle i c of Some h \<Rightarrow> [h] | None \<Rightarrow> []))
     | _ \<Rightarrow> map sess_handle (filter (reaches e) (other_sessions sender c)))"

(* src: src/src/transport.rs:520-524 recommendation_score *)
definition recommendation_score :: "peer_presence \<Rightarrow> u16" where
  "recommendation_score peer =
    50 + of_nat (min (length (pp_capabilities peer)) 8) * 10 + of_nat (min (length (pp_topics peer)) 8) * 5"

definition relay_urls_of :: "peer_presence \<Rightarrow> string list" where
  "relay_urls_of peer =
    (case fmlookup (pp_metadata peer) ''relay_url'' of
       None \<Rightarrow> []
     | Some v \<Rightarrow> filter (\<lambda>u. u \<noteq> []) (map trim (split_on CHR '','' v)))"

text \<open>The \<open>i\<close>-th recommendation reads the clock \<open>i\<close> calls after the first.\<close>
(* src: src/src/transport.rs:319-348 RouteRelayCore::collect_peer_recommendations *)
definition collect_peer_recommendations :: "(nat \<Rightarrow> u64) \<Rightarrow> u64 \<Rightarrow> ('m, 'h) relay \<Rightarrow> peer_recommendation list" where
  "collect_peer_recommendations time except c =
    (let present = map fst (List.map_filter sess_presence (other_sessions except c))
     in map (\<lambda>(i, peer). \<lparr> pr_peer = peer, pr_relay_urls = relay_urls_of peer, pr_score = recommendation_score peer,
          pr_discovered_at_millis = time i \<rparr>) (enumerate 0 present))"

(* src: src/src/transport.rs:476-518 build_bootstrap_route *)
definition build_bootstrap_route ::
    "('m route_payload \<Rightarrow> string option) \<Rightarrow> u64 \<Rightarrow> u64 \<Rightarrow> string \<Rightarrow> string \<Rightarrow> string \<Rightarrow> 'm route_envelope list \<Rightarrow>
     peer_recommendation list \<Rightarrow> 'm route_envelope option" where
  "build_bootstrap_route h now number me channel target existing recommendations =
    (let items = List.map_filter (\<lambda>e. case env_payload e of Presence peer \<Rightarrow> Some (ItemPresence peer) | _ \<Rightarrow> None) existing @
           (if recommendations = [] then [] else [ItemPeerExchange recommendations])
     in if items = [] then None
        else Some \<lparr> route_id = me @ ''/bootstrap/'' @ hex (unat number), env_from = me, env_channel = channel,
               env_target = Peer target, ttl = 1, hops = 0, env_issued_at_millis = now, env_reply_to = None,
               env_content_hash = h (Batch items), seen_by = [me], env_payload = Batch items \<rparr>)"

definition session_peer :: "u64 \<Rightarrow> ('m, 'h) relay \<Rightarrow> string option" where
  "session_peer i c = (case fmlookup (sessions c) i of Some s \<Rightarrow> map_option (pp_peer_id \<circ> fst) (sess_presence s) | None \<Rightarrow> None)"

text \<open>A peer announces itself on a session.\<close>
definition register_peer :: "u64 \<Rightarrow> peer_presence \<Rightarrow> 'm route_envelope \<Rightarrow> ('m, 'h) relay \<Rightarrow> ('m, 'h) relay" where
  "register_peer i peer e c =
    c\<lparr> peer_index := fmupd (pp_peer_id peer) i
         (case session_peer i c of Some p \<Rightarrow> fmdrop p (peer_index c) | None \<Rightarrow> peer_index c),
       sessions := (case fmlookup (sessions c) i of
                      Some s \<Rightarrow> fmupd i (s\<lparr> sess_presence := Some (peer, e) \<rparr>) (sessions c)
                    | None \<Rightarrow> sessions c) \<rparr>"

text \<open>What a newcomer is told, and the relay with the newcomer registered.\<close>
definition greet ::
    "('m route_payload \<Rightarrow> string option) \<Rightarrow> (nat \<Rightarrow> u64) \<Rightarrow> u64 \<Rightarrow> peer_presence \<Rightarrow> 'm route_envelope \<Rightarrow> ('m, 'h) relay \<Rightarrow>
     'm route_envelope option \<times> ('m, 'h) relay" where
  "greet h time i peer e c =
    (let existing = map snd (List.map_filter sess_presence (other_sessions i c));
         recommendations = collect_peer_recommendations time i c;
         bootstrap = build_bootstrap_route h (time (length recommendations)) (next_relay_id c) (relay_peer_id c) (env_channel e)
           (pp_peer_id peer) existing recommendations;
         c1 = (if bootstrap = None then c else c\<lparr> next_relay_id := next_relay_id c + 1 \<rparr>)
     in (bootstrap, register_peer i peer e c1))"

(* src: src/src/transport.rs:140-224 RouteRelayCore::forward_route *)
definition forward_route ::
    "('m route_payload \<Rightarrow> string option) \<Rightarrow> (nat \<Rightarrow> u64) \<Rightarrow> u64 \<Rightarrow> 'm route_envelope \<Rightarrow> ('m, 'h) relay \<Rightarrow>
     ('m, 'h) relay_forward \<times> ('m, 'h) relay" where
  "forward_route h time i e c =
    (if is_duplicate (relay_peer_id c) (relay_seen_routes c) (relay_seen_content c) e then (no_forward, c)
     else
       let limit = relay_max_seen_routes c;
           c1 = c\<lparr> relay_seen_routes := remember limit (route_id e) (time 0) (relay_seen_routes c),
                   relay_seen_content := remember_content limit e (time 0) (relay_seen_content c) \<rparr>;
           e1 = add_seen_by (relay_peer_id c) e;
           e2 = (if env_content_hash e1 = None then e1\<lparr> env_content_hash := h (env_payload e1) \<rparr> else e1);
           (bootstrap, c2) = (case env_payload e2 of
              Presence peer \<Rightarrow> greet h (\<lambda>k. time (k + 1)) i peer e2 c1
            | _ \<Rightarrow> (None, c1))
       in (\<lparr> rf_bootstrap = bootstrap, rf_recipients = collect_route_recipients i e2 c2, rf_route = Some e2 \<rparr>, c2))"

(* src: src/src/transport.rs:226-259 RouteRelayCore::disconnect_session *)
definition disconnect_session ::
    "('m route_payload \<Rightarrow> string option) \<Rightarrow> u64 \<Rightarrow> u64 \<Rightarrow> ('m, 'h) relay \<Rightarrow> ('m, 'h) relay_forward option \<times> ('m, 'h) relay" where
  "disconnect_session h now i c =
    (case fmlookup (sessions c) i of
       None \<Rightarrow> (None, c)
     | Some s \<Rightarrow>
         (let c1 = c\<lparr> sessions := fmdrop i (sessions c) \<rparr>
          in case sess_presence s of
               None \<Rightarrow> (None, c1)
             | Some (peer, route) \<Rightarrow>
                 (let payload = Presence (peer\<lparr> pp_metadata := fmupd ''state'' ''offline'' (pp_metadata peer) \<rparr>);
                      e = \<lparr> route_id = relay_peer_id c @ ''/disconnect/'' @ hex (unat (next_relay_id c)), env_from = relay_peer_id c,
                            env_channel = env_channel route, env_target = Broadcast, ttl = 1, hops = 0, env_issued_at_millis = now,
                            env_reply_to = None, env_content_hash = h payload, seen_by = [relay_peer_id c], env_payload = payload \<rparr>;
                      c2 = c1\<lparr> peer_index := fmdrop (pp_peer_id peer) (peer_index c), next_relay_id := next_relay_id c + 1 \<rparr>
                  in (Some \<lparr> rf_bootstrap = None, rf_recipients = collect_route_recipients i e c2, rf_route = Some e \<rparr>, c2))))"

section \<open>The hub inside a process\<close>

text \<open>A channel is its number and holds what was sent to it; receivers do not go away.\<close>
(* src: src/src/transport.rs:380-387 InMemoryRouteHub, InMemoryRouteHubInner (structs) *)
record 'm hub =
  next_session_id :: u64
  hub_relay :: "('m, usize) relay"
  channels :: "'m route_envelope list list"

(* src: src/src/transport.rs:396-403 InMemoryRouteHub::new *)
definition hub_new :: "'m hub" where
  "hub_new = \<lparr> next_session_id = 0, hub_relay = relay_new ''in-memory-relay'' 8192, channels = [] \<rparr>"

(* src: src/src/transport.rs:405-419 InMemoryRouteHub::connect *)
definition hub_connect :: "'m hub \<Rightarrow> u64 \<times> 'm hub" where
  "hub_connect b =
    (let i = sat_add (next_session_id b) 1
     in (i, b\<lparr> next_session_id := i, hub_relay := insert_session i (length (channels b)) (hub_relay b), channels := channels b @ [[]] \<rparr>))"

definition send :: "'m route_envelope \<Rightarrow> usize \<Rightarrow> 'm hub \<Rightarrow> 'm hub" where
  "send e n b = (if n < length (channels b) then b\<lparr> channels := (channels b)[n := channels b ! n @ [e]] \<rparr> else b)"

(* src: src/src/transport.rs:453-473 InMemoryRouteHub::dispatch *)
definition hub_dispatch :: "u64 \<Rightarrow> ('m, usize) relay_forward \<Rightarrow> 'm hub \<Rightarrow> 'm hub" where
  "hub_dispatch i f b =
    (let b1 = (case rf_bootstrap f of
           None \<Rightarrow> b
         | Some e \<Rightarrow> (case session_handle i (hub_relay b) of Some n \<Rightarrow> send e n b | None \<Rightarrow> b))
     in case rf_route f of None \<Rightarrow> b1 | Some e \<Rightarrow> fold (send e) (rf_recipients f) b1)"

(* src: src/src/transport.rs:429-438 InMemoryRouteHub::forward *)
definition hub_forward :: "('m route_payload \<Rightarrow> string option) \<Rightarrow> (nat \<Rightarrow> u64) \<Rightarrow> u64 \<Rightarrow> 'm route_envelope \<Rightarrow> 'm hub \<Rightarrow> 'm hub" where
  "hub_forward h time i e b =
    (let (f, c) = forward_route h time i e (hub_relay b) in hub_dispatch i f (b\<lparr> hub_relay := c \<rparr>))"

(* src: src/src/transport.rs:440-451 InMemoryRouteHub::disconnect *)
definition hub_disconnect :: "('m route_payload \<Rightarrow> string option) \<Rightarrow> u64 \<Rightarrow> u64 \<Rightarrow> 'm hub \<Rightarrow> 'm hub" where
  "hub_disconnect h now i b =
    (let (f, c) = disconnect_session h now i (hub_relay b);
         b1 = b\<lparr> hub_relay := c \<rparr>
     in case f of Some f \<Rightarrow> hub_dispatch i f b1 | None \<Rightarrow> b1)"

section \<open>Duplicates\<close>

lemma trim_le: "fcard (fmdom (trim_seen_cache limit seen)) \<le> limit"
proof (induction limit seen rule: trim_seen_cache.induct)
  case (1 limit seen)
  have "first_key seen \<noteq> None" if "fcard (fmdom seen) > limit"
  proof -
    have "sorted_list_of_fset (fmdom seen) \<noteq> []"
      using that length_sorted_list_of_fset [of "fmdom seen"] by (metis list.size(3) not_less_zero)
    then show ?thesis by (simp add: first_key_def split: list.split)
  qed
  with 1 show ?case by (subst trim_seen_cache.simps) (auto split: option.split)
qed

lemma trim_fits: "fcard (fmdom seen) \<le> limit \<Longrightarrow> trim_seen_cache limit seen = seen"
  by (subst trim_seen_cache.simps) simp

lemma remember_le: "fcard (fmdom (remember limit k t seen)) \<le> limit"
  by (simp only: remember_def trim_le)

lemma remember_content_le: "fcard (fmdom seen) \<le> limit \<Longrightarrow> fcard (fmdom (remember_content limit e t seen)) \<le> limit"
  by (simp add: remember_content_def remember_le split: option.split)

text \<open>A sequence of envelopes, with the times they arrive at: those that are taken, and the state after.\<close>
fun receive_all :: "('t \<Rightarrow> 'e \<Rightarrow> 's \<Rightarrow> bool \<times> 's) \<Rightarrow> ('t \<times> 'e) list \<Rightarrow> 's \<Rightarrow> 'e list \<times> 's" where
  "receive_all receive [] s = ([], s)"
| "receive_all receive ((t, e) # es) s =
    (let (taken, s1) = receive t e s; (rest, s2) = receive_all receive es s1 in (if taken then e # rest else rest, s2))"

text \<open>What recognises duplicates by two caches of bounded size.\<close>
locale duplicate_filter =
  fixes receive :: "'t \<Rightarrow> 'm route_envelope \<Rightarrow> 's \<Rightarrow> bool \<times> 's"
    and clock :: "'t \<Rightarrow> u64" and me :: "'s \<Rightarrow> string" and limit :: "'s \<Rightarrow> usize"
    and routes :: "'s \<Rightarrow> seen_cache" and contents :: "'s \<Rightarrow> seen_cache"
  assumes decides: "fst (receive t e s) = (\<not> is_duplicate (me s) (routes s) (contents s) e)"
    and routes_after: "routes (snd (receive t e s)) =
      (if fst (receive t e s) then remember (limit s) (route_id e) (clock t) (routes s) else routes s)"
    and contents_after: "contents (snd (receive t e s)) =
      (if fst (receive t e s) then remember_content (limit s) e (clock t) (contents s) else contents s)"
    and limit_kept: "limit (snd (receive t e s)) = limit s"
begin

lemma caches_bounded:
  assumes "fcard (fmdom (routes s)) \<le> limit s" "fcard (fmdom (contents s)) \<le> limit s"
  shows "fcard (fmdom (routes (snd (receive t e s)))) \<le> limit s \<and> fcard (fmdom (contents (snd (receive t e s)))) \<le> limit s"
  using assms by (simp add: routes_after contents_after remember_le remember_content_le)

text \<open>While the routes fit into the cache none is taken twice.\<close>
lemma taken_once:
  assumes "fset (fmdom (routes s)) \<union> route_id ` snd ` set es \<subseteq> ids" "finite ids" "card ids \<le> limit s"
  shows "distinct (map route_id (fst (receive_all receive es s))) \<and>
    (\<forall>e \<in> set (fst (receive_all receive es s)). route_id e |\<notin>| fmdom (routes s))"
  using assms
proof (induction es arbitrary: s)
  case (Cons x es)
  obtain t e where x: "x = (t, e)" by fastforce
  let ?s = "snd (receive t e s)"
  have fits: "fcard (fmdom (fmupd (route_id e) (clock t) (routes s))) \<le> limit s"
    using Cons.prems x card_mono [of ids "insert (route_id e) (fset (fmdom (routes s)))"]
    by (simp add: fcard.rep_eq)
  have dom: "fmdom (routes ?s) = (if fst (receive t e s) then finsert (route_id e) (fmdom (routes s)) else fmdom (routes s))"
    by (simp add: routes_after remember_def trim_fits [OF fits])
  have "fset (fmdom (routes ?s)) \<union> route_id ` snd ` set es \<subseteq> ids" using Cons.prems(1) x by (auto simp: dom)
  then have IH: "distinct (map route_id (fst (receive_all receive es ?s)))"
    "\<forall>e \<in> set (fst (receive_all receive es ?s)). route_id e |\<notin>| fmdom (routes ?s)"
    using Cons.IH Cons.prems(2,3) by (simp_all add: limit_kept)
  have "fst (receive t e s) \<Longrightarrow> route_id e |\<notin>| fmdom (routes s)" by (simp add: decides is_duplicate_def)
  with IH show ?case by (auto simp: x Let_def split_def dom split: if_splits)
qed simp

end

definition router_receive :: "u64 \<Rightarrow> 'm route_envelope \<Rightarrow> router \<Rightarrow> bool \<times> router" where
  "router_receive now e r = (let (d, r1) = accept now e r in (\<not> duplicate d, r1))"

definition relay_receive ::
    "('m route_payload \<Rightarrow> string option) \<Rightarrow> (nat \<Rightarrow> u64) \<times> u64 \<Rightarrow> 'm route_envelope \<Rightarrow> ('m, 'h) relay \<Rightarrow> bool \<times> ('m, 'h) relay" where
  "relay_receive h = (\<lambda>(time, i) e c. let (f, c1) = forward_route h time i e c in (rf_route f \<noteq> None, c1))"

interpretation router_filter: duplicate_filter router_receive "\<lambda>t. t" peer_id "\<lambda>r. rc_max_seen_routes (config r)" seen_routes seen_content
  by unfold_locales (simp_all add: router_receive_def accept_def Let_def split_def)

lemma greet_frame [simp]:
  "relay_seen_routes (snd (greet h time i peer e c)) = relay_seen_routes c"
  "relay_seen_content (snd (greet h time i peer e c)) = relay_seen_content c"
  "relay_max_seen_routes (snd (greet h time i peer e c)) = relay_max_seen_routes c"
  "relay_peer_id (snd (greet h time i peer e c)) = relay_peer_id c"
  by (simp_all add: greet_def register_peer_def Let_def)

interpretation relay_filter: duplicate_filter "relay_receive h" "\<lambda>(time, i). time 0" relay_peer_id relay_max_seen_routes
    relay_seen_routes relay_seen_content for h
  by unfold_locales
    (auto simp: relay_receive_def forward_route_def no_forward_def Let_def split_def split: route_payload.split)

section \<open>Flooding a network\<close>

text \<open>
  A network: the router at every address and the envelopes on their way, each with the address it
  is going to.  A router that forwards an envelope sends a copy along each of its links; an
  envelope may also get lost.
\<close>
type_synonym 'm network = "(string \<Rightarrow> router) \<times> (string \<times> 'm route_envelope) multiset"

definition sent :: "string list \<Rightarrow> 'm route_envelope option \<Rightarrow> (string \<times> 'm route_envelope) multiset" where
  "sent qs e = (case e of Some e \<Rightarrow> mset (map (\<lambda>q. (q, e)) qs) | None \<Rightarrow> {#})"

inductive flood_step :: "(string \<Rightarrow> string list) \<Rightarrow> 'm network \<Rightarrow> 'm network \<Rightarrow> bool" for neighbours where
  flood_accept: "accept now e (net p) = (d, r) \<Longrightarrow> flood_step neighbours (net, add_mset (p, e) M) (net(p := r), M + sent (neighbours p) (forward d))"
| flood_lose: "flood_step neighbours (net, add_mset (p, e) M) (net, M)"

lemma forwarded:
  assumes "forward (fst (accept now e r)) = Some e'"
  shows "1 < ttl e" "e' = e\<lparr> ttl := ttl e - 1, hops := sat_add (hops e) 1, seen_by := seen_by e @ [peer_id r] \<rparr>"
    "peer_id r \<notin> set (seen_by e)"
  using assms by (auto simp: accept_def Let_def add_seen_by_def is_duplicate_def split: if_splits)

lemma ttl_decreases: "1 < n \<Longrightarrow> unat (n - 1) = unat n - 1 \<and> 1 < unat n" for n :: u8
proof -
  assume n: "1 < n"
  then have "1 \<le> n" by (rule less_imp_le)
  moreover have "1 < unat n" using n by (simp add: word_less_nat_alt)
  ultimately show ?thesis using unat_sub [of 1 n] by simp
qed

definition lives :: "'m network \<Rightarrow> nat multiset" where
  "lives s = image_mset (\<lambda>(_, e). unat (ttl e)) (snd s)"

lemma flood_decreases:
  assumes "flood_step neighbours s t"
  shows "(lives t, lives s) \<in> mult {(x, y). x < y}"
  using assms
proof (cases rule: flood_step.cases)
  case (flood_accept now e net p d r M)
  have less: "k < unat (ttl e)" if "k \<in># image_mset (\<lambda>(_, e). unat (ttl e)) (sent (neighbours p) (forward d))" for k
  proof -
    from that obtain e' where e': "forward d = Some e'" "k = unat (ttl e')" by (auto simp: sent_def split: option.splits)
    with flood_accept(3) have f: "forward (fst (accept now e (net p))) = Some e'" by simp
    show ?thesis using forwarded(2) [OF f] ttl_decreases [OF forwarded(1) [OF f]] e'(2) by simp
  qed
  have "(lives t, lives s) = (image_mset (\<lambda>(_, e). unat (ttl e)) M + image_mset (\<lambda>(_, e). unat (ttl e)) (sent (neighbours p) (forward d)),
      image_mset (\<lambda>(_, e). unat (ttl e)) M + {#unat (ttl e)#})"
    by (simp add: lives_def flood_accept(1,2))
  then show ?thesis using one_step_implies_mult [of "{#unat (ttl e)#}" _ "{(x, y). x < y}"] less by simp
next
  case (flood_lose net p e M)
  then show ?thesis using one_step_implies_mult [of "{#unat (ttl e)#}" "{#}" "{(x, y). x < y}" "lives t"] by (simp add: lives_def)
qed

text \<open>C14: Flooding ends: whatever the links between the routers, the state of their caches and the order in which
  envelopes arrive or get lost, no network goes on accepting and forwarding envelopes for ever.\<close>
theorem flooding_ends: "wfp (\<lambda>t s. flood_step neighbours s t)"
proof (rule wfp_subset)
  show "wfp (\<lambda>t s. (lives t, lives s) \<in> mult {(x, y). x < y})"
    using wf_mult [OF wf] wf_inv_image [of "mult {(x, y). x < y}" lives] by (simp add: wfp_def inv_image_def)
  show "(\<lambda>t s. flood_step neighbours s t) \<le> (\<lambda>t s. (lives t, lives s) \<in> mult {(x, y). x < y})"
    using flood_decreases by (auto intro: predicate2I)
qed

text \<open>The path of an envelope is recorded in it and as long as its time to live allows.\<close>
definition well_travelled :: "u8 \<Rightarrow> 'm route_envelope \<Rightarrow> bool" where
  "well_travelled life e = (unat (hops e) + unat (ttl e) \<le> unat life \<and> length (seen_by e) = Suc (unat (hops e)) \<and> distinct (seen_by e))"

definition small_caches :: "router \<Rightarrow> bool" where
  "small_caches r = (fcard (fmdom (seen_routes r)) \<le> rc_max_seen_routes (config r) \<and>
     fcard (fmdom (seen_content r)) \<le> rc_max_seen_routes (config r))"

lemma well_travelled_forward:
  assumes "well_travelled life e" "forward (fst (accept now e r)) = Some e'"
  shows "well_travelled life e'"
proof -
  note f = forwarded [OF assms(2)]
  have life: "unat life < 2 ^ LENGTH(8)" by (rule unsigned_less)
  have sum: "unat (hops e) + unat (ttl e) \<le> 255"
    using assms(1) life by (simp add: well_travelled_def)
  have ttl: "unat (ttl e - 1) = unat (ttl e) - 1" "1 < unat (ttl e)" using ttl_decreases [OF f(1)] by simp_all
  then have "unat (sat_add (hops e) 1) = Suc (unat (hops e))" using sum by (simp add: unat_sat_add)
  then show ?thesis using assms(1) ttl f(3) by (auto simp: well_travelled_def f(2))
qed

lemma small_caches_accept: "small_caches r \<Longrightarrow> small_caches (snd (accept now e r))"
  using router_filter.caches_bounded [where s = r and t = now and e = e]
    router_filter.limit_kept [where s = r and t = now and e = e]
  by (simp add: small_caches_def router_receive_def split_def Let_def)

lemma flood_keeps:
  assumes "flood_step neighbours s t" "\<forall>(p, e) \<in># snd s. well_travelled life e" "\<forall>p. small_caches (fst s p)"
  shows "(\<forall>(p, e) \<in># snd t. well_travelled life e) \<and> (\<forall>p. small_caches (fst t p))"
  using assms(1)
proof (cases rule: flood_step.cases)
  case (flood_accept now e net p d r M)
  have d: "d = fst (accept now e (net p))" "r = snd (accept now e (net p))" using flood_accept(3) by simp_all
  have e: "well_travelled life e" using assms(2) flood_accept(1) by simp
  have "\<forall>(q, e') \<in># sent (neighbours p) (forward d). well_travelled life e'"
    using well_travelled_forward [OF e] by (auto simp: sent_def d(1) split: option.splits)
  moreover have "small_caches r" unfolding d(2) by (rule small_caches_accept) (use assms(3) flood_accept(1) in simp)
  ultimately show ?thesis using assms(2,3) flood_accept(1,2) by auto
qed (use assms(2,3) in auto)

text \<open>C15: In every network that starts with routers whose caches are within their limit and envelopes fresh
  from their senders, no cache ever outgrows its limit, and every envelope on its way has passed through
  distinct routers, at most as many as its time to live at the start, all of them recorded in it in order.\<close>
theorem flooding_is_bounded:
  assumes "(flood_step neighbours)\<^sup>*\<^sup>* (net, M) (net', M')" "\<And>p. small_caches (net p)"
    "\<And>p e. (p, e) \<in># M \<Longrightarrow> hops e = 0 \<and> ttl e \<le> life \<and> length (seen_by e) = 1"
  shows "small_caches (net' p) \<and>
    ((q, e) \<in># M' \<longrightarrow> distinct (seen_by e) \<and> length (seen_by e) = Suc (unat (hops e)) \<and> unat (hops e) + unat (ttl e) \<le> unat life)"
proof -
  have "(\<forall>(p, e) \<in># snd s. well_travelled life e) \<and> (\<forall>p. small_caches (fst s p))"
    if "(flood_step neighbours)\<^sup>*\<^sup>* (net, M) s" for s
    using that
  proof induction
    case base
    have "well_travelled life e" if "(p, e) \<in># M" for p e
      using assms(3) [OF that] by (auto simp: well_travelled_def word_le_nat_alt length_Suc_conv)
    then show ?case using assms(2) by auto
  next
    case (step s t)
    then show ?case using flood_keeps by blast
  qed
  from this [OF assms(1)] show ?thesis by (auto simp: well_travelled_def)
qed

definition demo_config :: "string \<Rightarrow> router_config" where
  "demo_config p = \<lparr> rc_peer_id = p, rc_default_channel = ''c'', rc_default_ttl = 3, rc_max_seen_routes = 1 \<rparr>"

definition demo_envelope :: "string \<Rightarrow> unit route_envelope" where
  "demo_envelope i = \<lparr> route_id = i, env_from = ''o'', env_channel = ''c'', env_target = Broadcast, ttl = 3, hops = 0,
     env_issued_at_millis = 0, env_reply_to = None, env_content_hash = None, seen_by = [''o''], env_payload = Application () \<rparr>"

lemma demo_accepted:
  "forward (fst (accept 0 (demo_envelope i) (router_new (demo_config ''a'')))) =
    Some ((demo_envelope i)\<lparr> ttl := 2, hops := 1, seen_by := [''o'', ''a''] \<rparr>)"
  by (simp add: accept_def is_duplicate_def router_new_def demo_config_def demo_envelope_def dedupe_key_def add_seen_by_def sat_add_def Let_def)

theorem flooding_is_bounded_witness:
  "\<exists>net'. (flood_step (\<lambda>_. [''b'']))\<^sup>*\<^sup>* (\<lambda>p. router_new (demo_config p), {#(''a'', demo_envelope ''i'')#})
       (net', {#(''b'', (demo_envelope ''i'')\<lparr> ttl := 2, hops := 1, seen_by := [''o'', ''a''] \<rparr>)#}) \<and>
     small_caches (net' ''a'') \<and> unat (hops ((demo_envelope ''i'')\<lparr> ttl := 2, hops := 1, seen_by := [''o'', ''a''] \<rparr>)) + 2 \<le> unat (3 :: u8)"
proof -
  let ?net = "\<lambda>p. router_new (demo_config p)"
  let ?e = "(demo_envelope ''i'')\<lparr> ttl := 2, hops := 1, seen_by := [''o'', ''a''] \<rparr>"
  let ?t = "(?net(''a'' := snd (accept 0 (demo_envelope ''i'') (?net ''a''))), {#(''b'', ?e)#})"
  have "flood_step (\<lambda>_. [''b'']) (?net, {#(''a'', demo_envelope ''i'')#}) ?t"
    using flood_accept [of 0 "demo_envelope ''i''" ?net "''a''" _ _ "\<lambda>_. [''b'']" "{#}", OF prod.collapse [symmetric]]
    by (simp add: demo_accepted sent_def)
  then have run: "(flood_step (\<lambda>_. [''b'']))\<^sup>*\<^sup>* (?net, {#(''a'', demo_envelope ''i'')#}) ?t" by (rule r_into_rtranclp)
  have start: "small_caches (?net p)" "(p, e) \<in># {#(''a'', demo_envelope ''i'')#} \<Longrightarrow> hops e = 0 \<and> ttl e \<le> 3 \<and> length (seen_by e) = 1" for p e
    by (auto simp: small_caches_def router_new_def demo_envelope_def fcard.rep_eq)
  have "small_caches (fst ?t ''a'') \<and> ((''b'', ?e) \<in># snd ?t \<longrightarrow> distinct (seen_by ?e) \<and> length (seen_by ?e) = Suc (unat (hops ?e)) \<and>
      unat (hops ?e) + unat (ttl ?e) \<le> unat (3 :: u8))"
    using flooding_is_bounded [OF run start] unfolding fst_conv snd_conv .
  then have "small_caches (fst ?t ''a'')" "unat (hops ?e) + 2 \<le> unat (3 :: u8)" by (simp_all add: demo_envelope_def)
  then show ?thesis using run unfolding fst_conv by blast
qed

text \<open>The envelopes of a sequence that a router delivers, with the times they arrive at.\<close>
fun deliveries :: "(u64 \<times> 'm route_envelope) list \<Rightarrow> router \<Rightarrow> 'm route_envelope list" where
  "deliveries [] r = []"
| "deliveries ((t, e) # es) r = (let (d, r1) = accept t e r in if deliver d then e # deliveries es r1 else deliveries es r1)"

lemma deliveries_taken: "subseq (deliveries es r) (fst (receive_all router_receive es r))"
proof (induction es arbitrary: r)
  case (Cons x es)
  obtain t e where x: "x = (t, e)" by fastforce
  obtain d r1 where d: "accept t e r = (d, r1)" by fastforce
  then have "deliver d \<Longrightarrow> \<not> duplicate d" by (auto simp: accept_def Let_def split: if_splits)
  moreover have "router_receive t e r = (\<not> duplicate d, r1)" by (simp add: router_receive_def d)
  ultimately show ?case using Cons.IH [of r1] by (auto simp: x d split_def Let_def)
qed simp

text \<open>C16: A router whose caches start empty delivers every route at most once, whatever copies of it arrive,
  as long as the routes that arrive are not more than the router remembers.\<close>
theorem route_delivered_once:
  assumes "seen_routes r = fmempty" "card (route_id ` snd ` set es) \<le> rc_max_seen_routes (config r)"
  shows "distinct (map route_id (deliveries es r))"
proof -
  have "distinct (map route_id (fst (receive_all router_receive es r)))"
    using router_filter.taken_once [of r es "route_id ` snd ` set es"] assms by simp
  then show ?thesis using subseq_map [OF deliveries_taken, of route_id es r] by (metis distinct_nthsI subseq_conv_nths)
qed

theorem route_delivered_once_witness:
  "deliveries [(0, demo_envelope ''i''), (1, demo_envelope ''i'')] (router_new (demo_config ''a'')) \<noteq> [] \<and>
   distinct (map route_id (deliveries [(0, demo_envelope ''i''), (1, demo_envelope ''i'')] (router_new (demo_config ''a''))))"
proof
  show "deliveries [(0, demo_envelope ''i''), (1, demo_envelope ''i'')] (router_new (demo_config ''a'')) \<noteq> []" by code_simp
  show "distinct (map route_id (deliveries [(0, demo_envelope ''i''), (1, demo_envelope ''i'')] (router_new (demo_config ''a''))))"
    by (rule route_delivered_once) (simp_all add: router_new_def demo_config_def)
qed

text \<open>
  The cache drops its smallest key, not its oldest one: a full router forgets the route that has
  just arrived when its identifier sorts first, and delivers the next copy again.
\<close>
lemma new_route_forgotten:
  "map route_id (deliveries [(0, demo_envelope ''z''), (1, demo_envelope ''i''), (2, demo_envelope ''i'')] (router_new (demo_config ''a''))) =
    [''z'', ''i'', ''i'']"
  by code_simp

section \<open>Relaying\<close>

lemma other_sessions_other: "s \<in> set (other_sessions i c) \<Longrightarrow> \<exists>j. j \<noteq> i \<and> fmlookup (sessions c) j = Some s"
  by (auto simp: other_sessions_def set_sorted_list_of_fmap)

text \<open>A relay never sends an envelope back to the session it came from.\<close>
lemma sender_left_out:
  assumes "h \<in> set (rf_recipients (fst (forward_route hash time i e c)))"
  shows "\<exists>j s. j \<noteq> i \<and> fmlookup (sessions (snd (forward_route hash time i e c))) j = Some s \<and> sess_handle s = h"
proof -
  have "\<exists>j s. j \<noteq> i \<and> fmlookup (sessions c') j = Some s \<and> sess_handle s = h" if "h \<in> set (collect_route_recipients i e' c')" for e' c'
    using that other_sessions_other [of _ i c']
    by (fastforce simp: collect_route_recipients_def session_handle_def split: route_target.splits option.splits if_splits)
  moreover have "rf_recipients (fst (forward_route hash time i e c)) = [] \<or>
      (\<exists>e'. rf_recipients (fst (forward_route hash time i e c)) = collect_route_recipients i e' (snd (forward_route hash time i e c)))"
    unfolding forward_route_def by (auto simp: no_forward_def Let_def split_def)
  ultimately show ?thesis using assms by auto
qed

definition demo_presence :: "string \<Rightarrow> unit route_envelope" where
  "demo_presence i = (demo_envelope i)\<lparr> env_payload := Presence \<lparr> pp_peer_id = ''p'', pp_replica_id = ''r'', pp_transport = ''t'',
     pp_identity = None, pp_capabilities = [], pp_topics = [], pp_metadata = fmempty \<rparr> \<rparr>"

definition demo_relay :: "(unit, nat) relay" where
  "demo_relay =
    (let announce = \<lambda>i n c. snd (forward_route (\<lambda>_. None) (\<lambda>_. 0) i (demo_presence n) c)
     in announce 2 ''y'' (announce 1 ''x'' (insert_session 2 20 (insert_session 1 10 (relay_new ''relay'' 4)))))"

text \<open>
  A peer that reconnects on a second session before the first one is closed can no longer be
  reached by its name once the first one closes: the entry of the index is removed although it belongs to the second.
\<close>
lemma reconnected_peer_unreachable:
  "let e = (demo_envelope ''w'')\<lparr> env_target := Peer ''p'' \<rparr>;
       c = snd (disconnect_session (\<lambda>_. None) 0 1 demo_relay)
   in collect_route_recipients 3 e demo_relay = [20] \<and> session_handle 2 c = Some 20 \<and> session_peer 2 c = Some ''p'' \<and>
      collect_route_recipients 3 e c = []"
  by code_simp

end
