(* ===== verification/Spec2Isabelle.thy ===== *)
theory Spec2Isabelle
  imports Hazards Scopes Persist Router
begin

text \<open>
  \<^bold>\<open>A verification library for PrimaDB\<close>, a local-first replicated graph database written in Rust.

  \<^bold>\<open>The program.\<close>  A replica keeps a graph of nodes whose fields hold scalars, links or sets of
  links (\<open>src/src/db.rs\<close>).  A write becomes an operation stamped by a hybrid logical clock
  (\<open>src/src/clock.rs\<close>), is applied to the nodes in memory and queued twice: for other replicas
  (\<open>pending_ops\<close>) and for the disk (\<open>unflushed_ops\<close>).  Operations of other replicas are applied by
  the same code, which resolves conflicts by the stamps.  A storage engine (\<open>src/src/engine.rs\<close>)
  turns the queued operations into a storage transaction with index entries and commits it to a
  directory of files protected by a journal; nodes are loaded from there when they are read.
  Transactions over several paths run under a journal in memory that undoes them when a step
  fails, scope policies say which replica may write what, and a record store with ordered scans
  is laid over the graph.  Between peers, messages travel in envelopes that routers and relays
  pass on (\<open>src/src/router.rs\<close>, \<open>src/src/transport.rs\<close>).

  \<^bold>\<open>Correspondence.\<close>  One theory per component, in the order of their imports:

  \<^item> \<open>Prelude\<close>: machine words with saturating addition, the result type and the fallible state
    transformers (\<open>fallible\<close>, \<open>bindS\<close>) that model methods on \<open>&mut self\<close>, strings, ordered
    iteration over maps, and the interfaces \<open>commuting_steps\<close>, \<open>idempotent_steps\<close>,
    \<open>merge_semilattice\<close> and \<open>undo_log\<close>.
  \<^item> \<open>Clock\<close> (\<open>clock.rs\<close>): \<open>Revision\<close>, \<open>VersionMarker\<close> and \<open>HybridClock\<close>.  Stamps grow along
    every run of a replica and dominate what it observed; issued identifiers are distinct.
  \<^item> \<open>Json\<close>, \<open>Values\<close> (\<open>value.rs\<close>, \<open>operation.rs\<close>, \<open>record.rs\<close>, \<open>query.rs\<close>, \<open>error.rs\<close>,
    \<open>consistency.rs\<close>, \<open>traversal.rs\<close>, \<open>snapshot.rs\<close>, \<open>hardening.rs\<close>): the data types of the
    database.
  \<^item> \<open>OpQueue\<close> (\<open>db.rs\<close>, \<open>CompactedOperations\<close>): queues that keep the newest operation per slot;
    what compaction keeps, and that undoing pushes restores the queue.
  \<^item> \<open>RelIndex\<close> (\<open>db.rs\<close>, \<open>RelationshipIndex\<close>): incremental reindexing equals a rebuild.
  \<^item> \<open>Crdt\<close> (\<open>db.rs\<close>, \<open>apply_operation_internal\<close> and the merge of node states): convergence,
    last writer wins, membership of sets, idempotence, and the uses of a field that diverge.
  \<^item> \<open>EngineKeys\<close> (\<open>engine.rs\<close>): key encodings, index windows and record keys; order preservation
    and round trips.
  \<^item> \<open>DbCore\<close> (\<open>db.rs\<close>): the locked state \<open>Inner\<close>, its journal, lazy loading, scope policies, the
    full \<open>apply_operation_internal\<close> and local operations.
  \<^item> \<open>Writes\<close> (\<open>db.rs\<close>): input markers, cursors, writing and reading JSON along paths, and
    transactions; a failed one leaves no trace, a successful one a consistent state.
  \<^item> \<open>Hazards\<close>: small states in which the write path loses or misplaces data.
  \<^item> \<open>Scopes\<close> (\<open>db.rs\<close>, \<open>Scope\<close>): rewriting and validating the steps of a scoped transaction and
    keeping it as a proposal.
  \<^item> \<open>Records\<close> (\<open>db.rs\<close>): records as nodes, their batches and paged scans.
  \<^item> \<open>StorageTx\<close> (\<open>engine.rs\<close>): storage transactions with the index fragments of each node.
  \<^item> \<open>Segment\<close>, \<open>Recovery\<close> (\<open>engine.rs\<close>, \<open>durable.rs\<close>): the file store as single steps on a
    directory, and crash recovery; commits are atomic at every file change.
  \<^item> \<open>SegmentRead\<close> (\<open>engine.rs\<close>): exporting snapshots and scanning indexes and records over the
    directory; a scan of records returns exactly the stored ones, in order.
  \<^item> \<open>Persist\<close> (\<open>db.rs\<close>, \<open>storage.rs\<close>): snapshots, change events, flushing, opening a store and the
    storage adapters, on a database that is the locked state together with its directory.  The runs
    of a database over a segment store are an inductive predicate (\<open>running\<close>); along each of them memory
    mirrors the disk, a flush succeeds, and a reopened database reads back what was flushed.
  \<^item> \<open>Router\<close> (\<open>router.rs\<close>, \<open>transport.rs\<close>): envelopes, the router, the relay and the hub of a
    process.  A network of routers is a step relation (\<open>flood_step\<close>); flooding ends, its caches and
    paths are bounded, and a route is delivered once while the caches hold it.

  \<^bold>\<open>Modelling choices.\<close>  A struct is a \<open>record\<close>, an enum a \<open>datatype\<close>, \<open>u64\<close>, \<open>u32\<close> and \<open>u8\<close> are
  words, \<open>usize\<close> is \<open>nat\<close>.  A \<open>BTreeMap\<close> is an \<open>fmap\<close> and a \<open>BTreeSet\<close> an \<open>fset\<close>, iterated in
  key order.  A \<open>String\<close> is its list of UTF-8 bytes.  A method that takes the lock is a function on
  the locked state; what it does after releasing the lock is a separate function.  The wall clock,
  random bytes, hashing (\<open>blake3\<close>), base64, JSON text and blob files are arguments, collected in
  records such as \<open>externs\<close> and \<open>digests\<close>, with what the code relies on as hypotheses
  (\<open>codec_ok\<close>); every theorem with such a hypothesis has a witness with concrete functions.  The
  build is the default one for native targets, without the crypto feature.

  \<^bold>\<open>Fuel.\<close>  Materialising a node follows links and takes the number of nodes in memory and in the
  store as fuel; \<open>Writes.materialize_terminates\<close> shows this is enough because a node on the path
  is never entered again.  The page loop of record scans is a \<open>partial_function\<close>;
  \<open>Records.stored_scan_ends\<close> shows that it returns for every engine that answers from a finite
  store.  All other loops are total functions with a termination proof.

  \<^bold>\<open>Not modelled.\<close>  Sockets, threads and their event loops, browser bindings, language bindings
  and cryptography: these parts are input and output, or call libraries whose code is not part of
  the repository.  Text and vector search rank by floating point scores.  The messages
  that envelopes carry and the merge of answers from several peers (\<open>sync.rs\<close>) are left out, as are
  watches, search caches and blob files.  Within the modelled parts, syncing of files and directories,
  temporary files, file system errors and lock acquisition are left out.
\<close>

end
